(* ===== verification/Go_Prelude.thy ===== *)
theory Go_Prelude
  imports Main "HOL-Library.Word" "HOL-Library.Monad_Syntax"
begin

text \<open>
  Shared vocabulary of the development.

  \<^item> Go's \<open>int\<close> is 64 bits wide; the model keeps it as \<open>int\<close> and writes the wrap-around
    out as \<open>wrap64\<close> in the one place where the code can overflow it.
  \<^item> An operation that can panic (an index or a slice bound out of range) returns an
    \<open>option\<close>: \<open>None\<close> is the panic, and the \<open>do\<close> notation stops at the first one, as the
    goroutine does.
  \<^item> An operation that returns a Go \<open>error\<close> returns a sum, \<open>Inl\<close> the error.

  The generic lemmas on slices, majorities and words are declared for the simplifier or
  collected in \<open>go_slice\<close>, so that the component proofs can use them by name.
\<close>

named_theorems go_slice \<open>definitions of the slice operations\<close>
named_theorems raft_ops \<open>definitions of the operations of one Raft node\<close>
named_theorems frame \<open>fields that an operation leaves unchanged\<close>

section \<open>Go integers\<close>

definition wrap64 :: "int \<Rightarrow> int" where
  "wrap64 i = (i + 2 ^ 63) mod 2 ^ 64 - 2 ^ 63"

lemma wrap64_id: "- (2 ^ 63) \<le> i \<Longrightarrow> i < 2 ^ 63 \<Longrightarrow> wrap64 i = i"
  by (simp add: wrap64_def)

lemma wrap64_over: "2 ^ 63 \<le> i \<Longrightarrow> i < 3 * 2 ^ 63 \<Longrightarrow> wrap64 i = i - 2 ^ 64"
proof -
  assume "2 ^ 63 \<le> i" and "i < 3 * 2 ^ 63"
  then have "(i + 2 ^ 63) mod 2 ^ 64 = i + 2 ^ 63 - 2 ^ 64"
    by (simp add: mod_if mod_pos_geq)
  then show ?thesis by (simp add: wrap64_def)
qed

section \<open>Slices\<close>

text \<open>\<open>xs[i]\<close>, \<open>xs[i:]\<close> and \<open>xs[:j]\<close>; \<open>None\<close> is the panic.\<close>

definition go_nth :: "'a list \<Rightarrow> int \<Rightarrow> 'a option" where
  "go_nth xs i = (if 0 \<le> i \<and> i < int (length xs) then Some (xs ! nat i) else None)"

definition go_from :: "'a list \<Rightarrow> int \<Rightarrow> 'a list option" where
  "go_from xs i = (if 0 \<le> i \<and> i \<le> int (length xs) then Some (drop (nat i) xs) else None)"

definition go_upto :: "'a list \<Rightarrow> int \<Rightarrow> 'a list option" where
  "go_upto xs j = (if 0 \<le> j \<and> j \<le> int (length xs) then Some (take (nat j) xs) else None)"

definition go_set :: "'a list \<Rightarrow> int \<Rightarrow> 'a \<Rightarrow> 'a list option" where
  "go_set xs i v = (if 0 \<le> i \<and> i < int (length xs) then Some (xs[nat i := v]) else None)"

lemmas go_slice_defs [go_slice] = go_nth_def go_from_def go_upto_def go_set_def

lemma go_nth_Some [simp]:
  "0 \<le> i \<Longrightarrow> i < int (length xs) \<Longrightarrow> go_nth xs i = Some (xs ! nat i)"
  by (simp add: go_nth_def)

lemma go_from_Some [simp]:
  "0 \<le> i \<Longrightarrow> i \<le> int (length xs) \<Longrightarrow> go_from xs i = Some (drop (nat i) xs)"
  by (simp add: go_from_def)

lemma go_upto_Some [simp]:
  "0 \<le> j \<Longrightarrow> j \<le> int (length xs) \<Longrightarrow> go_upto xs j = Some (take (nat j) xs)"
  by (simp add: go_upto_def)

lemma go_set_Some [simp]:
  "0 \<le> i \<Longrightarrow> i < int (length xs) \<Longrightarrow> go_set xs i v = Some (xs[nat i := v])"
  by (simp add: go_set_def)

lemma go_nth_None_iff: "go_nth xs i = None \<longleftrightarrow> i < 0 \<or> int (length xs) \<le> i"
  by (auto simp: go_nth_def)

section \<open>Majorities\<close>

text \<open>
  The quorum test of the code, \<open>count >= len(peers)/2 + 1\<close>, and the fact that every
  safety argument needs: two sets of peers that pass it share a peer.
\<close>

definition majority :: "int \<Rightarrow> int \<Rightarrow> bool" where
  "majority n count \<longleftrightarrow> n div 2 + 1 \<le> count"

locale quorum_system =
  fixes peers :: "'p set" and quorum :: "'p set \<Rightarrow> bool"
  assumes quorum_sub: "quorum Q \<Longrightarrow> Q \<subseteq> peers"
    and quorum_meet: "quorum Q \<Longrightarrow> quorum R \<Longrightarrow> Q \<inter> R \<noteq> {}"
begin

text \<open>A relation that gives each peer at most one choice has at most one chosen by a quorum.\<close>

lemma unique_choice:
  assumes "quorum Q" and "quorum R"
    and "\<And>p. p \<in> Q \<Longrightarrow> vote p a" and "\<And>p. p \<in> R \<Longrightarrow> vote p b"
    and "\<And>p c d. vote p c \<Longrightarrow> vote p d \<Longrightarrow> c = d"
  shows "a = b"
  using quorum_meet [OF assms(1,2)] assms(3,4,5) by blast

lemma quorum_not_empty: "quorum Q \<Longrightarrow> Q \<noteq> {}"
  using quorum_meet [of Q Q] by auto

end

definition peer_quorum :: "nat \<Rightarrow> nat set \<Rightarrow> bool" where
  "peer_quorum n Q \<longleftrightarrow> Q \<subseteq> {..<n} \<and> majority (int n) (int (card Q))"

lemma majorities_meet:
  assumes "peer_quorum n Q" and "peer_quorum n R"
  shows "Q \<inter> R \<noteq> {}"
proof
  assume disj: "Q \<inter> R = {}"
  have fin: "finite Q" "finite R"
    using assms by (auto simp: peer_quorum_def intro: finite_subset)
  have "card (Q \<union> R) \<le> n"
    using assms card_mono [of "{..<n}" "Q \<union> R"] by (auto simp: peer_quorum_def)
  then have "card Q + card R \<le> n"
    using card_Un_disjoint [OF fin disj] by simp
  then show False
    using assms by (auto simp: peer_quorum_def majority_def)
qed

lemma peer_quorum_mono:
  assumes "peer_quorum n Q" and "Q \<subseteq> R" and "R \<subseteq> {..<n}"
  shows "peer_quorum n R"
proof -
  have "finite R" using assms(3) finite_subset by blast
  then have "card Q \<le> card R" using assms(2) by (rule card_mono)
  then show ?thesis using assms(1,3) by (simp add: peer_quorum_def majority_def)
qed

interpretation maj: quorum_system "{..<n}" "peer_quorum n" for n
  by unfold_locales (auto simp: majorities_meet, auto simp: peer_quorum_def)

section \<open>Words as bit sets\<close>

unbundle bit_operations_syntax

lemma word_and_bit_0_iff:
  assumes "n < 64"
  shows "(w :: 64 word) AND push_bit n 1 = 0 \<longleftrightarrow> \<not> bit w n"
proof
  assume "w AND push_bit n 1 = 0"
  then have "\<not> bit (w AND push_bit n 1) n" by simp
  with assms show "\<not> bit w n" by (simp add: bit_simps)
next
  assume "\<not> bit w n"
  then show "w AND push_bit n 1 = 0"
    by (intro bit_word_eqI) (auto simp: bit_simps)
qed

end
