(* ===== verification/Raft_Persister.thy ===== *)
theory Raft_Persister
  imports Go_Prelude
begin

text \<open>
  Stable storage of a Raft node, \<open>internal/raft/persister.go\<close>, and the log entries it holds.

  The bytes that \<open>encoding/gob\<close> writes are modelled as the sequence of values that were
  encoded: \<open>Encode\<close> appends one value, \<open>Decode\<close> takes the next one and fails at the end of
  the input or when the value has another type. A snapshot is opaque to Raft; \<open>None\<close> is the
  empty slice. The file of a file-backed persister is written in two steps, the temporary
  file and the rename, each of which may fail or be cut off by a crash.
\<close>

section \<open>Log entries and their encoding\<close>

record 'c LogEntry =
  leTerm :: int
  leCommand :: "'c option"

datatype 'c gob = GInt int | GLog "'c LogEntry list"

type_synonym 'c gob_bytes = "'c gob list"

fun decode_int :: "'c gob_bytes \<Rightarrow> (int \<times> 'c gob_bytes) option" where
  "decode_int (GInt i # bs) = Some (i, bs)"
| "decode_int _ = None"

fun decode_log :: "'c gob_bytes \<Rightarrow> ('c LogEntry list \<times> 'c gob_bytes) option" where
  "decode_log (GLog l # bs) = Some (l, bs)"
| "decode_log _ = None"

section \<open>The in-memory persister\<close>

record ('c, 's) persister =
  raftstate :: "'c gob_bytes"
  snapshot :: "'s option"

definition MakePersister :: "('c, 's) persister" where
  "MakePersister = \<lparr>raftstate = [], snapshot = None\<rparr>"

text \<open>\<open>clone\<close> copies the bytes, which a value of the model needs no operation for.\<close>

definition Save :: "'c gob_bytes \<Rightarrow> 's option \<Rightarrow> ('c, 's) persister \<Rightarrow> ('c, 's) persister" where
  "Save rs snap ps = ps\<lparr>raftstate := rs, snapshot := snap\<rparr>"

definition ReadRaftState :: "('c, 's) persister \<Rightarrow> 'c gob_bytes" where
  "ReadRaftState ps = raftstate ps"

definition ReadSnapshot :: "('c, 's) persister \<Rightarrow> 's option" where
  "ReadSnapshot ps = snapshot ps"

definition RaftStateSize :: "('c, 's) persister \<Rightarrow> nat" where
  "RaftStateSize ps = length (raftstate ps)"

definition CopyPersister :: "('c, 's) persister \<Rightarrow> ('c, 's) persister" where
  "CopyPersister ps = MakePersister\<lparr>raftstate := raftstate ps, snapshot := snapshot ps\<rparr>"

section \<open>The file\<close>

text \<open>
  A directory holds \<open>raft-state.json\<close> and its temporary file. A file that was cut off while
  it was written is \<open>Garbled\<close>: \<open>json.Unmarshal\<close> rejects it.
\<close>

datatype ('c, 's) disk_file = Garbled | StateFile "('c, 's) persister"

record ('c, 's) dir =
  tmpFile :: "('c, 's) disk_file option"
  stateFile :: "('c, 's) disk_file option"

datatype io_fault = NoFault | WriteFails | WriteCutOff | RenameFails

datatype load_result = LoadOk | LoadError

text \<open>\<open>readFails\<close> is a read error other than a missing file, \<open>mkdirFails\<close> an error of \<open>MkdirAll\<close>.\<close>

definition load ::
  "bool \<Rightarrow> ('c, 's) dir \<Rightarrow> ('c, 's) persister \<Rightarrow> load_result \<times> ('c, 's) persister" where
  "load readFails d ps =
     (if readFails then (LoadError, ps)
      else case stateFile d of
        None \<Rightarrow> (LoadOk, ps)
      | Some Garbled \<Rightarrow> (LoadError, ps)
      | Some (StateFile st) \<Rightarrow> (LoadOk, ps\<lparr>raftstate := raftstate st, snapshot := snapshot st\<rparr>))"

text \<open>On an error the constructor returns no persister.\<close>

definition MakeFilePersister ::
  "bool \<Rightarrow> bool \<Rightarrow> ('c, 's) dir \<Rightarrow> ('c, 's) persister option" where
  "MakeFilePersister mkdirFails readFails d =
     (if mkdirFails then None
      else case load readFails d MakePersister of
        (LoadOk, ps) \<Rightarrow> Some ps
      | (LoadError, _) \<Rightarrow> None)"

definition write_tmp :: "io_fault \<Rightarrow> ('c, 's) persister \<Rightarrow> ('c, 's) dir \<Rightarrow> bool \<times> ('c, 's) dir" where
  "write_tmp f ps d =
     (case f of
        WriteFails \<Rightarrow> (False, d)
      | WriteCutOff \<Rightarrow> (False, d\<lparr>tmpFile := Some Garbled\<rparr>)
      | _ \<Rightarrow> (True, d\<lparr>tmpFile := Some (StateFile ps)\<rparr>))"

definition rename_tmp :: "io_fault \<Rightarrow> ('c, 's) dir \<Rightarrow> bool \<times> ('c, 's) dir" where
  "rename_tmp f d =
     (if f = RenameFails then (False, d)
      else (True, d\<lparr>stateFile := tmpFile d, tmpFile := None\<rparr>))"

definition saveLocked ::
  "io_fault \<Rightarrow> ('c, 's) persister \<Rightarrow> ('c, 's) dir \<Rightarrow> bool \<times> ('c, 's) dir" where
  "saveLocked f ps d =
     (case write_tmp f ps d of
        (False, d') \<Rightarrow> (False, d')
      | (True, d') \<Rightarrow> rename_tmp f d')"

text \<open>
  \<open>Save\<close> of a file-backed persister. The memory copy is replaced first; a failing write
  panics (\<open>None\<close>), and the directory keeps what the failing step left.
\<close>

definition SaveFile ::
  "io_fault \<Rightarrow> 'c gob_bytes \<Rightarrow> 's option \<Rightarrow> ('c, 's) persister \<times> ('c, 's) dir
    \<Rightarrow> ('c, 's) persister option \<times> ('c, 's) dir" where
  "SaveFile f rs snap psd =
     (case psd of (ps, d) \<Rightarrow>
        let ps' = Save rs snap ps in
        case saveLocked f ps' d of
          (True, d') \<Rightarrow> (Some ps', d')
        | (False, d') \<Rightarrow> (None, d'))"

definition dir_ok :: "('c, 's) dir \<Rightarrow> bool" where
  "dir_ok d \<longleftrightarrow> stateFile d \<noteq> Some Garbled"

lemma load_dir_ok: "dir_ok d \<Longrightarrow> MakeFilePersister False False d \<noteq> None"
  by (auto simp: dir_ok_def MakeFilePersister_def load_def split: option.splits disk_file.splits)

text \<open>
  C26. Replacing the file is atomic: whatever fails or is cut off, a restart loads either the
  state before the save or the complete new state, never an error and never a mixture, and a
  save that returns is the one that a restart loads.
\<close>

theorem SaveFile_atomic:
  assumes "dir_ok d" and "SaveFile f rs snap (ps, d) = (res, d')"
  shows "dir_ok d' \<and>
    (case res of
       Some ps' \<Rightarrow> MakeFilePersister False False d' = Some ps' \<and> raftstate ps' = rs \<and> snapshot ps' = snap
     | None \<Rightarrow> MakeFilePersister False False d' = MakeFilePersister False False d)"
  using assms
  by (cases f)
    (auto simp: SaveFile_def saveLocked_def write_tmp_def rename_tmp_def MakeFilePersister_def
      load_def dir_ok_def Save_def MakePersister_def Let_def split: option.splits)

theorem SaveFile_atomic_witness:
  "dir_ok (\<lparr>tmpFile = Some Garbled, stateFile = None\<rparr> :: (nat, nat) dir) \<and>
   MakeFilePersister False False (snd (SaveFile NoFault [GInt 3] (Some 7)
      (MakePersister, \<lparr>tmpFile = Some Garbled, stateFile = None\<rparr> :: (nat, nat) dir)))
   = Some \<lparr>raftstate = [GInt 3], snapshot = Some 7\<rparr>"
proof -
  let ?d = "\<lparr>tmpFile = Some Garbled, stateFile = None\<rparr> :: (nat, nat) dir"
  let ?ps = "\<lparr>raftstate = [GInt 3], snapshot = Some 7\<rparr> :: (nat, nat) persister"
  let ?d' = "\<lparr>tmpFile = None, stateFile = Some (StateFile ?ps)\<rparr>"
  have eq: "SaveFile NoFault [GInt 3] (Some 7) (MakePersister, ?d) = (Some ?ps, ?d')"
    by (simp add: SaveFile_def saveLocked_def write_tmp_def rename_tmp_def Save_def MakePersister_def Let_def)
  have ok: "dir_ok ?d" by (simp add: dir_ok_def)
  from SaveFile_atomic [OF ok eq] ok eq show ?thesis by simp
qed

text \<open>The law that a node relies on: what was saved last is what is read back.\<close>

locale stable_storage =
  fixes save :: "'r \<Rightarrow> 's option \<Rightarrow> 'p \<Rightarrow> 'p"
    and read_state :: "'p \<Rightarrow> 'r" and read_snapshot :: "'p \<Rightarrow> 's option"
  assumes read_save: "read_state (save r s p) = r"
    and snapshot_save: "read_snapshot (save r s p) = s"
begin

lemma save_keeps_snapshot: "read_snapshot (save r (read_snapshot p) p) = read_snapshot p"
  by (rule snapshot_save)

lemma last_save_wins: "read_state (save r s (save r' s' p)) = r"
  by (rule read_save)

end

interpretation ps: stable_storage Save ReadRaftState ReadSnapshot
  by unfold_locales (simp_all add: Save_def ReadRaftState_def ReadSnapshot_def)

end
