(* ===== verification/Raft_Node.thy ===== *)
theory Raft_Node
  imports Raft_Persister
begin

text \<open>
  One Raft peer, \<open>internal/raft/raft.go\<close>: its state and the operations on it, each of them
  the work done between one acquisition of \<open>rf.mu\<close> and its release. Where the Go code releases
  the lock around a remote call, the operation is split at that point: what is computed before
  the call (the request), and what is done with the reply.

  Every operation that indexes or slices the log is an option, \<open>None\<close> being the panic. The
  \<open>Command\<close> of an entry is \<open>None\<close> for \<open>nil\<close>. \<open>now\<close> is the value of \<open>time.Now()\<close>.
\<close>

section \<open>State and messages\<close>

datatype role = Follower | Candidate | Leader

record ('c, 's) ApplyMsg =
  CommandValid :: bool
  amCommand :: "'c option"
  CommandIndex :: int
  SnapshotValid :: bool
  amSnapshot :: "'s option"
  SnapshotTerm :: int
  SnapshotIndex :: int

record ('c, 's) raft =
  npeers :: nat
  persister :: "('c, 's) persister"
  me :: nat
  dead :: bool
  currentTerm :: int
  votedFor :: int
  rlog :: "'c LogEntry list"
  lastIncludedIndex :: int
  lastIncludedTerm :: int
  commitIndex :: int
  lastApplied :: int
  nextIndex :: "int list"
  matchIndex :: "int list"
  role :: role
  lastHeartbeat :: int
  pendingSnapshot :: "('c, 's) ApplyMsg option"

record RequestVoteArgs =
  rvTerm :: int
  CandidateId :: nat
  LastLogIndex :: int
  LastLogTerm :: int

record RequestVoteReply =
  rvrTerm :: int
  VoteGranted :: bool

record 'c AppendEntriesArgs =
  aeTerm :: int
  aeLeaderId :: nat
  PrevLogIndex :: int
  PrevLogTerm :: int
  Entries :: "'c LogEntry list"
  LeaderCommit :: int

record AppendEntriesReply =
  aerTerm :: int
  Success :: bool
  ConflictTerm :: int
  ConflictIndex :: int

record 's InstallSnapshotArgs =
  isTerm :: int
  isLeaderId :: nat
  isLastIncludedIndex :: int
  isLastIncludedTerm :: int
  isData :: "'s option"

record InstallSnapshotReply =
  isrTerm :: int

section \<open>Index helpers and persistence\<close>

definition logIndex :: "('c, 's) raft \<Rightarrow> int \<Rightarrow> int" where
  "logIndex rf i = i - lastIncludedIndex rf"

definition lastLogIndex :: "('c, 's) raft \<Rightarrow> int" where
  "lastLogIndex rf = lastIncludedIndex rf + int (length (rlog rf)) - 1"

definition logTerm :: "('c, 's) raft \<Rightarrow> int \<Rightarrow> int option" where
  "logTerm rf i =
     (if i = lastIncludedIndex rf then Some (lastIncludedTerm rf)
      else map_option leTerm (go_nth (rlog rf) (logIndex rf i)))"

definition GetState :: "('c, 's) raft \<Rightarrow> int \<times> bool" where
  "GetState rf = (currentTerm rf, role rf = Leader)"

definition encode_state :: "('c, 's) raft \<Rightarrow> 'c gob_bytes" where
  "encode_state rf =
     [GInt (currentTerm rf), GInt (votedFor rf), GLog (rlog rf), GInt (lastIncludedIndex rf),
      GInt (lastIncludedTerm rf)]"

definition persistWithSnapshot :: "'s option \<Rightarrow> ('c, 's) raft \<Rightarrow> ('c, 's) raft" where
  "persistWithSnapshot snap rf = rf\<lparr>persister := Save (encode_state rf) snap (persister rf)\<rparr>"

definition persist :: "('c, 's) raft \<Rightarrow> ('c, 's) raft" where
  "persist rf = persistWithSnapshot (ReadSnapshot (persister rf)) rf"

text \<open>\<open>readPersist\<close>: empty input or any decoding error leaves the fields as they are.\<close>

definition readPersist :: "'c gob_bytes \<Rightarrow> ('c, 's) raft \<Rightarrow> ('c, 's) raft" where
  "readPersist data rf =
     (if data = [] then rf
      else
        (case do {
            (term, data) \<leftarrow> decode_int data;
            (vote, data) \<leftarrow> decode_int data;
            (l, data) \<leftarrow> decode_log data;
            (lii, data) \<leftarrow> decode_int data;
            (lit, data) \<leftarrow> decode_int data;
            Some (rf\<lparr>currentTerm := term, votedFor := vote, rlog := l,
                     lastIncludedIndex := lii, lastIncludedTerm := lit\<rparr>)
          } of None \<Rightarrow> rf | Some rf' \<Rightarrow> rf'))"

definition Make :: "nat \<Rightarrow> nat \<Rightarrow> ('c, 's) persister \<Rightarrow> int \<Rightarrow> ('c, 's) raft" where
  "Make peers self ps now =
     (let rf = \<lparr>npeers = peers, persister = ps, me = self, dead = False, currentTerm = 0,
                votedFor = -1, rlog = [\<lparr>leTerm = 0, leCommand = None\<rparr>], lastIncludedIndex = 0,
                lastIncludedTerm = 0, commitIndex = 0, lastApplied = 0, nextIndex = [],
                matchIndex = [], role = Follower, lastHeartbeat = now, pendingSnapshot = None\<rparr>;
          rf = readPersist (ReadRaftState ps) rf
      in rf\<lparr>lastApplied := lastIncludedIndex rf, commitIndex := lastIncludedIndex rf\<rparr>)"

definition Kill :: "('c, 's) raft \<Rightarrow> ('c, 's) raft" where
  "Kill rf = rf\<lparr>dead := True\<rparr>"

section \<open>Snapshots taken by the service\<close>

definition Snapshot :: "int \<Rightarrow> 's option \<Rightarrow> ('c, 's) raft \<Rightarrow> ('c, 's) raft option" where
  "Snapshot index snap rf =
     (if index \<le> lastIncludedIndex rf then Some rf
      else do {
        newTerm \<leftarrow> logTerm rf index;
        l \<leftarrow> go_from (rlog rf) (logIndex rf index);
        first \<leftarrow> go_nth l 0;
        l' \<leftarrow> go_set l 0 (first\<lparr>leCommand := None\<rparr>);
        Some (persistWithSnapshot snap
          (rf\<lparr>rlog := l', lastIncludedIndex := index, lastIncludedTerm := newTerm\<rparr>))
      })"

section \<open>Elections\<close>

text \<open>
  The step down that a higher term causes, written out at four places of the source with the
  same three assignments and the call of \<open>persist\<close>.
\<close>

definition step_down :: "int \<Rightarrow> ('c, 's) raft \<Rightarrow> ('c, 's) raft" where
  "step_down term rf = persist (rf\<lparr>currentTerm := term, role := Follower, votedFor := -1\<rparr>)"

definition RequestVote ::
  "RequestVoteArgs \<Rightarrow> int \<Rightarrow> ('c, 's) raft \<Rightarrow> (('c, 's) raft \<times> RequestVoteReply) option" where
  "RequestVote args now rf =
     (let reply = \<lparr>rvrTerm = currentTerm rf, VoteGranted = False\<rparr> in
      if rvTerm args < currentTerm rf then Some (rf, reply)
      else
        let rf = (if rvTerm args > currentTerm rf then step_down (rvTerm args) rf else rf) in
        if votedFor rf \<noteq> -1 \<and> votedFor rf \<noteq> int (CandidateId args) then Some (rf, reply)
        else do {
          let lastIndex = lastLogIndex rf;
          lastTerm \<leftarrow> logTerm rf lastIndex;
          let logOk = (LastLogTerm args > lastTerm
            \<or> (LastLogTerm args = lastTerm \<and> LastLogIndex args \<ge> lastIndex));
          if \<not> logOk then Some (rf, reply)
          else Some ((persist (rf\<lparr>votedFor := int (CandidateId args)\<rparr>))\<lparr>lastHeartbeat := now\<rparr>,
                     reply\<lparr>VoteGranted := True\<rparr>)
        })"

text \<open>The test of \<open>electionTimeoutLoop\<close> after it slept for \<open>sleep\<close>.\<close>

definition election_due :: "int \<Rightarrow> int \<Rightarrow> ('c, 's) raft \<Rightarrow> bool" where
  "election_due now sleep rf \<longleftrightarrow> role rf \<noteq> Leader \<and> now - lastHeartbeat rf \<ge> sleep"

text \<open>
  \<open>startElection\<close>: the new state and the request that is sent to every peer but this one
  (the log does not change while the loop creates them).
\<close>

definition startElection ::
  "('c, 's) raft \<Rightarrow> (('c, 's) raft \<times> (nat \<times> RequestVoteArgs) list) option" where
  "startElection rf =
     (let rf = persist (rf\<lparr>role := Candidate, currentTerm := currentTerm rf + 1,
                           votedFor := int (me rf)\<rparr>);
          others = filter (\<lambda>i. i \<noteq> me rf) [0..<npeers rf]
      in if others = [] then Some (rf, [])
         else do {
           let lastIdx = lastLogIndex rf;
           lastTerm \<leftarrow> logTerm rf lastIdx;
           Some (rf, map (\<lambda>i. (i, \<lparr>rvTerm = currentTerm rf, CandidateId = me rf,
                                   LastLogIndex = lastIdx, LastLogTerm = lastTerm\<rparr>)) others)
         })"

definition becomeLeader :: "('c, 's) raft \<Rightarrow> ('c, 's) raft" where
  "becomeLeader rf =
     rf\<lparr>role := Leader,
        nextIndex := replicate (npeers rf) (lastLogIndex rf + 1),
        matchIndex := replicate (npeers rf) 0\<rparr>"

text \<open>
  What the goroutine of \<open>startElection\<close> does with a reply: \<open>term\<close> and \<open>votes\<close> are the
  variables it captured; \<open>votes\<close> is shared by the goroutines of one election.
\<close>

definition handleVoteReply ::
  "int \<Rightarrow> int \<Rightarrow> RequestVoteReply \<Rightarrow> ('c, 's) raft \<Rightarrow> ('c, 's) raft \<times> int" where
  "handleVoteReply term votes reply rf =
     (if currentTerm rf \<noteq> term \<or> role rf \<noteq> Candidate then (rf, votes)
      else if rvrTerm reply > currentTerm rf then (step_down (rvrTerm reply) rf, votes)
      else if VoteGranted reply then
        (let votes = votes + 1
         in if majority (int (npeers rf)) votes then (becomeLeader rf, votes) else (rf, votes))
      else (rf, votes))"

section \<open>Replication\<close>

text \<open>\<open>Start\<close> returns the index, the term and whether this peer is the leader.\<close>

definition Start :: "'c \<Rightarrow> ('c, 's) raft \<Rightarrow> ('c, 's) raft \<times> int \<times> int \<times> bool" where
  "Start command rf =
     (if role rf \<noteq> Leader then (rf, -1, currentTerm rf, False)
      else
        let rf = rf\<lparr>rlog := rlog rf @ [\<lparr>leTerm = currentTerm rf, leCommand = Some command\<rparr>]\<rparr>
        in (persist rf, lastLogIndex rf, currentTerm rf, True))"

text \<open>
  \<open>sendHeartbeats\<close> reads term and commit index under one lock, whatever the role; the goroutine
  for a peer then decides under another what to send. \<open>nextIndex\<close> out of range panics.
\<close>

definition sendHeartbeats :: "('c, 's) raft \<Rightarrow> int \<times> int" where
  "sendHeartbeats rf = (currentTerm rf, commitIndex rf)"

datatype ('c, 's) outgoing =
    NotLeaderAnyMore
  | SendSnapshot "'s InstallSnapshotArgs"
  | SendAppend "'c AppendEntriesArgs"

definition snapshotArgs :: "('c, 's) raft \<Rightarrow> 's InstallSnapshotArgs" where
  "snapshotArgs rf =
     \<lparr>isTerm = currentTerm rf, isLeaderId = me rf, isLastIncludedIndex = lastIncludedIndex rf,
      isLastIncludedTerm = lastIncludedTerm rf, isData = ReadSnapshot (persister rf)\<rparr>"

definition heartbeatRequest ::
  "int \<Rightarrow> int \<Rightarrow> nat \<Rightarrow> ('c, 's) raft \<Rightarrow> ('c, 's) outgoing option" where
  "heartbeatRequest term commit peer rf =
     (if role rf \<noteq> Leader then Some NotLeaderAnyMore
      else do {
        ni \<leftarrow> go_nth (nextIndex rf) (int peer);
        if ni \<le> lastIncludedIndex rf then Some (SendSnapshot (snapshotArgs rf))
        else do {
          let prevLogIndex = ni - 1;
          prevLogTerm \<leftarrow> logTerm rf prevLogIndex;
          entries \<leftarrow> go_from (rlog rf) (logIndex rf ni);
          Some (SendAppend \<lparr>aeTerm = term, aeLeaderId = me rf, PrevLogIndex = prevLogIndex,
                            PrevLogTerm = prevLogTerm, Entries = entries, LeaderCommit = commit\<rparr>)
        }
      })"

text \<open>The walk back of \<open>AppendEntries\<close> to the first index of the conflicting term.\<close>

function walk_back :: "('c, 's) raft \<Rightarrow> int \<Rightarrow> int \<Rightarrow> int option" where
  "walk_back rf ct ci =
     (if ci > lastIncludedIndex rf + 1 then
        (case logTerm rf (ci - 1) of
           None \<Rightarrow> None
         | Some t \<Rightarrow> if t = ct then walk_back rf ct (ci - 1) else Some ci)
      else Some ci)"
  by pat_completeness auto
termination
  by (relation "measure (\<lambda>(rf, ct, ci). nat (ci - lastIncludedIndex rf))") auto

declare walk_back.simps [simp del]

text \<open>The loop over the entries; the first argument is the index of the first of them.\<close>

fun append_loop :: "int \<Rightarrow> 'c LogEntry list \<Rightarrow> ('c, 's) raft \<Rightarrow> ('c, 's) raft option" where
  "append_loop idx [] rf = Some rf"
| "append_loop idx (e # es) rf =
     (if idx < lastLogIndex rf + 1 then
        do {
          t \<leftarrow> logTerm rf idx;
          if t \<noteq> leTerm e then
            do {
              l \<leftarrow> go_upto (rlog rf) (logIndex rf idx);
              Some (rf\<lparr>rlog := l @ e # es\<rparr>)
            }
          else append_loop (idx + 1) es rf
        }
      else Some (rf\<lparr>rlog := rlog rf @ e # es\<rparr>))"

definition AppendEntries ::
  "'c AppendEntriesArgs \<Rightarrow> int \<Rightarrow> ('c, 's) raft \<Rightarrow> (('c, 's) raft \<times> AppendEntriesReply) option" where
  "AppendEntries args now rf =
     (let reply = \<lparr>aerTerm = currentTerm rf, Success = False, ConflictTerm = -1,
                   ConflictIndex = 0\<rparr> in
      if aeTerm args < currentTerm rf then Some (rf, reply)
      else
        let rf = persist (rf\<lparr>lastHeartbeat := now, role := Follower, currentTerm := aeTerm args\<rparr>);
            reply = reply\<lparr>aerTerm := currentTerm rf\<rparr> in
        if PrevLogIndex args < lastIncludedIndex rf then
          Some (rf, reply\<lparr>ConflictIndex := lastIncludedIndex rf + 1, ConflictTerm := -1\<rparr>)
        else if PrevLogIndex args > lastLogIndex rf then
          Some (rf, reply\<lparr>ConflictTerm := -1, ConflictIndex := lastLogIndex rf + 1\<rparr>)
        else do {
          prevTerm \<leftarrow> logTerm rf (PrevLogIndex args);
          if prevTerm \<noteq> PrevLogTerm args then
            do {
              ci \<leftarrow> walk_back rf prevTerm (PrevLogIndex args);
              Some (rf, reply\<lparr>ConflictTerm := prevTerm, ConflictIndex := ci\<rparr>)
            }
          else do {
            rf \<leftarrow> append_loop (PrevLogIndex args + 1) (Entries args) rf;
            let rf = persist rf;
            let lastNewIndex = PrevLogIndex args + int (length (Entries args));
            let rf = (if LeaderCommit args > commitIndex rf
                      then rf\<lparr>commitIndex :=
                             (if LeaderCommit args < lastNewIndex then LeaderCommit args
                              else lastNewIndex)\<rparr>
                      else rf);
            Some (rf, reply\<lparr>Success := True\<rparr>)
          }
        })"

text \<open>
  \<open>maybeAdvanceCommitIndex\<close>: \<open>count_matches\<close> is the inner loop, \<open>advance_loop\<close> the outer one,
  which runs for \<open>n\<close> up to the last index and keeps the last index that passes.
\<close>

fun count_matches :: "('c, 's) raft \<Rightarrow> int \<Rightarrow> nat list \<Rightarrow> int \<Rightarrow> int option" where
  "count_matches rf n [] count = Some count"
| "count_matches rf n (i # is) count =
     (if i \<noteq> me rf then
        do {
          m \<leftarrow> go_nth (matchIndex rf) (int i);
          count_matches rf n is (if m \<ge> n then count + 1 else count)
        }
      else count_matches rf n is count)"

function advance_loop :: "int \<Rightarrow> ('c, 's) raft \<Rightarrow> ('c, 's) raft option" where
  "advance_loop n rf =
     (if n \<le> lastLogIndex rf then
        (case logTerm rf n of
           None \<Rightarrow> None
         | Some t \<Rightarrow>
             if t \<noteq> currentTerm rf then advance_loop (n + 1) rf
             else
               (case count_matches rf n [0..<npeers rf] 1 of
                  None \<Rightarrow> None
                | Some count \<Rightarrow>
                    advance_loop (n + 1)
                      (if majority (int (npeers rf)) count then rf\<lparr>commitIndex := n\<rparr> else rf)))
      else Some rf)"
  by pat_completeness auto
termination
  by (relation "measure (\<lambda>(n, rf). nat (lastLogIndex rf + 1 - n))") (auto simp: lastLogIndex_def)

declare advance_loop.simps [simp del]

definition maybeAdvanceCommitIndex :: "('c, 's) raft \<Rightarrow> ('c, 's) raft option" where
  "maybeAdvanceCommitIndex rf = advance_loop (commitIndex rf + 1) rf"

text \<open>The backward search for the conflicting term in the leader's own log.\<close>

function find_term :: "('c, 's) raft \<Rightarrow> int \<Rightarrow> int \<Rightarrow> int option" where
  "find_term rf ct j =
     (if j > lastIncludedIndex rf then
        (case logTerm rf j of
           None \<Rightarrow> None
         | Some t \<Rightarrow> if t = ct then Some (j + 1) else find_term rf ct (j - 1))
      else Some (-1))"
  by pat_completeness auto
termination
  by (relation "measure (\<lambda>(rf, ct, j). nat (j - lastIncludedIndex rf))") auto

declare find_term.simps [simp del]

text \<open>What the goroutine of \<open>sendHeartbeats\<close> does with the reply to the request \<open>args\<close>.\<close>

definition handleAppendReply ::
  "int \<Rightarrow> nat \<Rightarrow> 'c AppendEntriesArgs \<Rightarrow> AppendEntriesReply \<Rightarrow> ('c, 's) raft \<Rightarrow> ('c, 's) raft option" where
  "handleAppendReply term peer args reply rf =
     (if role rf \<noteq> Leader \<or> currentTerm rf \<noteq> term then Some rf
      else
        let rf = (if aerTerm reply > currentTerm rf then step_down (aerTerm reply) rf else rf) in
        if Success reply then
          do {
            let newMatch = PrevLogIndex args + int (length (Entries args));
            m \<leftarrow> go_nth (matchIndex rf) (int peer);
            mi \<leftarrow> go_set (matchIndex rf) (int peer) (if newMatch > m then newMatch else m);
            m' \<leftarrow> go_nth mi (int peer);
            ni \<leftarrow> go_set (nextIndex rf) (int peer) (m' + 1);
            maybeAdvanceCommitIndex (rf\<lparr>matchIndex := mi, nextIndex := ni\<rparr>)
          }
        else
          do {
            next \<leftarrow> (if ConflictTerm reply = -1 then Some (ConflictIndex reply)
                     else do {
                       newIndex \<leftarrow> find_term rf (ConflictTerm reply) (lastLogIndex rf);
                       Some (if newIndex = -1 then ConflictIndex reply else newIndex)
                     });
            ni \<leftarrow> go_set (nextIndex rf) (int peer) (if next < 1 then 1 else next);
            Some (rf\<lparr>nextIndex := ni\<rparr>)
          })"

section \<open>Snapshots sent by the leader\<close>

definition InstallSnapshot ::
  "'s InstallSnapshotArgs \<Rightarrow> int \<Rightarrow> ('c, 's) raft \<Rightarrow> (('c, 's) raft \<times> InstallSnapshotReply) option" where
  "InstallSnapshot args now rf =
     (let reply = \<lparr>isrTerm = currentTerm rf\<rparr> in
      if isTerm args < currentTerm rf then Some (rf, reply)
      else
        let rf = (if isTerm args > currentTerm rf
                  then rf\<lparr>currentTerm := isTerm args, votedFor := -1\<rparr> else rf);
            rf = rf\<lparr>role := Follower, lastHeartbeat := now\<rparr> in
        if isLastIncludedIndex args \<le> lastIncludedIndex rf then Some (rf, reply)
        else do {
          l \<leftarrow> (if isLastIncludedIndex args \<le> lastLogIndex rf
               then go_from (rlog rf) (logIndex rf (isLastIncludedIndex args))
               else Some [\<lparr>leTerm = isLastIncludedTerm args, leCommand = None\<rparr>]);
          let rf = rf\<lparr>rlog := l, lastIncludedIndex := isLastIncludedIndex args,
                      lastIncludedTerm := isLastIncludedTerm args\<rparr>;
          let rf = (if commitIndex rf < isLastIncludedIndex args
                    then rf\<lparr>commitIndex := isLastIncludedIndex args\<rparr> else rf);
          let rf = (if lastApplied rf < isLastIncludedIndex args
                    then rf\<lparr>lastApplied := isLastIncludedIndex args\<rparr> else rf);
          let rf = persistWithSnapshot (isData args) rf;
          Some (rf\<lparr>pendingSnapshot := Some
                  \<lparr>CommandValid = False, amCommand = None, CommandIndex = 0, SnapshotValid = True,
                   amSnapshot = isData args, SnapshotTerm = isLastIncludedTerm args,
                   SnapshotIndex = isLastIncludedIndex args\<rparr>\<rparr>, reply)
        })"

text \<open>What \<open>sendSnapshot\<close> does with the reply to its request \<open>args\<close>.\<close>

definition handleSnapshotReply ::
  "nat \<Rightarrow> 's InstallSnapshotArgs \<Rightarrow> InstallSnapshotReply \<Rightarrow> ('c, 's) raft \<Rightarrow> ('c, 's) raft option" where
  "handleSnapshotReply peer args reply rf =
     (if role rf \<noteq> Leader \<or> currentTerm rf \<noteq> isTerm args then Some rf
      else if isrTerm reply > currentTerm rf then Some (step_down (isrTerm reply) rf)
      else do {
        m \<leftarrow> go_nth (matchIndex rf) (int peer);
        mi \<leftarrow> go_set (matchIndex rf) (int peer)
          (if isLastIncludedIndex args > m then isLastIncludedIndex args else m);
        m' \<leftarrow> go_nth mi (int peer);
        ni \<leftarrow> go_set (nextIndex rf) (int peer) (m' + 1);
        Some (rf\<lparr>matchIndex := mi, nextIndex := ni\<rparr>)
      })"

section \<open>The apply loop\<close>

text \<open>
  One message of \<open>applyLoop\<close>. The lock is released while the message is sent, so other
  operations run between two steps; \<open>inner\<close> says whether the goroutine is inside the loop over
  the committed entries, which does not look at \<open>pendingSnapshot\<close> again, or at the top of the
  outer loop. The result is the new position, the new state and the message, if any.
\<close>

definition applyStep ::
  "bool \<Rightarrow> ('c, 's) raft \<Rightarrow> (bool \<times> ('c, 's) raft \<times> ('c, 's) ApplyMsg option) option" where
  "applyStep inner rf =
     (if \<not> inner \<and> pendingSnapshot rf \<noteq> None
      then Some (False, rf\<lparr>pendingSnapshot := None\<rparr>, pendingSnapshot rf)
      else if lastApplied rf < commitIndex rf then
        (let rf = rf\<lparr>lastApplied := lastApplied rf + 1\<rparr> in
         if lastApplied rf \<le> lastIncludedIndex rf
         then Some (True, rf\<lparr>lastApplied := lastIncludedIndex rf\<rparr>, None)
         else do {
           e \<leftarrow> go_nth (rlog rf) (logIndex rf (lastApplied rf));
           Some (True, rf, Some \<lparr>CommandValid = True, amCommand = leCommand e,
                                  CommandIndex = lastApplied rf, SnapshotValid = False,
                                  amSnapshot = None, SnapshotTerm = 0, SnapshotIndex = 0\<rparr>)
         })
      else Some (False, rf, None))"

lemmas raft_defs [raft_ops] =
  persist_def persistWithSnapshot_def step_down_def Save_def becomeLeader_def

end
