(* ===== verification/Raft_Log.thy ===== *)
theory Raft_Log
  imports Raft_Node
begin

text \<open>
  What the log operations of one Raft peer do. \<open>merge_entries\<close> is the reference for the loop
  of \<open>AppendEntries\<close>; the well-formedness \<open>raft_wf\<close> says that the indices of a peer point into
  its log, and every operation keeps it and does not panic.
\<close>

section \<open>The log as a sequence of absolute indices\<close>

lemma logTerm_nth:
  assumes "lastIncludedIndex rf < i" and "i \<le> lastLogIndex rf"
  shows "logTerm rf i = Some (leTerm (rlog rf ! nat (i - lastIncludedIndex rf)))"
  using assms by (auto simp: logTerm_def logIndex_def lastLogIndex_def go_nth_def)

lemma logTerm_Some:
  assumes "lastIncludedIndex rf \<le> i" and "i \<le> lastLogIndex rf"
  obtains t where "logTerm rf i = Some t"
proof (cases "i = lastIncludedIndex rf")
  case True
  then show thesis using that by (simp add: logTerm_def)
next
  case False
  then show thesis using that assms logTerm_nth [of rf i] by simp
qed

lemma logTerm_cong:
  assumes "rlog rf' = rlog rf" and "lastIncludedIndex rf' = lastIncludedIndex rf"
    and "lastIncludedTerm rf' = lastIncludedTerm rf"
  shows "logTerm rf' i = logTerm rf i"
  using assms by (simp add: logTerm_def logIndex_def)

lemma lastLogIndex_cong [frame]:
  "rlog rf' = rlog rf \<Longrightarrow> lastIncludedIndex rf' = lastIncludedIndex rf \<Longrightarrow>
   lastLogIndex rf' = lastLogIndex rf"
  by (simp add: lastLogIndex_def)

text \<open>The operations that write the stable storage change nothing else of the peer.\<close>

lemma persist_frame [simp]:
  "npeers (persist rf) = npeers rf" "me (persist rf) = me rf" "dead (persist rf) = dead rf"
  "currentTerm (persist rf) = currentTerm rf" "votedFor (persist rf) = votedFor rf"
  "rlog (persist rf) = rlog rf" "lastIncludedIndex (persist rf) = lastIncludedIndex rf"
  "lastIncludedTerm (persist rf) = lastIncludedTerm rf" "commitIndex (persist rf) = commitIndex rf"
  "lastApplied (persist rf) = lastApplied rf" "nextIndex (persist rf) = nextIndex rf"
  "matchIndex (persist rf) = matchIndex rf" "role (persist rf) = role rf"
  "lastHeartbeat (persist rf) = lastHeartbeat rf" "pendingSnapshot (persist rf) = pendingSnapshot rf"
  by (simp_all add: persist_def persistWithSnapshot_def)

lemma persistWithSnapshot_frame [simp]:
  "npeers (persistWithSnapshot s rf) = npeers rf" "me (persistWithSnapshot s rf) = me rf"
  "currentTerm (persistWithSnapshot s rf) = currentTerm rf"
  "votedFor (persistWithSnapshot s rf) = votedFor rf" "rlog (persistWithSnapshot s rf) = rlog rf"
  "lastIncludedIndex (persistWithSnapshot s rf) = lastIncludedIndex rf"
  "lastIncludedTerm (persistWithSnapshot s rf) = lastIncludedTerm rf"
  "commitIndex (persistWithSnapshot s rf) = commitIndex rf"
  "lastApplied (persistWithSnapshot s rf) = lastApplied rf"
  "nextIndex (persistWithSnapshot s rf) = nextIndex rf"
  "matchIndex (persistWithSnapshot s rf) = matchIndex rf" "role (persistWithSnapshot s rf) = role rf"
  "pendingSnapshot (persistWithSnapshot s rf) = pendingSnapshot rf"
  by (simp_all add: persistWithSnapshot_def)

lemma step_down_frame [simp]:
  "npeers (step_down t rf) = npeers rf" "me (step_down t rf) = me rf"
  "currentTerm (step_down t rf) = t" "votedFor (step_down t rf) = -1"
  "rlog (step_down t rf) = rlog rf" "lastIncludedIndex (step_down t rf) = lastIncludedIndex rf"
  "lastIncludedTerm (step_down t rf) = lastIncludedTerm rf"
  "commitIndex (step_down t rf) = commitIndex rf" "lastApplied (step_down t rf) = lastApplied rf"
  "nextIndex (step_down t rf) = nextIndex rf" "matchIndex (step_down t rf) = matchIndex rf"
  "role (step_down t rf) = Follower" "pendingSnapshot (step_down t rf) = pendingSnapshot rf"
  by (simp_all add: step_down_def)

section \<open>Appending entries\<close>

fun merge_entries :: "'c LogEntry list \<Rightarrow> 'c LogEntry list \<Rightarrow> 'c LogEntry list" where
  "merge_entries own [] = own"
| "merge_entries [] es = es"
| "merge_entries (own # owns) (e # es) =
     (if leTerm own \<noteq> leTerm e then e # es else own # merge_entries owns es)"

lemma append_loop_merge:
  assumes "lastIncludedIndex rf < idx" and "idx \<le> lastLogIndex rf + 1"
  shows "append_loop idx es rf =
    Some (rf\<lparr>rlog := take (nat (logIndex rf idx)) (rlog rf)
                    @ merge_entries (drop (nat (logIndex rf idx)) (rlog rf)) es\<rparr>)"
  using assms
proof (induction es arbitrary: idx)
  case (Cons e es)
  let ?k = "nat (logIndex rf idx)"
  have k: "0 < logIndex rf idx" "logIndex rf idx \<le> int (length (rlog rf))"
    using Cons.prems by (simp_all add: logIndex_def lastLogIndex_def)
  show ?case
  proof (cases "idx < lastLogIndex rf + 1")
    case False
    then have "?k = length (rlog rf)" using Cons.prems by (simp add: logIndex_def lastLogIndex_def)
    with False show ?thesis by simp
  next
    case True
    then have kl: "?k < length (rlog rf)" using Cons.prems by (simp add: logIndex_def lastLogIndex_def)
    have t: "logTerm rf idx = Some (leTerm (rlog rf ! ?k))"
      using True Cons.prems by (simp add: logTerm_nth logIndex_def)
    have d: "drop ?k (rlog rf) = rlog rf ! ?k # drop (Suc ?k) (rlog rf)"
      using kl by (simp add: Cons_nth_drop_Suc)
    have tk: "take (Suc ?k) (rlog rf) = take ?k (rlog rf) @ [rlog rf ! ?k]"
      using kl by (simp add: take_Suc_conv_app_nth)
    have "nat (logIndex rf (idx + 1)) = Suc ?k" using k by (simp add: logIndex_def)
    with Cons.IH [of "idx + 1"] True Cons.prems t d tk k show ?thesis by simp
  qed
qed simp

lemma merge_entries_length: "length es \<le> length (merge_entries own es)"
  by (induction own es rule: merge_entries.induct) auto

lemma merge_entries_terms:
  "i < length es \<Longrightarrow> leTerm (merge_entries own es ! i) = leTerm (es ! i)"
  by (induction own es arbitrary: i rule: merge_entries.induct) (auto simp: nth_Cons split: nat.splits)

lemma merge_entries_same:
  assumes "\<And>i. i < length own \<Longrightarrow> i < length es \<Longrightarrow> leTerm (own ! i) = leTerm (es ! i) \<Longrightarrow> own ! i = es ! i"
  shows "take (length es) (merge_entries own es) = es"
  using assms
proof (induction own es rule: merge_entries.induct)
  case (3 own owns e es)
  show ?case
  proof (cases "leTerm own = leTerm e")
    case True
    have "take (length es) (merge_entries owns es) = es"
      using "3.IH" [OF _] True "3.prems" [of "Suc _"] by fastforce
    moreover have "own = e" using "3.prems" [of 0] True by simp
    ultimately show ?thesis using True by simp
  qed simp
qed simp_all

lemma merge_entries_idem: "merge_entries (merge_entries own es) es = merge_entries own es"
proof (induction own es rule: merge_entries.induct)
  case (2 e es)
  have "merge_entries xs xs = xs" for xs :: "'a LogEntry list" by (induction xs) auto
  then show ?case by simp
next
  case (3 own owns e es)
  have "merge_entries xs xs = xs" for xs :: "'a LogEntry list" by (induction xs) auto
  with 3 show ?case by auto
qed simp

text \<open>A prefix of the own log that agrees with the entries is never cut.\<close>

lemma merge_entries_keeps:
  assumes "\<And>i. i < k \<Longrightarrow> i < length es \<Longrightarrow> leTerm (own ! i) = leTerm (es ! i)" and "k \<le> length own"
  shows "k \<le> length (merge_entries own es) \<and> take k (merge_entries own es) = take k own"
  using assms
proof (induction own es arbitrary: k rule: merge_entries.induct)
  case (3 own owns e es)
  show ?case
  proof (cases k)
    case (Suc j)
    have "leTerm own = leTerm e" using "3.prems"(1) [of 0] Suc by simp
    moreover have "j \<le> length (merge_entries owns es) \<and> take j (merge_entries owns es) = take j owns"
      using "3.prems"(1) [of "Suc _"] "3.prems"(2) Suc calculation by (intro "3.IH") auto
    ultimately show ?thesis using Suc by simp
  qed simp
qed simp_all

section \<open>Well-formed peers\<close>

definition leader_ok :: "('c, 's) raft \<Rightarrow> bool" where
  "leader_ok rf \<longleftrightarrow>
     length (nextIndex rf) = npeers rf \<and> length (matchIndex rf) = npeers rf
     \<and> (\<forall>i < npeers rf. 1 \<le> nextIndex rf ! i \<and> nextIndex rf ! i \<le> lastLogIndex rf + 1
          \<and> 0 \<le> matchIndex rf ! i \<and> matchIndex rf ! i \<le> lastLogIndex rf)"

definition raft_wf :: "('c, 's) raft \<Rightarrow> bool" where
  "raft_wf rf \<longleftrightarrow>
     rlog rf \<noteq> [] \<and> 0 \<le> lastIncludedIndex rf \<and> lastIncludedIndex rf \<le> lastApplied rf
     \<and> lastApplied rf \<le> commitIndex rf \<and> commitIndex rf \<le> lastLogIndex rf \<and> me rf < npeers rf
     \<and> (role rf = Leader \<longrightarrow> leader_ok rf)"

lemma raft_wfD:
  assumes "raft_wf rf"
  shows "rlog rf \<noteq> []" "0 \<le> lastIncludedIndex rf" "lastIncludedIndex rf \<le> lastApplied rf"
    "lastApplied rf \<le> commitIndex rf" "commitIndex rf \<le> lastLogIndex rf" "me rf < npeers rf"
    "lastIncludedIndex rf \<le> lastLogIndex rf" "role rf = Leader \<Longrightarrow> leader_ok rf"
  using assms by (simp_all add: raft_wf_def)

text \<open>
  The request does not contradict what the peer holds as committed. A peer cannot check this;
  that a leader's requests satisfy it is a property of the whole cluster.
\<close>

definition agrees_committed :: "'c AppendEntriesArgs \<Rightarrow> ('c, 's) raft \<Rightarrow> bool" where
  "agrees_committed args rf \<longleftrightarrow>
     (\<forall>i < length (Entries args).
        let idx = PrevLogIndex args + 1 + int i
        in lastIncludedIndex rf < idx \<and> idx \<le> commitIndex rf
           \<longrightarrow> leTerm (rlog rf ! nat (logIndex rf idx)) = leTerm (Entries args ! i))"

text \<open>The request carries the entries up to the commit index that it announces.\<close>

definition covers_commit :: "'c AppendEntriesArgs \<Rightarrow> bool" where
  "covers_commit args \<longleftrightarrow> LeaderCommit args \<le> PrevLogIndex args + int (length (Entries args))"

text \<open>The test that \<open>AppendEntries\<close> makes of a request, the log and the commit index it leaves.\<close>

definition ae_accept :: "'c AppendEntriesArgs \<Rightarrow> ('c, 's) raft \<Rightarrow> bool" where
  "ae_accept args rf \<longleftrightarrow>
     currentTerm rf \<le> aeTerm args \<and> lastIncludedIndex rf \<le> PrevLogIndex args
     \<and> PrevLogIndex args \<le> lastLogIndex rf \<and> logTerm rf (PrevLogIndex args) = Some (PrevLogTerm args)"

definition ae_log :: "'c AppendEntriesArgs \<Rightarrow> ('c, 's) raft \<Rightarrow> 'c LogEntry list" where
  "ae_log args rf =
     (let k = nat (logIndex rf (PrevLogIndex args + 1))
      in take k (rlog rf) @ merge_entries (drop k (rlog rf)) (Entries args))"

definition ae_commit :: "'c AppendEntriesArgs \<Rightarrow> ('c, 's) raft \<Rightarrow> int" where
  "ae_commit args rf =
     (if LeaderCommit args > commitIndex rf
      then min (LeaderCommit args) (PrevLogIndex args + int (length (Entries args)))
      else commitIndex rf)"

lemma AppendEntries_accept:
  assumes "ae_accept args rf"
  shows "\<exists>rf' reply. AppendEntries args now rf = Some (rf', reply) \<and> Success reply
    \<and> rlog rf' = ae_log args rf \<and> commitIndex rf' = ae_commit args rf
    \<and> currentTerm rf' = aeTerm args \<and> votedFor rf' = votedFor rf \<and> role rf' = Follower
    \<and> lastIncludedIndex rf' = lastIncludedIndex rf \<and> lastIncludedTerm rf' = lastIncludedTerm rf
    \<and> lastApplied rf' = lastApplied rf \<and> npeers rf' = npeers rf \<and> me rf' = me rf
    \<and> raftstate (persister rf') = encode_state rf' \<and> aerTerm reply = aeTerm args"
proof -
  let ?r = "persist (rf\<lparr>lastHeartbeat := now, role := Follower, currentTerm := aeTerm args\<rparr>)"
  have ll: "lastLogIndex ?r = lastLogIndex rf" by (simp add: lastLogIndex_def)
  have t: "logTerm ?r (PrevLogIndex args) = Some (PrevLogTerm args)"
    using assms logTerm_cong [of ?r rf] by (simp add: ae_accept_def)
  have m: "append_loop (PrevLogIndex args + 1) (Entries args) ?r = Some (?r\<lparr>rlog := ae_log args rf\<rparr>)"
    using assms by (subst append_loop_merge)
      (simp_all add: ll ae_accept_def ae_log_def logIndex_def Let_def)
  show ?thesis
    using assms ll t m
    by (simp add: AppendEntries_def Let_def ae_accept_def ae_commit_def min_def)
      (auto simp: persist_def persistWithSnapshot_def Save_def encode_state_def)
qed

lemma ae_prefix:
  assumes "ae_accept args rf"
  shows "int (nat (logIndex rf (PrevLogIndex args + 1))) = PrevLogIndex args + 1 - lastIncludedIndex rf"
    and "nat (logIndex rf (PrevLogIndex args + 1)) \<le> length (rlog rf)"
  using assms by (auto simp: ae_accept_def logIndex_def lastLogIndex_def)

lemma ae_log_length:
  assumes "ae_accept args rf" and "rlog rf \<noteq> []"
  shows "PrevLogIndex args + int (length (Entries args))
    \<le> lastIncludedIndex rf + int (length (ae_log args rf)) - 1"
proof -
  let ?k = "nat (logIndex rf (PrevLogIndex args + 1))"
  have "int ?k = PrevLogIndex args + 1 - lastIncludedIndex rf" "?k \<le> length (rlog rf)"
    using ae_prefix [OF assms(1)] by simp_all
  then show ?thesis
    using merge_entries_length [of "Entries args" "drop ?k (rlog rf)"]
    by (simp add: ae_log_def Let_def)
qed

lemma ae_log_committed:
  assumes "ae_accept args rf" and "raft_wf rf" and "agrees_committed args rf"
  shows "commitIndex rf \<le> lastIncludedIndex rf + int (length (ae_log args rf)) - 1"
proof -
  let ?k = "nat (logIndex rf (PrevLogIndex args + 1))"
  let ?own = "drop ?k (rlog rf)" and ?c = "nat (commitIndex rf - PrevLogIndex args)"
  have k: "int ?k = PrevLogIndex args + 1 - lastIncludedIndex rf" "?k \<le> length (rlog rf)"
    using ae_prefix [OF assms(1)] by simp_all
  have c: "?c \<le> length ?own"
    using k raft_wfD(5) [OF assms(2)] unfolding lastLogIndex_def length_drop by linarith
  have "leTerm (?own ! i) = leTerm (Entries args ! i)" if "i < ?c" "i < length (Entries args)" for i
  proof -
    have "nat (logIndex rf (PrevLogIndex args + 1 + int i)) = ?k + i"
      using k(1) unfolding logIndex_def by linarith
    moreover have "lastIncludedIndex rf < PrevLogIndex args + 1 + int i"
      "PrevLogIndex args + 1 + int i \<le> commitIndex rf"
      using assms(1) that(1) by (auto simp: ae_accept_def)
    then have "leTerm (rlog rf ! nat (logIndex rf (PrevLogIndex args + 1 + int i)))
        = leTerm (Entries args ! i)"
      using assms(3) that(2) unfolding agrees_committed_def Let_def by blast
    ultimately show ?thesis using k(2) by simp
  qed
  from merge_entries_keeps [OF this c] have "?c \<le> length (merge_entries ?own (Entries args))" by simp
  then show ?thesis
    using k by (simp add: ae_log_def Let_def)
qed

lemma walk_back_first:
  assumes "lastIncludedIndex rf \<le> ci" and "ci \<le> lastLogIndex rf" and "logTerm rf ci = Some ct"
  shows "\<exists>r. walk_back rf ct ci = Some r \<and> lastIncludedIndex rf \<le> r \<and> r \<le> ci
    \<and> (\<forall>j. r \<le> j \<longrightarrow> j \<le> ci \<longrightarrow> logTerm rf j = Some ct)
    \<and> (r \<le> lastIncludedIndex rf + 1 \<or> logTerm rf (r - 1) \<noteq> Some ct)"
  using assms
proof (induction rf ct ci rule: walk_back.induct)
  case (1 rf ct ci)
  show ?case
  proof (cases "lastIncludedIndex rf + 1 < ci")
    case False
    then have "walk_back rf ct ci = Some ci" by (subst walk_back.simps) simp
    with False "1.prems" show ?thesis by (intro exI [of _ ci]) (auto dest: order_antisym)
  next
    case True
    then obtain t where t: "logTerm rf (ci - 1) = Some t"
      using "1.prems" by (elim logTerm_Some [of rf "ci - 1", rotated 2]) auto
    show ?thesis
    proof (cases "t = ct")
      case True': True
      then obtain r where r: "walk_back rf ct (ci - 1) = Some r" "lastIncludedIndex rf \<le> r"
        "r \<le> ci - 1" "\<forall>j. r \<le> j \<longrightarrow> j \<le> ci - 1 \<longrightarrow> logTerm rf j = Some ct"
        "r \<le> lastIncludedIndex rf + 1 \<or> logTerm rf (r - 1) \<noteq> Some ct"
        using "1.IH" [OF True t] t True "1.prems" by auto
      have "walk_back rf ct ci = Some r" using True True' t r(1) by (subst walk_back.simps) simp
      moreover have "logTerm rf j = Some ct" if "r \<le> j" "j \<le> ci" for j
        using r(4) that "1.prems"(3) by (cases "j = ci") auto
      ultimately show ?thesis using r by auto
    next
      case False
      then have "walk_back rf ct ci = Some ci" using True t by (subst walk_back.simps) simp
      with False t "1.prems" show ?thesis by (intro exI [of _ ci]) (auto dest: order_antisym)
    qed
  qed
qed

text \<open>A rejected request changes neither the log nor what is committed.\<close>

lemma AppendEntries_reject:
  assumes "raft_wf rf" and "\<not> ae_accept args rf"
  shows "\<exists>rf' reply. AppendEntries args now rf = Some (rf', reply) \<and> \<not> Success reply
    \<and> rlog rf' = rlog rf \<and> commitIndex rf' = commitIndex rf \<and> votedFor rf' = votedFor rf
    \<and> currentTerm rf' = max (currentTerm rf) (aeTerm args)
    \<and> (role rf' = Follower \<or> role rf' = role rf \<and> nextIndex rf' = nextIndex rf \<and> matchIndex rf' = matchIndex rf)
    \<and> lastIncludedIndex rf' = lastIncludedIndex rf \<and> lastIncludedTerm rf' = lastIncludedTerm rf
    \<and> lastApplied rf' = lastApplied rf \<and> npeers rf' = npeers rf \<and> me rf' = me rf"
proof (cases "aeTerm args < currentTerm rf")
  case True
  then show ?thesis by (simp add: AppendEntries_def Let_def)
next
  case newer: False
  let ?r = "persist (rf\<lparr>lastHeartbeat := now, role := Follower, currentTerm := aeTerm args\<rparr>)"
  have ll: "lastLogIndex ?r = lastLogIndex rf" by (simp add: lastLogIndex_def)
  show ?thesis
  proof (cases "PrevLogIndex args < lastIncludedIndex rf \<or> PrevLogIndex args > lastLogIndex rf")
    case True
    then show ?thesis using newer ll by (auto simp: AppendEntries_def Let_def)
  next
    case False
    then obtain t where t: "logTerm ?r (PrevLogIndex args) = Some t"
      by (elim logTerm_Some [of ?r "PrevLogIndex args", rotated 2]) (simp_all add: ll)
    moreover have "t \<noteq> PrevLogTerm args"
      using t assms(2) newer False logTerm_cong [of ?r rf "PrevLogIndex args"]
      by (simp add: ae_accept_def)
    moreover obtain ci where "walk_back ?r t (PrevLogIndex args) = Some ci"
      using walk_back_first [of ?r "PrevLogIndex args" t] t False ll by auto
    ultimately show ?thesis using newer ll False by (auto simp: AppendEntries_def Let_def)
  qed
qed

lemma raft_wf_follower:
  assumes "raft_wf rf" and "rlog rf' = rlog rf" and "lastIncludedIndex rf' = lastIncludedIndex rf"
    and "commitIndex rf' = commitIndex rf" and "lastApplied rf' = lastApplied rf"
    and "npeers rf' = npeers rf" and "me rf' = me rf"
    and "role rf' \<noteq> Leader \<or> role rf' = role rf \<and> nextIndex rf' = nextIndex rf \<and> matchIndex rf' = matchIndex rf"
  shows "raft_wf rf'"
  using assms by (auto simp: raft_wf_def leader_ok_def lastLogIndex_def)

lemma AppendEntries_step:
  assumes "raft_wf rf"
  shows "\<exists>rf' reply. AppendEntries args now rf = Some (rf', reply)
    \<and> (Success reply \<longleftrightarrow> ae_accept args rf)
    \<and> rlog rf' = (if Success reply then ae_log args rf else rlog rf)
    \<and> (Success reply \<longrightarrow> raftstate (persister rf') = encode_state rf')
    \<and> currentTerm rf' = max (currentTerm rf) (aeTerm args)
    \<and> (agrees_committed args rf \<and> covers_commit args \<longrightarrow> raft_wf rf' \<and> commitIndex rf \<le> commitIndex rf')"
proof (cases "ae_accept args rf")
  case True
  obtain rf' reply where r: "AppendEntries args now rf = Some (rf', reply)" "Success reply"
    "rlog rf' = ae_log args rf" "commitIndex rf' = ae_commit args rf" "currentTerm rf' = aeTerm args"
    "role rf' = Follower" "lastIncludedIndex rf' = lastIncludedIndex rf"
    "lastApplied rf' = lastApplied rf" "npeers rf' = npeers rf" "me rf' = me rf"
    "raftstate (persister rf') = encode_state rf'"
    using AppendEntries_accept [OF True, of now] by blast
  have "raft_wf rf' \<and> commitIndex rf \<le> commitIndex rf'"
    if "agrees_committed args rf" and "covers_commit args"
  proof -
    note w = raft_wfD [OF assms]
    have len: "PrevLogIndex args + int (length (Entries args)) \<le> lastLogIndex rf'"
      "commitIndex rf \<le> lastLogIndex rf'"
      using ae_log_length [OF True w(1)] ae_log_committed [OF True assms that(1)] r
      by (simp_all add: lastLogIndex_def)
    then have c: "commitIndex rf \<le> commitIndex rf'" "commitIndex rf' \<le> lastLogIndex rf'"
      using r(4) that(2) by (auto simp: ae_commit_def covers_commit_def)
    moreover have "rlog rf' \<noteq> []"
      using w c r(7) by (cases "rlog rf' = []") (auto simp: lastLogIndex_def)
    ultimately show ?thesis using w r by (simp add: raft_wf_def)
  qed
  with r True show ?thesis by (auto simp: ae_accept_def)
next
  case False
  from AppendEntries_reject [OF assms this, of now] show ?thesis
    using False raft_wf_follower [OF assms] by fastforce
qed

section \<open>Two peers of a cluster of three, for concrete instances\<close>

definition demo_entry :: "int \<Rightarrow> nat \<Rightarrow> nat LogEntry" where
  "demo_entry t c = \<lparr>leTerm = t, leCommand = Some c\<rparr>"

definition demo_follower :: "(nat, nat) raft" where
  "demo_follower = (Make 3 1 MakePersister 0)
     \<lparr>currentTerm := 2,
      rlog := [\<lparr>leTerm = 0, leCommand = None\<rparr>, demo_entry 1 10, demo_entry 1 11, demo_entry 2 12],
      commitIndex := 2, lastApplied := 1\<rparr>"

definition demo_leader :: "(nat, nat) raft" where
  "demo_leader = (Make 3 0 MakePersister 0)
     \<lparr>currentTerm := 3, votedFor := 0, role := Leader,
      rlog := [\<lparr>leTerm = 0, leCommand = None\<rparr>, demo_entry 1 10, demo_entry 1 11, demo_entry 3 13,
               demo_entry 3 14],
      commitIndex := 2, lastApplied := 2, nextIndex := [5, 3, 5], matchIndex := [0, 2, 4]\<rparr>"

lemmas demo_defs =
  demo_follower_def demo_leader_def demo_entry_def Make_def MakePersister_def readPersist_def
  ReadRaftState_def Let_def

lemma demo_follower_wf: "raft_wf demo_follower"
  by code_simp

lemma demo_leader_wf: "raft_wf demo_leader"
  by code_simp

definition demo_append :: "nat AppendEntriesArgs" where
  "demo_append = \<lparr>aeTerm = 3, aeLeaderId = 0, PrevLogIndex = 2, PrevLogTerm = 1,
     Entries = [demo_entry 3 13, demo_entry 3 14], LeaderCommit = 2\<rparr>"

section \<open>The request of a leader\<close>


lemma demo_agrees: "agrees_committed demo_append demo_follower"
  by (simp add: demo_defs demo_append_def agrees_committed_def)

lemma demo_accept: "ae_accept demo_append demo_follower"
  by code_simp

lemma demo_covers: "covers_commit demo_append"
  by code_simp


end
