(* ===== verification/Raft_Ops.thy ===== *)
theory Raft_Ops
  imports Raft_Log
begin

text \<open>
  Votes, elections, the leader's commit rule, new commands and snapshots of one peer. Each
  operation is shown to return (no index is out of range), to keep the well-formedness of the
  peer, and to do what the protocol asks of it.
\<close>

section \<open>Votes\<close>

definition lastTerm :: "('c, 's) raft \<Rightarrow> int" where
  "lastTerm rf = (if length (rlog rf) = 1 then lastIncludedTerm rf else leTerm (last (rlog rf)))"

lemma logTerm_last: "rlog rf \<noteq> [] \<Longrightarrow> logTerm rf (lastLogIndex rf) = Some (lastTerm rf)"
  by (auto simp: logTerm_def lastLogIndex_def lastTerm_def logIndex_def go_nth_def last_conv_nth
      nat_diff_distrib Suc_le_eq)

text \<open>The candidate's log is at least as up to date as the voter's.\<close>

definition up_to_date :: "RequestVoteArgs \<Rightarrow> ('c, 's) raft \<Rightarrow> bool" where
  "up_to_date args rf \<longleftrightarrow>
     LastLogTerm args > lastTerm rf
     \<or> (LastLogTerm args = lastTerm rf \<and> LastLogIndex args \<ge> lastLogIndex rf)"

definition vote_rule :: "RequestVoteArgs \<Rightarrow> ('c, 's) raft \<Rightarrow> bool" where
  "vote_rule args rf \<longleftrightarrow>
     currentTerm rf \<le> rvTerm args
     \<and> (currentTerm rf < rvTerm args \<or> votedFor rf = -1 \<or> votedFor rf = int (CandidateId args))
     \<and> up_to_date args rf"

lemma RequestVote_cases:
  fixes args :: RequestVoteArgs and rf :: "('c, 's) raft"
  assumes "rlog rf \<noteq> []"
  defines "rf1 \<equiv> (if rvTerm args > currentTerm rf then step_down (rvTerm args) rf else rf)"
  shows "RequestVote args now rf = Some
    (if vote_rule args rf
     then ((persist (rf1\<lparr>votedFor := int (CandidateId args)\<rparr>))\<lparr>lastHeartbeat := now\<rparr>,
           \<lparr>rvrTerm = currentTerm rf, VoteGranted = True\<rparr>)
     else (rf1, \<lparr>rvrTerm = currentTerm rf, VoteGranted = False\<rparr>))"
proof -
  have "rlog rf1 \<noteq> []" "lastTerm rf1 = lastTerm rf" "lastLogIndex rf1 = lastLogIndex rf"
    using assms(1) by (simp_all add: rf1_def lastTerm_def lastLogIndex_def)
  then have "logTerm rf1 (lastLogIndex rf) = Some (lastTerm rf)" "lastLogIndex rf1 = lastLogIndex rf"
    using logTerm_last [of rf1] by simp_all
  moreover have "rvTerm args < currentTerm rf \<Longrightarrow> rf1 = rf" by (simp add: rf1_def)
  moreover have "votedFor rf1 = (if rvTerm args > currentTerm rf then -1 else votedFor rf)"
    by (simp add: rf1_def)
  ultimately show ?thesis
    unfolding RequestVote_def Let_def rf1_def [symmetric]
    by (auto simp: vote_rule_def up_to_date_def)
qed

lemma RequestVote_step:
  assumes "raft_wf rf"
  shows "\<exists>rf' reply. RequestVote args now rf = Some (rf', reply) \<and> raft_wf rf'
    \<and> (VoteGranted reply \<longleftrightarrow> vote_rule args rf)
    \<and> currentTerm rf' = max (currentTerm rf) (rvTerm args)
    \<and> (VoteGranted reply \<longrightarrow> votedFor rf' = int (CandidateId args) \<and> currentTerm rf' = rvTerm args
         \<and> raftstate (persister rf') = encode_state rf')
    \<and> (currentTerm rf' = currentTerm rf \<and> votedFor rf \<noteq> -1 \<longrightarrow> votedFor rf' = votedFor rf)"
proof -
  let ?rf1 = "if rvTerm args > currentTerm rf then step_down (rvTerm args) rf else rf"
  have wf1: "raft_wf ?rf1" by (rule raft_wf_follower [OF assms]) auto
  have wf2: "raft_wf ((persist (?rf1\<lparr>votedFor := v\<rparr>))\<lparr>lastHeartbeat := now\<rparr>)" for v
    by (rule raft_wf_follower [OF wf1]) auto
  show ?thesis
    using RequestVote_cases [OF raft_wfD(1) [OF assms], of args now] wf1 wf2
    by (auto simp: vote_rule_def encode_state_def persist_def persistWithSnapshot_def Save_def
        step_down_def)
qed

text \<open>
  C8. \<open>RequestVote\<close> on a well-formed peer never panics and keeps it well-formed; it grants the
  vote exactly when the rule of the protocol allows it; a granted vote is on stable storage
  before the reply, and within a term a vote that was given is never changed.
\<close>

theorem RequestVote_correct:
  assumes "raft_wf rf"
  shows "\<exists>rf' reply. RequestVote args now rf = Some (rf', reply) \<and> raft_wf rf'
    \<and> (VoteGranted reply \<longleftrightarrow> vote_rule args rf)
    \<and> currentTerm rf' = max (currentTerm rf) (rvTerm args)
    \<and> (VoteGranted reply \<longrightarrow> votedFor rf' = int (CandidateId args) \<and> currentTerm rf' = rvTerm args
         \<and> raftstate (persister rf') = encode_state rf')
    \<and> (currentTerm rf' = currentTerm rf \<and> votedFor rf \<noteq> -1 \<longrightarrow> votedFor rf' = votedFor rf)"
  using assms by (rule RequestVote_step)

theorem RequestVote_correct_witness:
  "raft_wf demo_follower \<and> (\<exists>rf' reply.
     RequestVote \<lparr>rvTerm = 3, CandidateId = 0, LastLogIndex = 3, LastLogTerm = 2\<rparr> 9 demo_follower
       = Some (rf', reply) \<and> VoteGranted reply \<and> votedFor rf' = 0)"
proof -
  let ?a = "\<lparr>rvTerm = 3, CandidateId = 0, LastLogIndex = 3, LastLogTerm = 2\<rparr>"
  have "vote_rule ?a demo_follower" by code_simp
  with RequestVote_correct [OF demo_follower_wf, of ?a 9] demo_follower_wf show ?thesis by auto
qed

lemma startElection_correct:
  assumes "raft_wf rf"
  shows "\<exists>rf' reqs. startElection rf = Some (rf', reqs) \<and> raft_wf rf'
    \<and> currentTerm rf' = currentTerm rf + 1 \<and> votedFor rf' = int (me rf) \<and> role rf' = Candidate
    \<and> me rf' = me rf \<and> npeers rf' = npeers rf \<and> raftstate (persister rf') = encode_state rf'
    \<and> (\<forall>(p, a) \<in> set reqs. p < npeers rf \<and> p \<noteq> me rf \<and> rvTerm a = currentTerm rf'
         \<and> CandidateId a = me rf \<and> LastLogIndex a = lastLogIndex rf \<and> LastLogTerm a = lastTerm rf)
    \<and> map fst reqs = filter (\<lambda>i. i \<noteq> me rf) [0..<npeers rf]"
proof -
  let ?r = "persist (rf\<lparr>role := Candidate, currentTerm := currentTerm rf + 1, votedFor := int (me rf)\<rparr>)"
  have "raft_wf ?r" by (rule raft_wf_follower [OF assms]) auto
  moreover have "logTerm ?r (lastLogIndex ?r) = Some (lastTerm rf)" "lastLogIndex ?r = lastLogIndex rf"
    using logTerm_last [of ?r] raft_wfD(1) [OF assms] by (simp_all add: lastTerm_def lastLogIndex_def)
  moreover have "raftstate (persister ?r) = encode_state ?r"
    by (simp add: persist_def persistWithSnapshot_def Save_def encode_state_def)
  ultimately show ?thesis
    by (auto simp: startElection_def Let_def comp_def)
qed

lemma becomeLeader_wf: "raft_wf rf \<Longrightarrow> raft_wf (becomeLeader rf)"
  by (auto simp: raft_wf_def becomeLeader_def leader_ok_def lastLogIndex_def)

lemma handleVoteReply_wf: "raft_wf rf \<Longrightarrow> raft_wf (fst (handleVoteReply t v reply rf))"
  by (auto simp: handleVoteReply_def Let_def becomeLeader_wf
      intro!: raft_wf_follower [of rf "step_down _ rf"])

section \<open>The commit rule of the leader\<close>

definition replicas :: "('c, 's) raft \<Rightarrow> int \<Rightarrow> nat set" where
  "replicas rf n = {i. i < npeers rf \<and> (i = me rf \<or> n \<le> matchIndex rf ! i)}"

text \<open>An index the leader may commit: of its own term and on a majority of the peers.\<close>

definition committable :: "('c, 's) raft \<Rightarrow> int \<Rightarrow> bool" where
  "committable rf n \<longleftrightarrow>
     logTerm rf n = Some (currentTerm rf) \<and> peer_quorum (npeers rf) (replicas rf n)"

lemma count_matches_filter:
  assumes "\<forall>i \<in> set is. i < length (matchIndex rf)"
  shows "count_matches rf n is count
    = Some (count + int (length (filter (\<lambda>i. i \<noteq> me rf \<and> n \<le> matchIndex rf ! i) is)))"
  using assms by (induction "is" arbitrary: count) auto

lemma count_matches_replicas:
  assumes "length (matchIndex rf) = npeers rf" and "me rf < npeers rf"
  shows "count_matches rf n [0..<npeers rf] 1 = Some (int (card (replicas rf n)))"
proof -
  let ?P = "\<lambda>i. i \<noteq> me rf \<and> n \<le> matchIndex rf ! i"
  have "length (filter ?P [0..<npeers rf]) = card (set (filter ?P [0..<npeers rf]))"
    by (rule distinct_card [symmetric]) simp
  moreover have "replicas rf n = insert (me rf) (set (filter ?P [0..<npeers rf]))"
    using assms(2) by (auto simp: replicas_def)
  ultimately show ?thesis
    using count_matches_filter [of "[0..<npeers rf]" rf n 1] assms(1) by simp
qed

text \<open>\<open>c\<close> is the greatest committable index of \<open>n..\<close>, or \<open>d\<close> when there is none.\<close>

definition greatest_commit :: "('c, 's) raft \<Rightarrow> int \<Rightarrow> int \<Rightarrow> int \<Rightarrow> bool" where
  "greatest_commit rf n d c \<longleftrightarrow>
     (if \<exists>k. n \<le> k \<and> k \<le> lastLogIndex rf \<and> committable rf k
      then n \<le> c \<and> c \<le> lastLogIndex rf \<and> committable rf c
        \<and> \<not> (\<exists>k. c < k \<and> k \<le> lastLogIndex rf \<and> committable rf k)
      else c = d)"

lemma committable_commit_upd [simp]: "committable (rf\<lparr>commitIndex := c\<rparr>) n = committable rf n"
  by (simp add: committable_def replicas_def logTerm_def logIndex_def)

lemma lastLogIndex_commit_upd [simp]: "lastLogIndex (rf\<lparr>commitIndex := c\<rparr>) = lastLogIndex rf"
  by (simp add: lastLogIndex_def)

lemma greatest_commit_commit_upd [simp]:
  "greatest_commit (rf\<lparr>commitIndex := x\<rparr>) n d c = greatest_commit rf n d c"
  by (simp only: greatest_commit_def committable_commit_upd lastLogIndex_commit_upd)

lemma greatest_commit_Suc:
  assumes "n \<le> lastLogIndex rf" and "greatest_commit rf (n + 1) (if committable rf n then n else d) c"
  shows "greatest_commit rf n d c"
proof (cases "\<exists>k. n + 1 \<le> k \<and> k \<le> lastLogIndex rf \<and> committable rf k")
  case True
  then have "\<exists>k. n \<le> k \<and> k \<le> lastLogIndex rf \<and> committable rf k"
    by (metis add_le_same_cancel1 not_one_le_zero nle_le order_trans zle_add1_eq_le zless_add1_eq)
  with True assms show ?thesis by (simp add: greatest_commit_def)
next
  case False
  have "(\<exists>k. n \<le> k \<and> k \<le> lastLogIndex rf \<and> committable rf k) \<longleftrightarrow> committable rf n"
    using False assms(1) by (metis order_le_less zless_imp_add1_zle order_refl)
  with False assms show ?thesis
    by (auto simp: greatest_commit_def zless_imp_add1_zle)
qed

lemma advance_loop_greatest:
  assumes "length (matchIndex rf) = npeers rf" and "me rf < npeers rf"
    and "lastIncludedIndex rf \<le> n"
  shows "\<exists>c. advance_loop n rf = Some (rf\<lparr>commitIndex := c\<rparr>)
    \<and> greatest_commit rf n (commitIndex rf) c"
  using assms
proof (induction "nat (lastLogIndex rf + 1 - n)" arbitrary: n rf rule: less_induct)
  case less
  show ?case
  proof (cases "n \<le> lastLogIndex rf")
    case False
    then have "advance_loop n rf = Some rf" by (subst advance_loop.simps) simp
    with False show ?thesis
      by (intro exI [of _ "commitIndex rf"]) (auto simp: greatest_commit_def)
  next
    case True
    then obtain t where t: "logTerm rf n = Some t" using less.prems by (blast elim: logTerm_Some)
    let ?d = "if committable rf n then n else commitIndex rf"
    have "replicas rf n \<subseteq> {..<npeers rf}" by (auto simp: replicas_def)
    then have "advance_loop n rf = advance_loop (n + 1) (rf\<lparr>commitIndex := ?d\<rparr>)"
      using True t count_matches_replicas [OF less.prems(1,2), of n]
      by (subst advance_loop.simps) (auto simp: committable_def peer_quorum_def)
    moreover obtain c where "advance_loop (n + 1) (rf\<lparr>commitIndex := ?d\<rparr>) = Some (rf\<lparr>commitIndex := c\<rparr>)"
      "greatest_commit rf (n + 1) ?d c"
      using less.hyps [of "rf\<lparr>commitIndex := ?d\<rparr>" "n + 1"] less.prems True by auto
    ultimately show ?thesis
      using greatest_commit_Suc [OF True, of "commitIndex rf" c] by (intro exI [of _ c]) simp
  qed
qed

text \<open>
  C9. On a well-formed leader the commit rule returns and moves the commit index to the
  greatest index of the leader's term that a majority of the peers holds, if there is one
  beyond it; it changes nothing else.
\<close>

theorem maybeAdvanceCommitIndex_correct:
  assumes "raft_wf rf" and "role rf = Leader"
  shows "\<exists>c. maybeAdvanceCommitIndex rf = Some (rf\<lparr>commitIndex := c\<rparr>)
    \<and> greatest_commit rf (commitIndex rf + 1) (commitIndex rf) c
    \<and> commitIndex rf \<le> c \<and> c \<le> lastLogIndex rf"
proof -
  note w = raft_wfD [OF assms(1)]
  have "length (matchIndex rf) = npeers rf" using w(8) assms(2) by (simp add: leader_ok_def)
  then obtain c where c: "advance_loop (commitIndex rf + 1) rf = Some (rf\<lparr>commitIndex := c\<rparr>)"
    "greatest_commit rf (commitIndex rf + 1) (commitIndex rf) c"
    using advance_loop_greatest [of rf "commitIndex rf + 1"] w by auto
  moreover have "commitIndex rf \<le> c \<and> c \<le> lastLogIndex rf"
    using c(2) w(5) by (simp add: greatest_commit_def split: if_splits)
  ultimately show ?thesis
    by (intro exI [of _ c]) (simp add: maybeAdvanceCommitIndex_def)
qed

theorem maybeAdvanceCommitIndex_correct_witness:
  "raft_wf demo_leader \<and> role demo_leader = Leader
   \<and> (\<exists>c. maybeAdvanceCommitIndex demo_leader = Some (demo_leader\<lparr>commitIndex := c\<rparr>)
        \<and> 2 \<le> c \<and> c \<le> 4)"
proof -
  have "role demo_leader = Leader" "commitIndex demo_leader = 2" "lastLogIndex demo_leader = 4"
    by code_simp+
  with maybeAdvanceCommitIndex_correct [OF demo_leader_wf] demo_leader_wf show ?thesis by auto
qed

section \<open>New commands and snapshots\<close>

lemma Start_wf: "raft_wf rf \<Longrightarrow> raft_wf (fst (Start c rf))"
  by (auto simp: Start_def Let_def raft_wf_def leader_ok_def lastLogIndex_def)

lemma Start_leader:
  assumes "role rf = Leader" and "Start c rf = (rf', index, t, ok)"
  shows "ok \<and> index = lastLogIndex rf + 1 \<and> t = currentTerm rf \<and> lastLogIndex rf' = index
    \<and> last (rlog rf') = \<lparr>leTerm = t, leCommand = Some c\<rparr> \<and> butlast (rlog rf') = rlog rf
    \<and> raftstate (persister rf') = encode_state rf'"
  using assms
  by (auto simp: Start_def Let_def lastLogIndex_def persist_def persistWithSnapshot_def Save_def
      encode_state_def)

lemma logTerm_drop:
  assumes "lastIncludedIndex rf \<le> k" and "k \<le> lastLogIndex rf" and "k < i" and "i \<le> lastLogIndex rf"
    and "lastIncludedIndex rf' = k"
    and "tl (rlog rf') = drop (Suc (nat (k - lastIncludedIndex rf))) (rlog rf)"
    and "length (rlog rf') = length (rlog rf) - nat (k - lastIncludedIndex rf)"
  shows "logTerm rf' i = logTerm rf i"
proof -
  let ?d = "nat (k - lastIncludedIndex rf)" and ?j = "nat (i - k)"
  have j: "?j = Suc (?j - 1)" "?d + ?j < length (rlog rf)" "nat (i - lastIncludedIndex rf) = ?d + ?j"
    using assms by (auto simp: lastLogIndex_def)
  have "rlog rf' \<noteq> []" using assms(7) j by auto
  then have "rlog rf' ! ?j = tl (rlog rf') ! (?j - 1)"
    using j(1) by (metis list.collapse nth_Cons_Suc)
  also have "\<dots> = rlog rf ! (Suc ?d + (?j - 1))"
    unfolding assms(6) by (subst nth_drop) (use j(1,2) in linarith, rule refl)
  also have "Suc ?d + (?j - 1) = ?d + ?j" using j(1) by linarith
  finally have "rlog rf' ! ?j = rlog rf ! (?d + ?j)" .
  moreover have "i \<le> lastLogIndex rf'" using assms j by (auto simp: lastLogIndex_def)
  ultimately show ?thesis
    using assms j(3) logTerm_nth [of rf' i] logTerm_nth [of rf i] by auto
qed

lemma Snapshot_result:
  assumes "raft_wf rf" and "lastIncludedIndex rf < index" and "index \<le> lastLogIndex rf"
  obtains e es t where "drop (nat (index - lastIncludedIndex rf)) (rlog rf) = e # es"
    and "logTerm rf index = Some t"
    and "Snapshot index snap rf = Some (persistWithSnapshot snap
      (rf\<lparr>rlog := e\<lparr>leCommand := None\<rparr> # es, lastIncludedIndex := index, lastIncludedTerm := t\<rparr>))"
proof -
  let ?k = "nat (index - lastIncludedIndex rf)"
  have k: "?k < length (rlog rf)" using assms by (simp add: lastLogIndex_def)
  then obtain e es where d: "drop ?k (rlog rf) = e # es" by (metis drop_eq_Nil2 linorder_not_le neq_Nil_conv)
  obtain t where t: "logTerm rf index = Some t"
    using assms raft_wfD(7) [OF assms(1)] by (elim logTerm_Some [of rf index, rotated 2]) auto
  have "Snapshot index snap rf = Some (persistWithSnapshot snap
      (rf\<lparr>rlog := e\<lparr>leCommand := None\<rparr> # es, lastIncludedIndex := index, lastIncludedTerm := t\<rparr>))"
    using assms k d t by (simp add: Snapshot_def logIndex_def)
  with d t that show thesis by blast
qed

lemma Snapshot_step:
  assumes "raft_wf rf" and "index \<le> lastApplied rf"
  shows "\<exists>rf'. Snapshot index snap rf = Some rf' \<and> raft_wf rf'
    \<and> lastLogIndex rf' = lastLogIndex rf
    \<and> lastIncludedIndex rf' = max index (lastIncludedIndex rf)
    \<and> (\<forall>i \<in> {lastIncludedIndex rf'..lastLogIndex rf}. logTerm rf' i = logTerm rf i)
    \<and> (lastIncludedIndex rf < index \<longrightarrow> ReadSnapshot (persister rf') = snap
         \<and> raftstate (persister rf') = encode_state rf')"
proof (cases "index \<le> lastIncludedIndex rf")
  case True
  with assms(1) show ?thesis by (simp add: Snapshot_def)
next
  case False
  note w = raft_wfD [OF assms(1)]
  have le: "index \<le> lastLogIndex rf" using assms(2) w by simp
  obtain e es t where d: "drop (nat (index - lastIncludedIndex rf)) (rlog rf) = e # es"
    and t: "logTerm rf index = Some t"
    and r: "Snapshot index snap rf = Some (persistWithSnapshot snap
      (rf\<lparr>rlog := e\<lparr>leCommand := None\<rparr> # es, lastIncludedIndex := index, lastIncludedTerm := t\<rparr>))"
    (is "_ = Some ?rf'")
    using Snapshot_result [OF assms(1) _ le] False by (metis linorder_not_le)
  have len: "length (e # es) = length (rlog rf) - nat (index - lastIncludedIndex rf)"
    using d by (metis length_drop)
  have tl: "es = drop (Suc (nat (index - lastIncludedIndex rf))) (rlog rf)"
    using d by (metis drop_Suc drop_tl list.sel(3))
  have ll: "lastLogIndex ?rf' = lastLogIndex rf"
    using len False le by (auto simp: lastLogIndex_def)
  have "logTerm ?rf' i = logTerm rf i" if "i \<in> {index..lastLogIndex rf}" for i
  proof (cases "i = index")
    case True
    with t show ?thesis by (simp add: logTerm_def)
  next
    case False': False
    show ?thesis
      by (rule logTerm_drop [of rf index]) (use that False False' le len tl in auto)
  qed
  moreover have "raft_wf ?rf'"
    using assms w False ll by (auto simp: raft_wf_def leader_ok_def)
  ultimately show ?thesis
    using r ll False
    by (intro exI [of _ ?rf'])
      (simp add: persistWithSnapshot_def Save_def ReadSnapshot_def encode_state_def)
qed

text \<open>
  C19. A snapshot of applied entries never panics, keeps the peer well-formed, does not move the
  end of the log, keeps the term of every entry from the snapshot index on, and puts the
  snapshot and the trimmed log on stable storage together.
\<close>

theorem Snapshot_correct:
  assumes "raft_wf rf" and "index \<le> lastApplied rf"
  shows "\<exists>rf'. Snapshot index snap rf = Some rf' \<and> raft_wf rf'
    \<and> lastLogIndex rf' = lastLogIndex rf
    \<and> lastIncludedIndex rf' = max index (lastIncludedIndex rf)
    \<and> (\<forall>i \<in> {lastIncludedIndex rf'..lastLogIndex rf}. logTerm rf' i = logTerm rf i)
    \<and> (lastIncludedIndex rf < index \<longrightarrow> ReadSnapshot (persister rf') = snap
         \<and> raftstate (persister rf') = encode_state rf')"
  using assms by (rule Snapshot_step)

theorem Snapshot_correct_witness:
  "raft_wf demo_leader \<and> 2 \<le> lastApplied demo_leader
   \<and> (\<exists>rf'. Snapshot 2 (Some 5) demo_leader = Some rf' \<and> lastIncludedIndex rf' = 2)"
proof -
  have "2 \<le> lastApplied demo_leader" "lastIncludedIndex demo_leader = 0" by code_simp+
  with Snapshot_correct [OF demo_leader_wf, of 2 "Some 5"] demo_leader_wf show ?thesis by auto
qed

lemma InstallSnapshot_wf:
  assumes "raft_wf rf"
  shows "\<exists>rf' reply. InstallSnapshot args now rf = Some (rf', reply) \<and> raft_wf rf'
    \<and> currentTerm rf' = max (currentTerm rf) (isTerm args) \<and> commitIndex rf \<le> commitIndex rf'
    \<and> npeers rf' = npeers rf \<and> me rf' = me rf"
proof -
  note w = raft_wfD [OF assms]
  consider (stale) "isTerm args < currentTerm rf"
    | (old) "\<not> isTerm args < currentTerm rf" "isLastIncludedIndex args \<le> lastIncludedIndex rf"
    | (trim) "\<not> isTerm args < currentTerm rf" "lastIncludedIndex rf < isLastIncludedIndex args"
        "isLastIncludedIndex args \<le> lastLogIndex rf"
    | (reset) "\<not> isTerm args < currentTerm rf" "lastIncludedIndex rf < isLastIncludedIndex args"
        "lastLogIndex rf < isLastIncludedIndex args"
    by linarith
  then show ?thesis
  proof cases
    case stale
    with assms show ?thesis by (simp add: InstallSnapshot_def Let_def)
  next
    case old
    with assms show ?thesis
      by (auto simp: InstallSnapshot_def Let_def raft_wf_def lastLogIndex_def)
  next
    case trim
    then have "nat (isLastIncludedIndex args - lastIncludedIndex rf) < length (rlog rf)"
      by (simp add: lastLogIndex_def)
    with trim w show ?thesis
      by (simp add: InstallSnapshot_def Let_def raft_wf_def logIndex_def lastLogIndex_def)
  next
    case reset
    with w show ?thesis
      by (simp add: InstallSnapshot_def Let_def raft_wf_def logIndex_def lastLogIndex_def)
  qed
qed

end
