(* ===== verification/Raft_Replication.thy ===== *)
theory Raft_Replication
  imports Raft_Ops
begin

text \<open>
  Replication from the leader's side: what a heartbeat carries, what the leader does with the
  reply, and a whole round of request, handler and reply between two peers.
\<close>

section \<open>Replication, request and reply\<close>

lemma heartbeatRequest_append:
  assumes "raft_wf ld" and "role ld = Leader" and "peer < npeers ld"
    and "lastIncludedIndex ld < nextIndex ld ! peer"
  defines "ni \<equiv> nextIndex ld ! peer"
  obtains pt where "logTerm ld (ni - 1) = Some pt" and "ni \<le> lastLogIndex ld + 1"
    and "heartbeatRequest t c peer ld = Some (SendAppend
      \<lparr>aeTerm = t, aeLeaderId = me ld, PrevLogIndex = ni - 1, PrevLogTerm = pt,
       Entries = drop (nat (ni - lastIncludedIndex ld)) (rlog ld), LeaderCommit = c\<rparr>)"
proof -
  have l: "length (nextIndex ld) = npeers ld" "ni \<le> lastLogIndex ld + 1"
    using raft_wfD(8) [OF assms(1,2)] assms(3) by (simp_all add: leader_ok_def ni_def)
  obtain pt where pt: "logTerm ld (ni - 1) = Some pt"
    using assms(4) l(2) logTerm_Some [of ld "ni - 1"] unfolding ni_def by force
  have "heartbeatRequest t c peer ld = Some (SendAppend
      \<lparr>aeTerm = t, aeLeaderId = me ld, PrevLogIndex = ni - 1, PrevLogTerm = pt,
       Entries = drop (nat (ni - lastIncludedIndex ld)) (rlog ld), LeaderCommit = c\<rparr>)"
    using assms(2-4) l pt
    by (simp add: heartbeatRequest_def Let_def ni_def logIndex_def lastLogIndex_def)
  with pt l(2) that show thesis by blast
qed

lemma heartbeatRequest_snapshot:
  assumes "raft_wf ld" and "role ld = Leader" and "peer < npeers ld"
    and "nextIndex ld ! peer \<le> lastIncludedIndex ld"
  shows "heartbeatRequest t c peer ld = Some (SendSnapshot (snapshotArgs ld))"
  using raft_wfD(8) [OF assms(1,2)] assms(2-4) by (simp add: leader_ok_def heartbeatRequest_def)

lemma find_term_range:
  assumes "j \<le> lastLogIndex rf" and "lastIncludedIndex rf \<le> j"
  shows "\<exists>r. find_term rf ct j = Some r
    \<and> (if \<exists>k. lastIncludedIndex rf < k \<and> k \<le> j \<and> logTerm rf k = Some ct
       then lastIncludedIndex rf < r - 1 \<and> r - 1 \<le> j \<and> logTerm rf (r - 1) = Some ct
         \<and> \<not> (\<exists>k. r - 1 < k \<and> k \<le> j \<and> logTerm rf k = Some ct)
       else r = -1)"
  using assms
proof (induction "nat (j - lastIncludedIndex rf)" arbitrary: j rule: less_induct)
  case less
  show ?case
  proof (cases "lastIncludedIndex rf < j")
    case False
    then show ?thesis by (subst find_term.simps) auto
  next
    case True
    obtain t where t: "logTerm rf j = Some t" using less.prems by (blast elim: logTerm_Some)
    show ?thesis
    proof (cases "t = ct")
      case eq: True
      with t True show ?thesis by (subst find_term.simps) auto
    next
      case False
      have s: "k \<le> j \<and> logTerm rf k = Some ct \<longleftrightarrow> k \<le> j - 1 \<and> logTerm rf k = Some ct" for k
        using False t by (cases "k = j") auto
      have "find_term rf ct j = find_term rf ct (j - 1)"
        using True t False by (subst find_term.simps) simp
      moreover obtain r where r: "find_term rf ct (j - 1) = Some r"
        "if \<exists>k. lastIncludedIndex rf < k \<and> k \<le> j - 1 \<and> logTerm rf k = Some ct
         then lastIncludedIndex rf < r - 1 \<and> r - 1 \<le> j - 1 \<and> logTerm rf (r - 1) = Some ct
           \<and> \<not> (\<exists>k. r - 1 < k \<and> k \<le> j - 1 \<and> logTerm rf k = Some ct)
         else r = -1"
        using less.hyps [of "j - 1"] less.prems True by auto
      ultimately show ?thesis
        unfolding s by (intro exI [of _ r]) (auto split: if_splits)
    qed
  qed
qed

text \<open>What a leader may rely on in a reply to its request.\<close>

definition append_reply_ok :: "'c AppendEntriesArgs \<Rightarrow> AppendEntriesReply \<Rightarrow> ('c, 's) raft \<Rightarrow> bool" where
  "append_reply_ok args reply rf \<longleftrightarrow>
     (if Success reply
      then 0 \<le> PrevLogIndex args + int (length (Entries args))
        \<and> PrevLogIndex args + int (length (Entries args)) \<le> lastLogIndex rf
      else ConflictIndex reply \<le> lastLogIndex rf + 1)"

lemma leader_ok_update:
  assumes "leader_ok rf" and "peer < npeers rf" and "1 \<le> ni" and "ni \<le> lastLogIndex rf + 1"
    and "0 \<le> mi" and "mi \<le> lastLogIndex rf"
  shows "leader_ok (rf\<lparr>matchIndex := (matchIndex rf)[peer := mi], nextIndex := (nextIndex rf)[peer := ni]\<rparr>)"
  using assms by (auto simp: leader_ok_def lastLogIndex_def nth_list_update)

lemma leader_ok_next:
  assumes "leader_ok rf" and "peer < npeers rf" and "1 \<le> ni" and "ni \<le> lastLogIndex rf + 1"
  shows "leader_ok (rf\<lparr>nextIndex := (nextIndex rf)[peer := ni]\<rparr>)"
  using assms by (auto simp: leader_ok_def lastLogIndex_def nth_list_update)

lemma if_less_max: "(if a < b then b else a) = max a (b :: int)"
  by simp

text \<open>What the leader does with a success: it records the match and applies the commit rule.\<close>

lemma record_match:
  assumes "raft_wf rf" and "leader_ok rf" and "peer < npeers rf" and "0 \<le> m" and "m \<le> lastLogIndex rf"
  defines "rf2 \<equiv> rf\<lparr>matchIndex := (matchIndex rf)[peer := m], nextIndex := (nextIndex rf)[peer := m + 1]\<rparr>"
  shows "raft_wf rf2" and "\<exists>c. maybeAdvanceCommitIndex rf2 = Some (rf2\<lparr>commitIndex := c\<rparr>)
    \<and> greatest_commit rf2 (commitIndex rf + 1) (commitIndex rf) c \<and> commitIndex rf \<le> c
    \<and> raft_wf (rf2\<lparr>commitIndex := c\<rparr>)"
proof -
  have lo2: "leader_ok rf2"
    using leader_ok_update [OF assms(2), of peer "m + 1" m] assms(3-5) by (simp add: rf2_def)
  then show wf2: "raft_wf rf2" using assms(1) by (simp add: raft_wf_def lastLogIndex_def rf2_def)
  obtain c where c: "advance_loop (commitIndex rf2 + 1) rf2 = Some (rf2\<lparr>commitIndex := c\<rparr>)"
    "greatest_commit rf2 (commitIndex rf2 + 1) (commitIndex rf2) c"
    using advance_loop_greatest [of rf2 "commitIndex rf2 + 1"] lo2 raft_wfD [OF wf2]
    by (auto simp: leader_ok_def)
  have cb: "commitIndex rf2 \<le> c" "c \<le> lastLogIndex rf2"
    using c(2) raft_wfD(5) [OF wf2] by (auto simp: greatest_commit_def split: if_splits)
  then have "raft_wf (rf2\<lparr>commitIndex := c\<rparr>)"
    using wf2 by (auto simp: raft_wf_def leader_ok_def lastLogIndex_def)
  then show "\<exists>c. maybeAdvanceCommitIndex rf2 = Some (rf2\<lparr>commitIndex := c\<rparr>)
    \<and> greatest_commit rf2 (commitIndex rf + 1) (commitIndex rf) c \<and> commitIndex rf \<le> c
    \<and> raft_wf (rf2\<lparr>commitIndex := c\<rparr>)"
    using c cb(1) by (auto simp: rf2_def maybeAdvanceCommitIndex_def)
qed

lemma handleAppendReply_success:
  assumes "raft_wf rf" and "role rf = Leader" and "peer < npeers rf" and "Success reply"
    and "aerTerm reply \<le> currentTerm rf" and "append_reply_ok args reply rf"
  defines "m \<equiv> max (matchIndex rf ! peer) (PrevLogIndex args + int (length (Entries args)))"
  defines "rf2 \<equiv> rf\<lparr>matchIndex := (matchIndex rf)[peer := m], nextIndex := (nextIndex rf)[peer := m + 1]\<rparr>"
  shows "raft_wf rf2" and "\<exists>c. handleAppendReply (currentTerm rf) peer args reply rf = Some (rf2\<lparr>commitIndex := c\<rparr>)
    \<and> greatest_commit rf2 (commitIndex rf + 1) (commitIndex rf) c \<and> commitIndex rf \<le> c
    \<and> raft_wf (rf2\<lparr>commitIndex := c\<rparr>)"
proof -
  have lo: "leader_ok rf" using raft_wfD(8) [OF assms(1,2)] .
  have len: "length (nextIndex rf) = npeers rf" "length (matchIndex rf) = npeers rf"
    "0 \<le> m" "m \<le> lastLogIndex rf"
    using lo assms(3,4,6) by (auto simp: leader_ok_def append_reply_ok_def m_def)
  note r = record_match [OF assms(1) lo assms(3) len(3,4), folded rf2_def]
  show "raft_wf rf2" by (rule r(1))
  have "handleAppendReply (currentTerm rf) peer args reply rf = maybeAdvanceCommitIndex rf2"
    using assms(2-5) len by (simp add: handleAppendReply_def Let_def if_less_max rf2_def m_def)
  with r(2) show "\<exists>c. handleAppendReply (currentTerm rf) peer args reply rf = Some (rf2\<lparr>commitIndex := c\<rparr>)
    \<and> greatest_commit rf2 (commitIndex rf + 1) (commitIndex rf) c \<and> commitIndex rf \<le> c
    \<and> raft_wf (rf2\<lparr>commitIndex := c\<rparr>)" by simp
qed

text \<open>What it does with a failure: it moves the next index, within its log.\<close>

lemma handleAppendReply_failure:
  assumes "raft_wf rf" and "role rf = Leader" and "peer < npeers rf" and "\<not> Success reply" and "append_reply_ok args reply rf"
  defines "r1 \<equiv> (if aerTerm reply > currentTerm rf then step_down (aerTerm reply) rf else rf)"
  shows "\<exists>ni. handleAppendReply (currentTerm rf) peer args reply rf = Some (r1\<lparr>nextIndex := ni\<rparr>) \<and> raft_wf (r1\<lparr>nextIndex := ni\<rparr>)"
proof -
  have r1: "nextIndex r1 = nextIndex rf" "npeers r1 = npeers rf" "lastLogIndex r1 = lastLogIndex rf"
    by (simp_all add: r1_def lastLogIndex_def)
  have lo: "leader_ok r1" using raft_wfD(8) [OF assms(1,2)] by (simp add: r1_def leader_ok_def lastLogIndex_def)
  then have wf: "raft_wf r1" using assms(1) by (simp add: r1_def raft_wf_def lastLogIndex_def)
  obtain r where r: "find_term r1 (ConflictTerm reply) (lastLogIndex r1) = Some r" "r \<le> lastLogIndex r1 + 1"
    using find_term_range [of "lastLogIndex r1" r1 "ConflictTerm reply"] raft_wfD [OF wf] by (auto split: if_splits)
  define n where "n = (if ConflictTerm reply = -1 \<or> r = -1 then ConflictIndex reply else r)"
  let ?n = "if n < 1 then 1 else n"
  have "?n \<le> lastLogIndex r1 + 1" "1 \<le> ?n"
    using assms(4,5) r(2) raft_wfD [OF wf] by (auto simp: append_reply_ok_def n_def r1)
  then have "leader_ok (r1\<lparr>nextIndex := (nextIndex rf)[peer := ?n]\<rparr>)"
    using leader_ok_next [OF lo, of peer ?n] assms(3) unfolding r1 by blast
  then have "raft_wf (r1\<lparr>nextIndex := (nextIndex rf)[peer := ?n]\<rparr>)" using wf by (simp add: raft_wf_def lastLogIndex_def)
  moreover have "length (nextIndex rf) = npeers rf" using lo by (simp add: leader_ok_def r1)
  then have "handleAppendReply (currentTerm rf) peer args reply rf = Some (r1\<lparr>nextIndex := (nextIndex rf)[peer := ?n]\<rparr>)"
    using assms(2-4) r(1) by (auto simp: handleAppendReply_def Let_def r1_def [symmetric] r1 n_def)
  ultimately show ?thesis by blast
qed

lemma handleAppendReply_wf:
  assumes "raft_wf rf" and "peer < npeers rf" and "append_reply_ok args reply rf"
  shows "\<exists>rf'. handleAppendReply t peer args reply rf = Some rf' \<and> raft_wf rf'
    \<and> rlog rf' = rlog rf \<and> lastIncludedIndex rf' = lastIncludedIndex rf
    \<and> lastIncludedTerm rf' = lastIncludedTerm rf \<and> commitIndex rf \<le> commitIndex rf'
    \<and> (role rf = Leader \<and> currentTerm rf = t \<and> aerTerm reply \<le> t \<and> Success reply
         \<longrightarrow> matchIndex rf' ! peer
              = max (matchIndex rf ! peer) (PrevLogIndex args + int (length (Entries args)))
           \<and> nextIndex rf' ! peer = matchIndex rf' ! peer + 1)"
proof (cases "role rf = Leader \<and> currentTerm rf = t")
  case False
  then show ?thesis using assms(1) by (auto simp: handleAppendReply_def)
next
  case lead: True
  define r1 where "r1 = (if aerTerm reply > t then step_down (aerTerm reply) rf else rf)"
  have r1: "rlog r1 = rlog rf" "lastIncludedIndex r1 = lastIncludedIndex rf"
    "lastIncludedTerm r1 = lastIncludedTerm rf" "commitIndex r1 = commitIndex rf"
    "nextIndex r1 = nextIndex rf" "matchIndex r1 = matchIndex rf" "npeers r1 = npeers rf" "lastLogIndex r1 = lastLogIndex rf"
    by (simp_all add: r1_def lastLogIndex_def)
  have lo: "leader_ok r1" using raft_wfD(8) [OF assms(1)] lead by (simp add: r1_def leader_ok_def lastLogIndex_def)
  then have wf: "raft_wf r1" using assms(1) by (simp add: r1_def raft_wf_def lastLogIndex_def)
  show ?thesis
  proof (cases "Success reply")
    case True
    let ?m = "max (matchIndex rf ! peer) (PrevLogIndex args + int (length (Entries args)))"
    have len: "length (nextIndex rf) = npeers rf" "length (matchIndex rf) = npeers rf" "0 \<le> ?m" "?m \<le> lastLogIndex rf"
      using lo assms(2,3) True by (auto simp: leader_ok_def append_reply_ok_def r1)
    then have "handleAppendReply t peer args reply rf
        = maybeAdvanceCommitIndex (r1\<lparr>matchIndex := (matchIndex rf)[peer := ?m], nextIndex := (nextIndex rf)[peer := ?m + 1]\<rparr>)"
      using lead True assms(2) by (simp add: handleAppendReply_def Let_def r1_def [symmetric] r1 if_less_max)
    with record_match(2) [OF wf lo, of peer ?m] len assms(2) show ?thesis by (auto simp: r1)
  next
    case False
    with handleAppendReply_failure [OF assms(1) _ assms(2) False assms(3)] lead show ?thesis
      unfolding r1_def [symmetric] by (auto simp: r1 r1_def [symmetric])
  qed
qed

lemma handleSnapshotReply_wf:
  assumes "raft_wf rf" and "peer < npeers rf"
    and "0 \<le> isLastIncludedIndex args" and "isLastIncludedIndex args \<le> lastLogIndex rf"
  shows "\<exists>rf'. handleSnapshotReply peer args reply rf = Some rf' \<and> raft_wf rf'"
proof (cases "role rf = Leader \<and> currentTerm rf = isTerm args \<and> isrTerm reply \<le> currentTerm rf")
  case False
  have "raft_wf (step_down t rf)" for t by (rule raft_wf_follower [OF assms(1)]) auto
  with False assms(1) show ?thesis by (auto simp: handleSnapshotReply_def)
next
  case True
  have lo: "leader_ok rf" using raft_wfD(8) [OF assms(1)] True by simp
  let ?m = "max (matchIndex rf ! peer) (isLastIncludedIndex args)"
  let ?r2 = "rf\<lparr>matchIndex := (matchIndex rf)[peer := ?m], nextIndex := (nextIndex rf)[peer := ?m + 1]\<rparr>"
  have len: "length (nextIndex rf) = npeers rf" "length (matchIndex rf) = npeers rf"
    "0 \<le> ?m" "?m \<le> lastLogIndex rf"
    using lo assms(2-4) by (auto simp: leader_ok_def)
  then have "leader_ok ?r2"
    using leader_ok_update [OF lo, of peer "?m + 1" ?m] assms(2) by simp
  then have "raft_wf ?r2" using assms(1) by (simp add: raft_wf_def lastLogIndex_def)
  moreover have "handleSnapshotReply peer args reply rf = Some ?r2"
    using True len assms(2) by (simp add: handleSnapshotReply_def if_less_max)
  ultimately show ?thesis by blast
qed

text \<open>The reply of a well-formed follower to a request of a leader is one the leader can use.\<close>

lemma AppendEntries_reply_ok:
  assumes "raft_wf fo" and "AppendEntries args now fo = Some (fo', reply)"
    and "0 \<le> PrevLogIndex args" and "PrevLogIndex args + int (length (Entries args)) \<le> lastLogIndex ld"
    and "lastIncludedIndex fo \<le> lastLogIndex ld" and "0 \<le> lastLogIndex ld"
  shows "append_reply_ok args reply ld"
proof (cases "ae_accept args fo")
  case True
  then show ?thesis
    using AppendEntries_accept [OF True, of now] assms by (auto simp: append_reply_ok_def)
next
  case False
  have nf: "\<not> Success reply" using AppendEntries_reject [OF assms(1) False, of now] assms(2) by auto
  define r1 where "r1 = persist (fo\<lparr>lastHeartbeat := now, role := Follower, currentTerm := aeTerm args\<rparr>)"
  have r1: "lastIncludedIndex r1 = lastIncludedIndex fo" "lastLogIndex r1 = lastLogIndex fo"
    by (simp_all add: r1_def lastLogIndex_def)
  have "ConflictIndex reply \<le> lastLogIndex ld + 1"
  proof (cases "currentTerm fo \<le> aeTerm args \<and> lastIncludedIndex fo \<le> PrevLogIndex args
      \<and> PrevLogIndex args \<le> lastLogIndex fo")
    case True
    then obtain pt where pt: "logTerm r1 (PrevLogIndex args) = Some pt"
      using logTerm_Some [of r1 "PrevLogIndex args"] r1 by auto
    then obtain w where w: "walk_back r1 pt (PrevLogIndex args) = Some w" "w \<le> PrevLogIndex args"
      using walk_back_first [of r1 "PrevLogIndex args" pt] True r1 by auto
    have "pt \<noteq> PrevLogTerm args"
      using pt False True logTerm_cong [of r1 fo] by (auto simp: ae_accept_def r1_def)
    then show ?thesis
      using assms(2,4) True pt w by (auto simp: AppendEntries_def Let_def r1_def [symmetric] r1)
  next
    case False
    then show ?thesis
      using assms nf by (auto simp: AppendEntries_def Let_def r1_def [symmetric] r1 split: if_splits)
  qed
  with nf show ?thesis by (simp add: append_reply_ok_def)
qed

lemma ae_log_terms:
  assumes "ae_accept args rf" and "i < length (Entries args)"
  shows "leTerm (ae_log args rf ! (nat (logIndex rf (PrevLogIndex args + 1)) + i)) = leTerm (Entries args ! i)"
  using ae_prefix(2) [OF assms(1)] merge_entries_terms [OF assms(2)]
  by (simp add: ae_log_def Let_def nth_append)

lemma ae_log_logTerm:
  assumes "ae_accept args rf" and "rlog rf' = ae_log args rf"
    and "lastIncludedIndex rf' = lastIncludedIndex rf" and "lastIncludedTerm rf' = lastIncludedTerm rf"
    and "i < length (Entries args)"
  shows "logTerm rf' (PrevLogIndex args + 1 + int i) = Some (leTerm (Entries args ! i))"
proof -
  let ?k = "nat (logIndex rf (PrevLogIndex args + 1))" and ?i = "PrevLogIndex args + 1 + int i"
  have k: "int ?k = PrevLogIndex args + 1 - lastIncludedIndex rf" "0 < ?k"
    using assms(1) by (auto simp: ae_accept_def logIndex_def)
  have "int (?k + i) < int (length (ae_log args rf))"
    using ae_prefix [OF assms(1)] assms(5) merge_entries_length [of "Entries args" "drop ?k (rlog rf)"]
    by (simp add: ae_log_def Let_def)
  then have "?i \<le> lastLogIndex rf'" "lastIncludedIndex rf' < ?i"
    using k assms(2,3) by (auto simp: lastLogIndex_def)
  moreover have "nat (?i - lastIncludedIndex rf') = ?k + i" using k assms(3) by linarith
  ultimately show ?thesis
    using logTerm_nth [of rf' ?i] ae_log_terms [OF assms(1,5)] assms(2) by simp
qed

lemma ae_log_prev:
  assumes "ae_accept args rf" and "rlog rf' = ae_log args rf"
    and "lastIncludedIndex rf' = lastIncludedIndex rf" and "lastIncludedTerm rf' = lastIncludedTerm rf"
  shows "logTerm rf' (PrevLogIndex args) = Some (PrevLogTerm args)"
proof (cases "PrevLogIndex args = lastIncludedIndex rf")
  case True
  with assms show ?thesis by (simp add: logTerm_def ae_accept_def)
next
  case False
  let ?k = "nat (logIndex rf (PrevLogIndex args + 1))"
  let ?j = "nat (PrevLogIndex args - lastIncludedIndex rf)"
  have k: "?j < ?k" "?k \<le> length (rlog rf)"
    using assms(1) False ae_prefix [OF assms(1)] by (auto simp: ae_accept_def logIndex_def)
  then have "ae_log args rf ! ?j = rlog rf ! ?j" "?j < length (ae_log args rf)"
    unfolding ae_log_def Let_def by (simp_all add: nth_append del: zless_nat_conj)
  moreover have "logTerm rf (PrevLogIndex args) = Some (leTerm (rlog rf ! ?j))"
    using assms(1) False by (intro logTerm_nth) (auto simp: ae_accept_def)
  ultimately show ?thesis
    using assms False logTerm_nth [of rf' "PrevLogIndex args"]
    by (auto simp: ae_accept_def lastLogIndex_def)
qed

text \<open>After an accepted request for all entries from an index on, the terms agree from there to the end.\<close>

lemma accepted_terms:
  assumes acc: "ae_accept args fo" and fo': "rlog fo' = ae_log args fo" "lastIncludedIndex fo' = lastIncludedIndex fo"
      "lastIncludedTerm fo' = lastIncludedTerm fo"
    and args: "logTerm ld (PrevLogIndex args) = Some (PrevLogTerm args)"
      "Entries args = drop (nat (PrevLogIndex args + 1 - lastIncludedIndex ld)) (rlog ld)" "lastIncludedIndex ld \<le> PrevLogIndex args"
    and i: "PrevLogIndex args \<le> i" "i \<le> lastLogIndex ld"
  shows "logTerm fo' i = logTerm ld i"
proof (cases "i = PrevLogIndex args")
  case True
  with ae_log_prev [OF acc fo'] args(1) show ?thesis by simp
next
  case False
  define j where "j = nat (i - (PrevLogIndex args + 1))"
  have ij: "i = PrevLogIndex args + 1 + int j" "j < length (Entries args)"
    using False i args(2,3) by (auto simp: j_def lastLogIndex_def)
  have "nat (i - lastIncludedIndex ld) = nat (PrevLogIndex args + 1 - lastIncludedIndex ld) + j"
    using False i args(3) by (auto simp: j_def)
  then have "logTerm ld i = Some (leTerm (Entries args ! j))"
    using logTerm_nth [of ld i] i False ij args(2,3) by auto
  then show ?thesis using ae_log_logTerm [OF acc fo' ij(2)] ij(1) by simp
qed


lemma demo_request:
  "heartbeatRequest (currentTerm demo_leader) (commitIndex demo_leader) 1 demo_leader
   = Some (SendAppend demo_append)"
  by (simp add: demo_defs demo_append_def heartbeatRequest_def logTerm_def logIndex_def)


end
