(* ===== verification/Raft_Apply.thy ===== *)
theory Raft_Apply
  imports Raft_Ops
begin

text \<open>
  What leaves a peer and what survives it: the messages of the apply loop, recovery from stable
  storage, and two places where the handling of snapshots departs from the protocol.
\<close>

section \<open>The apply loop\<close>

text \<open>
  A step of the apply loop on a well-formed peer never panics and keeps it well-formed. At
  the top of the loop a pending snapshot goes first; otherwise the step delivers the command at
  the index after the last applied one, which is committed, or finds that everything committed
  has been applied.
\<close>

theorem applyStep_next:
  assumes "raft_wf rf"
  shows "\<exists>inner' rf' m. applyStep inner rf = Some (inner', rf', m) \<and> raft_wf rf'
    \<and> lastApplied rf \<le> lastApplied rf' \<and> rlog rf' = rlog rf \<and> commitIndex rf' = commitIndex rf
    \<and> (if \<not> inner \<and> pendingSnapshot rf \<noteq> None
       then m = pendingSnapshot rf \<and> pendingSnapshot rf' = None \<and> lastApplied rf' = lastApplied rf
       else case m of
           None \<Rightarrow> lastApplied rf = commitIndex rf \<and> rf' = rf \<and> \<not> inner'
         | Some msg \<Rightarrow> CommandValid msg \<and> CommandIndex msg = lastApplied rf + 1 \<and> inner'
             \<and> lastApplied rf' = CommandIndex msg \<and> CommandIndex msg \<le> commitIndex rf
             \<and> amCommand msg = leCommand (rlog rf ! nat (logIndex rf (CommandIndex msg))))"
proof -
  note w = raft_wfD [OF assms]
  have "raft_wf (rf\<lparr>pendingSnapshot := None\<rparr>)" by (rule raft_wf_follower [OF assms]) auto
  moreover have "raft_wf (rf\<lparr>lastApplied := lastApplied rf + 1\<rparr>)" if "lastApplied rf < commitIndex rf"
    using assms that by (auto simp: raft_wf_def leader_ok_def lastLogIndex_def)
  ultimately show ?thesis
    using w assms by (auto simp: applyStep_def Let_def logIndex_def lastLogIndex_def)
qed

theorem applyStep_next_witness:
  "raft_wf demo_follower \<and> applyStep True demo_follower \<noteq> None"
  using applyStep_next [of demo_follower True] demo_follower_wf by auto

text \<open>The loop over the committed entries, run for \<open>n\<close> messages with no other operation between.\<close>

fun apply_run :: "nat \<Rightarrow> ('c, 's) raft \<Rightarrow> (('c, 's) raft \<times> ('c, 's) ApplyMsg list) option" where
  "apply_run 0 rf = Some (rf, [])"
| "apply_run (Suc n) rf =
     do {
       (inner, rf, m) \<leftarrow> applyStep True rf;
       (rf, ms) \<leftarrow> apply_run n rf;
       Some (rf, (case m of None \<Rightarrow> [] | Some msg \<Rightarrow> [msg]) @ ms)
     }"

lemma applyStep_inner:
  assumes "raft_wf rf" and "lastApplied rf < commitIndex rf"
  obtains rf' msg where "applyStep True rf = Some (True, rf', Some msg)"
    and "rf' = rf\<lparr>lastApplied := lastApplied rf + 1\<rparr>" and "raft_wf rf'"
    and "CommandIndex msg = lastApplied rf + 1"
    and "amCommand msg = leCommand (rlog rf ! nat (logIndex rf (lastApplied rf + 1)))"
    and "CommandValid msg" and "\<not> SnapshotValid msg"
proof -
  have "raft_wf (rf\<lparr>lastApplied := lastApplied rf + 1\<rparr>)"
    using assms by (auto simp: raft_wf_def leader_ok_def lastLogIndex_def)
  with that raft_wfD [OF assms(1)] assms(2) show thesis
    by (auto simp: applyStep_def Let_def logIndex_def lastLogIndex_def)
qed

lemma apply_run_indices:
  assumes "raft_wf rf" and "n = nat (commitIndex rf - lastApplied rf)"
  shows "\<exists>ms. apply_run n rf = Some (rf\<lparr>lastApplied := commitIndex rf\<rparr>, ms)
    \<and> map CommandIndex ms = [lastApplied rf + 1..commitIndex rf]
    \<and> map amCommand ms
      = map (\<lambda>i. leCommand (rlog rf ! nat (logIndex rf i))) [lastApplied rf + 1..commitIndex rf]
    \<and> (\<forall>m \<in> set ms. CommandValid m \<and> \<not> SnapshotValid m)"
  using assms
proof (induction n arbitrary: rf)
  case 0
  then have "lastApplied rf = commitIndex rf" using raft_wfD(4) [OF 0(1)] by simp
  then show ?case by simp
next
  case (Suc n)
  then have lt: "lastApplied rf < commitIndex rf" by simp
  obtain rf' msg where s: "applyStep True rf = Some (True, rf', Some msg)"
    "rf' = rf\<lparr>lastApplied := lastApplied rf + 1\<rparr>" "raft_wf rf'"
    "CommandIndex msg = lastApplied rf + 1"
    "amCommand msg = leCommand (rlog rf ! nat (logIndex rf (lastApplied rf + 1)))"
    "CommandValid msg" "\<not> SnapshotValid msg"
    by (rule applyStep_inner [OF Suc.prems(1) lt])
  have n: "n = nat (commitIndex rf' - lastApplied rf')" using Suc.prems(2) s(2) by simp
  obtain ms where ms: "apply_run n rf' = Some (rf'\<lparr>lastApplied := commitIndex rf'\<rparr>, ms)"
    "map CommandIndex ms = [lastApplied rf' + 1..commitIndex rf']"
    "map amCommand ms
      = map (\<lambda>i. leCommand (rlog rf' ! nat (logIndex rf' i))) [lastApplied rf' + 1..commitIndex rf']"
    "\<forall>m \<in> set ms. CommandValid m \<and> \<not> SnapshotValid m"
    using Suc.IH [OF s(3) n] by blast
  have "[lastApplied rf + 1..commitIndex rf]
      = (lastApplied rf + 1) # [lastApplied rf + 1 + 1..commitIndex rf]"
    using lt by (subst upto_rec1) auto
  with s ms show ?case by (simp add: logIndex_def)
qed

text \<open>
  C18. The loop terminates: from any well-formed state it delivers exactly the committed commands
  that were not applied yet, each once and in the order of their indices, after as many
  messages as there are such indices.
\<close>

theorem apply_run_drains:
  assumes "raft_wf rf"
  shows "\<exists>ms. apply_run (nat (commitIndex rf - lastApplied rf)) rf
      = Some (rf\<lparr>lastApplied := commitIndex rf\<rparr>, ms)
    \<and> map CommandIndex ms = [lastApplied rf + 1..commitIndex rf]
    \<and> map amCommand ms
      = map (\<lambda>i. leCommand (rlog rf ! nat (logIndex rf i))) [lastApplied rf + 1..commitIndex rf]"
  using apply_run_indices [OF assms refl] by blast

theorem apply_run_drains_witness:
  "raft_wf demo_follower \<and> (\<exists>ms. apply_run 1 demo_follower
      = Some (demo_follower\<lparr>lastApplied := 2\<rparr>, ms) \<and> map CommandIndex ms = [2])"
  using apply_run_drains [of demo_follower] demo_follower_wf by (auto simp: demo_defs)

section \<open>Recovery\<close>

lemma readPersist_encode:
  assumes "raftstate ps = encode_state rf"
  shows "Make n self ps now =
    \<lparr>npeers = n, persister = ps, me = self, dead = False, currentTerm = currentTerm rf,
     votedFor = votedFor rf, rlog = rlog rf, lastIncludedIndex = lastIncludedIndex rf,
     lastIncludedTerm = lastIncludedTerm rf, commitIndex = lastIncludedIndex rf,
     lastApplied = lastIncludedIndex rf, nextIndex = [], matchIndex = [], role = Follower,
     lastHeartbeat = now, pendingSnapshot = None\<rparr>"
  using assms by (simp add: Make_def readPersist_def ReadRaftState_def encode_state_def Let_def)

text \<open>
  A peer that restarts from the storage another well-formed state has written comes back
  well-formed with the same term, vote, log and snapshot position, as a follower whose
  committed and applied prefix is the snapshot.
\<close>

theorem restart_recovers:
  assumes "raft_wf rf" and "self < n"
  shows "let rf' = Make n self (persister (persistWithSnapshot snap rf)) now
    in raft_wf rf' \<and> currentTerm rf' = currentTerm rf \<and> votedFor rf' = votedFor rf
      \<and> rlog rf' = rlog rf \<and> lastIncludedIndex rf' = lastIncludedIndex rf
      \<and> lastIncludedTerm rf' = lastIncludedTerm rf \<and> role rf' = Follower
      \<and> commitIndex rf' = lastIncludedIndex rf \<and> lastApplied rf' = lastIncludedIndex rf
      \<and> ReadSnapshot (persister rf') = snap"
proof -
  have "raftstate (persister (persistWithSnapshot snap rf)) = encode_state rf"
    by (simp add: persistWithSnapshot_def Save_def)
  from readPersist_encode [OF this, of n self now] show ?thesis
    unfolding Let_def using raft_wfD [OF assms(1)] assms(2)
    by (simp add: raft_wf_def lastLogIndex_def persistWithSnapshot_def Save_def ReadSnapshot_def)
qed

theorem restart_recovers_witness:
  "raft_wf demo_leader \<and> (0 :: nat) < 3
   \<and> votedFor (Make 3 0 (persister (persistWithSnapshot (Some 5) demo_leader)) 9) = 0"
  using restart_recovers [of demo_leader 0 3 "Some 5" 9] demo_leader_wf
  by (auto simp: Let_def demo_defs)

lemma Make_restart_wf:
  assumes "raft_wf rf" and "raftstate ps = encode_state rf" and "self < n"
  shows "raft_wf (Make n self ps now)"
  using readPersist_encode [OF assms(2), of n self now] raft_wfD [OF assms(1)] assms(3)
  by (simp add: raft_wf_def lastLogIndex_def)

lemma Make_fresh_wf: "self < n \<Longrightarrow> raft_wf (Make n self MakePersister now)"
  by (simp add: Make_def readPersist_def ReadRaftState_def MakePersister_def Let_def raft_wf_def
      lastLogIndex_def)

section \<open>Two places where the snapshot path departs from the protocol\<close>



text \<open>
  The loop over the committed entries does not look at the pending snapshot: when a snapshot
  up to index 3 and the entry 4 arrive while it delivers the command 2, it goes on with the
  command 4 and delivers the snapshot of index 3 after it, so the service is put back to a
  state without the command 4, which is not delivered again.
\<close>

theorem apply_loop_rewinds:
  "do {
     (inner, rf, m1) \<leftarrow> applyStep True demo_follower;
     (rf, r1) \<leftarrow> InstallSnapshot \<lparr>isTerm = 3, isLeaderId = 0, isLastIncludedIndex = 3,
        isLastIncludedTerm = 3, isData = Some 5\<rparr> 9 rf;
     (rf, r2) \<leftarrow> AppendEntries \<lparr>aeTerm = 3, aeLeaderId = 0, PrevLogIndex = 3, PrevLogTerm = 3,
        Entries = [demo_entry 3 14], LeaderCommit = 4\<rparr> 9 rf;
     (inner, rf, m2) \<leftarrow> applyStep inner rf;
     (inner, rf, m3) \<leftarrow> applyStep inner rf;
     (inner, rf, m4) \<leftarrow> applyStep inner rf;
     Some (map (map_option (\<lambda>m. (CommandIndex m, SnapshotIndex m))) [m1, m2, m3, m4],
       lastApplied rf)
   } = Some ([Some (2, 0), Some (4, 0), None, Some (0, 3)], 4)"
  by code_simp

end
