(* ===== verification/Raft_Cluster.thy ===== *)
theory Raft_Cluster
  imports Raft_Replication Raft_Apply
begin

text \<open>
  A cluster of peers and the messages between them, as a step relation over the operations of
  \<open>raft.go\<close>, and election safety: at most one leader per term, over every interleaving of
  elections, votes, replication, snapshots, lost, delayed and repeated messages, crashes and
  restarts.

  A message that was sent stays in \<open>net\<close>: it may be delivered late, more than once or never.
  \<open>elections\<close> holds what the goroutines of \<open>startElection\<close> share, per candidate and term:
  the counter \<open>votes\<close> and the peers whose goroutine has not handled its reply yet, \<open>rounds\<close> what
  each call of \<open>sendHeartbeats\<close> has read for its goroutines; after a crash of the peer no
  goroutine is left. A panic is a crash.
\<close>

section \<open>The step relation\<close>

datatype ('c, 's) message =
    VoteRequest nat nat RequestVoteArgs
  | VoteReply nat nat int RequestVoteReply
  | AppendRequest nat nat int "'c AppendEntriesArgs"
  | AppendReply nat nat int "'c AppendEntriesArgs" AppendEntriesReply
  | SnapshotRequest nat nat "'s InstallSnapshotArgs"
  | SnapshotReply nat nat "'s InstallSnapshotArgs" InstallSnapshotReply

record ('c, 's) cluster =
  nodes :: "nat \<Rightarrow> ('c, 's) raft"
  elections :: "nat \<times> int \<rightharpoonup> int \<times> nat set"
  rounds :: "(nat \<times> int \<times> int) set"
  net :: "('c, 's) message set"

definition initial :: "nat \<Rightarrow> int \<Rightarrow> ('c, 's) cluster" where
  "initial n now =
     \<lparr>nodes = (\<lambda>i. Make n i MakePersister now), elections = Map.empty, rounds = {}, net = {}\<rparr>"

fun send :: "nat \<Rightarrow> nat \<Rightarrow> int \<Rightarrow> ('c, 's) outgoing \<Rightarrow> ('c, 's) message set" where
  "send i p t NotLeaderAnyMore = {}"
| "send i p t (SendSnapshot args) = {SnapshotRequest i p args}"
| "send i p t (SendAppend args) = {AppendRequest i p t args}"

definition update_node :: "nat \<Rightarrow> ('c, 's) raft \<Rightarrow> ('c, 's) cluster \<Rightarrow> ('c, 's) cluster" where
  "update_node i rf cl = cl\<lparr>nodes := (nodes cl)(i := rf)\<rparr>"

definition transmit :: "('c, 's) message set \<Rightarrow> ('c, 's) cluster \<Rightarrow> ('c, 's) cluster" where
  "transmit ms cl = cl\<lparr>net := net cl \<union> ms\<rparr>"

text \<open>
  \<open>round\<close>: a call of \<open>sendHeartbeats\<close> reads the term and the commit index, and does not look at
  the role. \<open>heartbeat\<close>: one of its goroutines runs at a later moment, so these may be older than
  those of the state the request is built from.
\<close>

inductive cluster_step :: "nat \<Rightarrow> ('c, 's) cluster \<Rightarrow> ('c, 's) cluster \<Rightarrow> bool" for n where
  timeout: "i < n \<Longrightarrow> election_due now sleep (nodes cl i) \<Longrightarrow>
    startElection (nodes cl i) = Some (rf', reqs) \<Longrightarrow>
    cluster_step n cl (transmit ((\<lambda>(p, a). VoteRequest i p a) ` set reqs) (update_node i rf'
      (cl\<lparr>elections := (elections cl)((i, currentTerm rf') \<mapsto> (1, fst ` set reqs))\<rparr>)))"
| vote: "VoteRequest c v args \<in> net cl \<Longrightarrow> RequestVote args now (nodes cl v) = Some (rf', reply) \<Longrightarrow>
    cluster_step n cl (transmit {VoteReply v c (rvTerm args) reply} (update_node v rf' cl))"
| vote_reply: "VoteReply v c t reply \<in> net cl \<Longrightarrow> elections cl (c, t) = Some (votes, waiting) \<Longrightarrow>
    v \<in> waiting \<Longrightarrow> handleVoteReply t votes reply (nodes cl c) = (rf', votes') \<Longrightarrow>
    cluster_step n cl (update_node c rf'
      (cl\<lparr>elections := (elections cl)((c, t) \<mapsto> (votes', waiting - {v}))\<rparr>))"
| command: "Start cmd (nodes cl i) = (rf', result) \<Longrightarrow> cluster_step n cl (update_node i rf' cl)"
| round: "sendHeartbeats (nodes cl i) = (t, k) \<Longrightarrow>
    cluster_step n cl (cl\<lparr>rounds := insert (i, t, k) (rounds cl)\<rparr>)"
| heartbeat: "(i, t, k) \<in> rounds cl \<Longrightarrow> p < n \<Longrightarrow> p \<noteq> i \<Longrightarrow>
    heartbeatRequest t k p (nodes cl i) = Some out \<Longrightarrow>
    cluster_step n cl (transmit (send i p t out) cl)"
| append: "AppendRequest i p t args \<in> net cl \<Longrightarrow>
    AppendEntries args now (nodes cl p) = Some (rf', reply) \<Longrightarrow>
    cluster_step n cl (transmit {AppendReply p i t args reply} (update_node p rf' cl))"
| append_reply: "AppendReply p i t args reply \<in> net cl \<Longrightarrow>
    handleAppendReply t p args reply (nodes cl i) = Some rf' \<Longrightarrow>
    cluster_step n cl (update_node i rf' cl)"
| install: "SnapshotRequest i p args \<in> net cl \<Longrightarrow>
    InstallSnapshot args now (nodes cl p) = Some (rf', reply) \<Longrightarrow>
    cluster_step n cl (transmit {SnapshotReply p i args reply} (update_node p rf' cl))"
| install_reply: "SnapshotReply p i args reply \<in> net cl \<Longrightarrow>
    handleSnapshotReply p args reply (nodes cl i) = Some rf' \<Longrightarrow>
    cluster_step n cl (update_node i rf' cl)"
| snapshot: "Snapshot index snap (nodes cl i) = Some rf' \<Longrightarrow> cluster_step n cl (update_node i rf' cl)"
| apply_msg: "applyStep inner (nodes cl i) = Some (inner', rf', m) \<Longrightarrow>
    cluster_step n cl (update_node i rf' cl)"
| crash: "cluster_step n cl (update_node i (Make n i (persister (nodes cl i)) now)
    (cl\<lparr>elections := (\<lambda>(c, t). if c = i then map_option (\<lambda>(k, w). (k, {})) (elections cl (c, t))
       else elections cl (c, t)), rounds := {r \<in> rounds cl. fst r \<noteq> i}\<rparr>))"

inductive reachable :: "nat \<Rightarrow> ('c, 's) cluster \<Rightarrow> bool" for n where
  start: "reachable n (initial n now)"
| step: "reachable n cl \<Longrightarrow> cluster_step n cl cl' \<Longrightarrow> reachable n cl'"

section \<open>Votes of one peer, in memory and on stable storage\<close>

text \<open>The term and the vote that a restart would read.\<close>

definition stored :: "('c, 's) raft \<Rightarrow> int \<times> int" where
  "stored rf = (let r = Make 1 0 (persister rf) 0 in (currentTerm r, votedFor r))"

lemma Make_vote:
  "currentTerm (Make n i (persister rf) now) = fst (stored rf)"
  "votedFor (Make n i (persister rf) now) = snd (stored rf)"
  by (auto simp: stored_def Make_def Let_def readPersist_def split: bind_splits option.splits)

lemma stored_encode:
  assumes "raftstate (persister rf') = encode_state rf"
  shows "stored rf' = (currentTerm rf, votedFor rf)"
  using readPersist_encode [OF assms, of 1 0 0] by (simp add: stored_def)

lemma stored_persist [simp]: "stored (persist rf) = (currentTerm rf, votedFor rf)"
  by (rule stored_encode) (simp add: persist_def persistWithSnapshot_def Save_def)

lemma stored_persistWithSnapshot [simp]:
  "stored (persistWithSnapshot s rf) = (currentTerm rf, votedFor rf)"
  by (rule stored_encode) (simp add: persistWithSnapshot_def Save_def)

lemma stored_upd [simp]:
  "stored (rf\<lparr>lastHeartbeat := h\<rparr>) = stored rf" "stored (rf\<lparr>commitIndex := k\<rparr>) = stored rf"
  "stored (rf\<lparr>lastApplied := k\<rparr>) = stored rf" "stored (rf\<lparr>role := r\<rparr>) = stored rf"
  "stored (rf\<lparr>nextIndex := ni\<rparr>) = stored rf" "stored (rf\<lparr>matchIndex := mi\<rparr>) = stored rf"
  "stored (rf\<lparr>pendingSnapshot := p\<rparr>) = stored rf" "stored (rf\<lparr>rlog := l\<rparr>) = stored rf"
  "stored (rf\<lparr>currentTerm := t\<rparr>) = stored rf" "stored (rf\<lparr>votedFor := v\<rparr>) = stored rf"
  by (simp_all add: stored_def)

text \<open>
  \<open>keeps_vote t c rf\<close>: the peer remembers that it voted for \<open>c\<close> in the term \<open>t\<close>, in memory and
  on stable storage, or has left that term behind.
\<close>

definition keeps :: "int \<Rightarrow> nat \<Rightarrow> int \<times> int \<Rightarrow> bool" where
  "keeps t c tv \<longleftrightarrow> t \<le> fst tv \<and> (fst tv = t \<longrightarrow> snd tv = int c)"

definition keeps_vote :: "int \<Rightarrow> nat \<Rightarrow> ('c, 's) raft \<Rightarrow> bool" where
  "keeps_vote t c rf \<longleftrightarrow> keeps t c (currentTerm rf, votedFor rf) \<and> keeps t c (stored rf)"

text \<open>An operation that neither forgets a vote nor makes a leader.\<close>

definition vote_safe :: "('c, 's) raft \<Rightarrow> ('c, 's) raft \<Rightarrow> bool" where
  "vote_safe rf rf' \<longleftrightarrow>
     me rf' = me rf \<and> npeers rf' = npeers rf \<and> currentTerm rf \<le> currentTerm rf'
     \<and> (currentTerm rf' = currentTerm rf \<longrightarrow> votedFor rf' = votedFor rf)
     \<and> (stored rf' = stored rf \<or> stored rf' = (currentTerm rf', votedFor rf'))
     \<and> (role rf' = Leader \<longrightarrow> role rf = Leader \<and> currentTerm rf' = currentTerm rf)"

lemma vote_safe_keeps: "vote_safe rf rf' \<Longrightarrow> keeps_vote t c rf \<Longrightarrow> keeps_vote t c rf'"
  by (auto simp: vote_safe_def keeps_vote_def keeps_def)

lemma vote_safe_refl [simp]: "vote_safe rf rf"
  by (simp add: vote_safe_def)

lemma vote_safe_step_down [simp]: "currentTerm rf < t \<Longrightarrow> vote_safe rf (step_down t rf)"
  by (simp add: vote_safe_def) (simp add: step_down_def)

lemma append_loop_frame:
  "append_loop idx es rf = Some rf' \<Longrightarrow> \<exists>l. rf' = rf\<lparr>rlog := l\<rparr>"
proof (induction idx es rf rule: append_loop.induct)
  case (1 idx rf)
  then have "rf' = rf\<lparr>rlog := rlog rf\<rparr>" by simp
  then show ?case ..
qed (auto split: if_splits bind_splits)

lemma advance_loop_frame:
  "advance_loop n rf = Some rf' \<Longrightarrow> \<exists>c. rf' = rf\<lparr>commitIndex := c\<rparr>"
proof (induction n rf rule: advance_loop.induct)
  case (1 n rf)
  let ?r = "\<lambda>c. if majority (int (npeers rf)) c then rf\<lparr>commitIndex := n\<rparr> else rf"
  from "1.prems" consider (stop) "rf' = rf"
    | (skip) t where "n \<le> lastLogIndex rf" "logTerm rf n = Some t" "t \<noteq> currentTerm rf"
        "advance_loop (n + 1) rf = Some rf'"
    | (count) t c where "n \<le> lastLogIndex rf" "logTerm rf n = Some t" "\<not> t \<noteq> currentTerm rf"
        "count_matches rf n [0..<npeers rf] 1 = Some c" "advance_loop (n + 1) (?r c) = Some rf'"
    by (subst (asm) advance_loop.simps) (simp split: if_splits option.splits)
  then show ?case
  proof cases
    case stop
    then have "rf' = rf\<lparr>commitIndex := commitIndex rf\<rparr>" by simp
    then show ?thesis ..
  next
    case skip
    then show ?thesis by (rule "1.IH"(1))
  next
    case count
    from "1.IH"(2) [OF this] obtain k where "rf' = (?r c)\<lparr>commitIndex := k\<rparr>" ..
    then have "rf' = rf\<lparr>commitIndex := k\<rparr>" by (simp split: if_splits)
    then show ?thesis ..
  qed
qed

lemma RequestVote_result:
  assumes "RequestVote args now rf = Some (rf', reply)"
  shows "if VoteGranted reply
    then me rf' = me rf \<and> npeers rf' = npeers rf \<and> currentTerm rf \<le> rvTerm args
      \<and> currentTerm rf' = rvTerm args \<and> votedFor rf' = int (CandidateId args)
      \<and> stored rf' = (rvTerm args, int (CandidateId args))
      \<and> (currentTerm rf = rvTerm args \<longrightarrow> votedFor rf = -1 \<or> votedFor rf = int (CandidateId args))
      \<and> (role rf' = Leader \<longrightarrow> role rf = Leader \<and> currentTerm rf' = currentTerm rf)
    else vote_safe rf rf'"
  using assms by (auto simp: RequestVote_def Let_def split: if_splits bind_splits)

lemma AppendEntries_vote_safe:
  assumes "AppendEntries args now rf = Some (rf', reply)"
  shows "vote_safe rf rf'"
  using assms
  by (auto simp: AppendEntries_def Let_def vote_safe_def dest!: append_loop_frame split: if_splits bind_splits)

lemma InstallSnapshot_vote_safe:
  assumes "InstallSnapshot args now rf = Some (rf', reply)"
  shows "vote_safe rf rf'"
  using assms
  by (auto simp: InstallSnapshot_def Let_def vote_safe_def split: if_splits bind_splits)

lemma handleAppendReply_vote_safe:
  assumes "handleAppendReply t peer args reply rf = Some rf'"
  shows "vote_safe rf rf'"
proof (cases "role rf \<noteq> Leader \<or> currentTerm rf \<noteq> t")
  case True
  then show ?thesis using assms by (auto simp: handleAppendReply_def)
next
  case False
  define r1 where "r1 = (if aerTerm reply > t then step_down (aerTerm reply) rf else rf)"
  have "vote_safe rf r1" using False by (simp add: r1_def)
  moreover have "me rf' = me r1 \<and> npeers rf' = npeers r1 \<and> currentTerm rf' = currentTerm r1
      \<and> votedFor rf' = votedFor r1 \<and> stored rf' = stored r1 \<and> role rf' = role r1"
    using assms False
    by (auto simp: handleAppendReply_def Let_def r1_def [symmetric] maybeAdvanceCommitIndex_def
        split: if_splits bind_splits dest!: advance_loop_frame)
  ultimately show ?thesis by (simp add: vote_safe_def)
qed

lemma handleSnapshotReply_vote_safe:
  assumes "handleSnapshotReply peer args reply rf = Some rf'"
  shows "vote_safe rf rf'"
  using assms by (auto simp: handleSnapshotReply_def vote_safe_def split: if_splits bind_splits)
    (simp_all add: step_down_def)

lemma Start_vote_safe: "Start cmd rf = (rf', r) \<Longrightarrow> vote_safe rf rf'"
  by (auto simp: Start_def Let_def vote_safe_def split: if_splits)

lemma Snapshot_vote_safe: "Snapshot index snap rf = Some rf' \<Longrightarrow> vote_safe rf rf'"
  by (auto simp: Snapshot_def vote_safe_def split: if_splits bind_splits)

lemma applyStep_vote_safe: "applyStep inner rf = Some (inner', rf', m) \<Longrightarrow> vote_safe rf rf'"
  by (auto simp: applyStep_def Let_def vote_safe_def split: if_splits bind_splits)

section \<open>The invariant\<close>

text \<open>
  \<open>voted cl v t c\<close>: \<open>v\<close> sent a granting reply for the term \<open>t\<close> to \<open>c\<close>, or is the candidate of a
  running election itself.
\<close>

definition voted :: "('c, 's) cluster \<Rightarrow> nat \<Rightarrow> int \<Rightarrow> nat \<Rightarrow> bool" where
  "voted cl v t c \<longleftrightarrow>
     (\<exists>reply. VoteReply v c t reply \<in> net cl \<and> VoteGranted reply) \<or> (v = c \<and> elections cl (c, t) \<noteq> None)"

definition election_ok :: "nat \<Rightarrow> ('c, 's) cluster \<Rightarrow> nat \<Rightarrow> int \<Rightarrow> int \<Rightarrow> nat set \<Rightarrow> bool" where
  "election_ok n cl c t votes waiting \<longleftrightarrow>
     c < n \<and> waiting \<subseteq> {..<n} - {c}
     \<and> (\<exists>V. V \<subseteq> {..<n} \<and> V \<inter> waiting = {} \<and> int (card V) = votes \<and> (\<forall>v \<in> V. voted cl v t c))"

definition elected :: "nat \<Rightarrow> ('c, 's) cluster \<Rightarrow> int \<Rightarrow> nat \<Rightarrow> bool" where
  "elected n cl t c \<longleftrightarrow> 2 \<le> n \<and> (\<exists>V. peer_quorum n V \<and> (\<forall>v \<in> V. voted cl v t c))"

definition cluster_inv :: "nat \<Rightarrow> ('c, 's) cluster \<Rightarrow> bool" where
  "cluster_inv n cl \<longleftrightarrow>
     (\<forall>i. me (nodes cl i) = i \<and> npeers (nodes cl i) = n)
     \<and> (\<forall>c p a. VoteRequest c p a \<in> net cl \<longrightarrow> CandidateId a = c)
     \<and> (\<forall>v t c. voted cl v t c \<longrightarrow> keeps_vote t c (nodes cl v))
     \<and> (\<forall>v t c d. voted cl v t c \<longrightarrow> voted cl v t d \<longrightarrow> c = d)
     \<and> (\<forall>c t votes waiting. elections cl (c, t) = Some (votes, waiting)
          \<longrightarrow> election_ok n cl c t votes waiting)
     \<and> (\<forall>c. role (nodes cl c) = Leader \<longrightarrow> elected n cl (currentTerm (nodes cl c)) c)"

lemma cluster_invD:
  assumes "cluster_inv n cl"
  shows "me (nodes cl i) = i" "npeers (nodes cl i) = n"
    "VoteRequest c p a \<in> net cl \<Longrightarrow> CandidateId a = c"
    "voted cl v t c \<Longrightarrow> keeps_vote t c (nodes cl v)"
    "voted cl v t c \<Longrightarrow> voted cl v t d \<Longrightarrow> c = d"
    "elections cl (c, t) = Some (votes, waiting) \<Longrightarrow> election_ok n cl c t votes waiting"
    "role (nodes cl c) = Leader \<Longrightarrow> elected n cl (currentTerm (nodes cl c)) c"
  using assms unfolding cluster_inv_def by blast+

lemma cluster_invI:
  assumes "\<And>i. me (nodes cl i) = i" and "\<And>i. npeers (nodes cl i) = n"
    and "\<And>c p a. VoteRequest c p a \<in> net cl \<Longrightarrow> CandidateId a = c"
    and "\<And>v t c. voted cl v t c \<Longrightarrow> keeps_vote t c (nodes cl v)"
    and "\<And>v t c d. voted cl v t c \<Longrightarrow> voted cl v t d \<Longrightarrow> c = d"
    and "\<And>c t votes waiting. elections cl (c, t) = Some (votes, waiting) \<Longrightarrow>
      election_ok n cl c t votes waiting"
    and "\<And>c. role (nodes cl c) = Leader \<Longrightarrow> elected n cl (currentTerm (nodes cl c)) c"
  shows "cluster_inv n cl"
  unfolding cluster_inv_def by (intro conjI allI impI; (rule assms; assumption))

lemma cluster_sel [simp]:
  "nodes (update_node i rf cl) = (nodes cl)(i := rf)" "elections (update_node i rf cl) = elections cl"
  "net (update_node i rf cl) = net cl" "nodes (transmit ms cl) = nodes cl"
  "elections (transmit ms cl) = elections cl" "net (transmit ms cl) = net cl \<union> ms"
  "rounds (update_node i rf cl) = rounds cl" "rounds (transmit ms cl) = rounds cl"
  by (simp_all add: update_node_def transmit_def)

lemma transmit_nothing [simp]: "transmit {} cl = cl"
  by (simp add: transmit_def)

text \<open>More votes never invalidate an election.\<close>

lemma election_ok_mono:
  assumes "election_ok n cl c t votes waiting" and "\<And>v. voted cl v t c \<Longrightarrow> voted cl' v t c"
  shows "election_ok n cl' c t votes waiting"
proof -
  obtain V where "V \<subseteq> {..<n}" "V \<inter> waiting = {}" "int (card V) = votes" "\<forall>v \<in> V. voted cl v t c"
    using assms(1) by (auto simp: election_ok_def)
  then show ?thesis
    using assms unfolding election_ok_def by (intro conjI exI [of _ V]) simp_all
qed

lemma elected_mono:
  assumes "elected n cl t c" and "\<And>v. voted cl v t c \<Longrightarrow> voted cl' v t c"
  shows "elected n cl' t c"
  using assms unfolding elected_def by blast

definition no_votes :: "('c, 's) message set \<Rightarrow> bool" where
  "no_votes ms \<longleftrightarrow>
     (\<forall>c p a. VoteRequest c p a \<notin> ms) \<and> (\<forall>v c t r. VoteReply v c t r \<in> ms \<longrightarrow> \<not> VoteGranted r)"

lemma inv_vote_safe:
  assumes inv: "cluster_inv n cl" and safe: "vote_safe (nodes cl i) rf'" and ms: "no_votes ms"
  shows "cluster_inv n (transmit ms (update_node i rf' cl))"
proof -
  define cl' where "cl' = transmit ms (update_node i rf' cl)"
  have sel: "nodes cl' = (nodes cl)(i := rf')" "elections cl' = elections cl" "net cl' = net cl \<union> ms"
    by (simp_all add: cl'_def)
  have v: "voted cl' = voted cl"
    using ms by (intro ext) (auto simp: voted_def no_votes_def sel)
  note d = cluster_invD [OF inv]
  show ?thesis
    unfolding cl'_def [symmetric]
  proof (rule cluster_invI, unfold v)
    show "keeps_vote t c (nodes cl' u)" if "voted cl u t c" for u t c
      using d(4) [OF that] vote_safe_keeps [OF safe, of t c] by (cases "u = i") (simp_all add: sel)
    show "c = e" if "voted cl u t c" "voted cl u t e" for u t c e using d(5) [OF that] .
    show "election_ok n cl' c t k w" if "elections cl' (c, t) = Some (k, w)" for c t k w
      using that election_ok_mono [OF d(6), of c t k w cl'] by (simp add: v sel)
    show "elected n cl' (currentTerm (nodes cl' c)) c" if "role (nodes cl' c) = Leader" for c
      using that safe elected_mono [OF d(7) [of c], of cl']
      by (auto simp: v sel vote_safe_def split: if_splits)
  qed (use d(1-3) safe ms in \<open>auto simp: sel no_votes_def vote_safe_def\<close>)
qed

lemma startElection_result:
  assumes "startElection rf = Some (rf', reqs)"
  shows "me rf' = me rf \<and> npeers rf' = npeers rf \<and> currentTerm rf' = currentTerm rf + 1
    \<and> votedFor rf' = int (me rf) \<and> role rf' = Candidate \<and> stored rf' = (currentTerm rf + 1, int (me rf))
    \<and> fst ` set reqs = {i. i < npeers rf \<and> i \<noteq> me rf}
    \<and> (\<forall>(p, a) \<in> set reqs. CandidateId a = me rf)"
  using assms
  by (auto simp: startElection_def Let_def filter_empty_conv image_image split: if_splits bind_splits)

lemma inv_timeout:
  assumes inv: "cluster_inv n cl" and i: "i < n" and el: "startElection (nodes cl i) = Some (rf', reqs)"
  shows "cluster_inv n (transmit ((\<lambda>(p, a). VoteRequest i p a) ` set reqs) (update_node i rf'
    (cl\<lparr>elections := (elections cl)((i, currentTerm rf') \<mapsto> (1, fst ` set reqs))\<rparr>)))"
    (is "cluster_inv n ?cl")
proof -
  define cl' where "cl' = ?cl"
  note r = startElection_result [OF el] and d = cluster_invD [OF inv]
  let ?t = "currentTerm (nodes cl i) + 1"
  have sel: "nodes cl' = (nodes cl)(i := rf')"
    "elections cl' = (elections cl)((i, ?t) \<mapsto> (1, {j. j < n \<and> j \<noteq> i}))"
    "net cl' = net cl \<union> (\<lambda>(p, a). VoteRequest i p a) ` set reqs"
    using r d(1,2) [of i] by (simp_all add: cl'_def)
  have v: "voted cl' v t c \<longleftrightarrow> voted cl v t c \<or> (v = i \<and> c = i \<and> t = ?t)" for v t c
    by (auto simp: voted_def sel)
  have new: "\<not> voted cl i ?t c" for c
    using d(4) [of i ?t c] by (auto simp: keeps_vote_def keeps_def)
  show ?thesis
    unfolding cl'_def [symmetric]
  proof (rule cluster_invI)
    show "keeps_vote t c (nodes cl' v)" if "voted cl' v t c" for v t c
      using that r d(1) [of i] d(4) [of v t c] by (cases "v = i") (auto simp: v sel keeps_vote_def keeps_def)
    show "c = e" if "voted cl' v t c" "voted cl' v t e" for v t c e
      using that d(5) new by (auto simp: v)
    show "election_ok n cl' c t k w" if el': "elections cl' (c, t) = Some (k, w)" for c t k w
    proof (cases "(c, t) = (i, ?t)")
      case True
      then have "k = 1" "w = {j. j < n \<and> j \<noteq> i}" using el' by (auto simp: sel)
      with True i show ?thesis
        by (auto simp: election_ok_def v intro!: exI [of _ "{i}"])
    next
      case False
      then have "elections cl (c, t) = Some (k, w)" using el' by (auto simp: sel)
      from election_ok_mono [OF d(6) [OF this], of cl'] show ?thesis by (simp add: v)
    qed
    show "elected n cl' (currentTerm (nodes cl' c)) c" if "role (nodes cl' c) = Leader" for c
    proof -
      have "c \<noteq> i" "role (nodes cl c) = Leader" using that r by (auto simp: sel split: if_splits)
      with elected_mono [OF d(7), of c cl'] show ?thesis by (simp add: v sel)
    qed
  qed (use d(1-3) r in \<open>auto simp: sel\<close>)
qed

lemma inv_vote:
  assumes inv: "cluster_inv n cl" and req: "VoteRequest c v args \<in> net cl"
    and vote: "RequestVote args now (nodes cl v) = Some (rf', reply)"
  shows "cluster_inv n (transmit {VoteReply v c (rvTerm args) reply} (update_node v rf' cl))"
    (is "cluster_inv n ?cl")
proof (cases "VoteGranted reply")
  case False
  with RequestVote_result [OF vote] show ?thesis
    by (intro inv_vote_safe [OF inv]) (auto simp: no_votes_def)
next
  case True
  define cl' where "cl' = ?cl"
  have sel: "nodes cl' = (nodes cl)(v := rf')" "elections cl' = elections cl"
    "net cl' = insert (VoteReply v c (rvTerm args) reply) (net cl)"
    by (auto simp: cl'_def)
  note d = cluster_invD [OF inv]
  let ?t = "rvTerm args"
  have c: "CandidateId args = c" using d(3) [OF req] .
  note r = RequestVote_result [OF vote, simplified True if_True c]
  have v: "voted cl' u t e \<longleftrightarrow> voted cl u t e \<or> (u = v \<and> t = ?t \<and> e = c)" for u t e
    using True by (auto simp: voted_def sel)
  have new: "e = c" if "voted cl v ?t e" for e
    using d(4) [OF that] r by (auto simp: keeps_vote_def keeps_def)
  have keep: "keeps_vote t e rf'" if "voted cl v t e" for t e
    using d(4) [OF that] r new [of e] that by (cases "t = ?t") (auto simp: keeps_vote_def keeps_def)
  show ?thesis
    unfolding cl'_def [symmetric]
  proof (rule cluster_invI)
    show "keeps_vote t e (nodes cl' u)" if "voted cl' u t e" for u t e
      using that keep r d(4) [of u t e] by (cases "u = v") (auto simp: v sel keeps_vote_def keeps_def)
    show "e = f" if "voted cl' u t e" "voted cl' u t f" for u t e f
      using that d(5) new by (auto simp: v)
    show "election_ok n cl' e t k w" if "elections cl' (e, t) = Some (k, w)" for e t k w
      using that election_ok_mono [OF d(6), of e t k w cl'] by (simp add: v sel)
    show "elected n cl' (currentTerm (nodes cl' e)) e" if "role (nodes cl' e) = Leader" for e
    proof -
      have "role (nodes cl e) = Leader \<and> currentTerm (nodes cl' e) = currentTerm (nodes cl e)"
        using that r by (cases "e = v") (auto simp: sel)
      with elected_mono [OF d(7), of e cl'] show ?thesis by (simp add: v)
    qed
  qed (use d(1-3) r in \<open>auto simp: sel\<close>)
qed

lemma handleVoteReply_result:
  assumes "handleVoteReply t votes reply rf = (rf', votes')"
  shows "votes' = votes \<and> vote_safe rf rf'
    \<or> votes' = votes + 1 \<and> VoteGranted reply \<and> vote_safe rf rf'
    \<or> votes' = votes + 1 \<and> VoteGranted reply \<and> rf' = becomeLeader rf
      \<and> currentTerm rf = t \<and> role rf = Candidate \<and> majority (int (npeers rf)) votes'"
  using assms by (auto simp: handleVoteReply_def Let_def split: if_splits)

lemma election_ok_more:
  assumes "election_ok n cl c t votes waiting" and "v \<in> waiting" and "voted cl v t c"
  shows "election_ok n cl c t (votes + 1) (waiting - {v})"
proof -
  obtain V where V: "V \<subseteq> {..<n}" "V \<inter> waiting = {}" "int (card V) = votes" "\<forall>v \<in> V. voted cl v t c"
    using assms(1) by (auto simp: election_ok_def)
  have "finite V" "v \<notin> V" "v < n" using V assms(1,2) by (auto simp: election_ok_def intro: finite_subset)
  then have "insert v V \<subseteq> {..<n}" "insert v V \<inter> (waiting - {v}) = {}" "int (card (insert v V)) = votes + 1"
    using V by auto
  moreover have "\<forall>u \<in> insert v V. voted cl u t c" using V(4) assms(3) by blast
  ultimately show ?thesis using assms(1) unfolding election_ok_def by blast
qed

lemma election_ok_fewer:
  "election_ok n cl c t votes waiting \<Longrightarrow> election_ok n cl c t votes (waiting - {v})"
  unfolding election_ok_def by blast

lemma election_ok_elected:
  assumes "election_ok n cl c t votes waiting" and "majority (int n) votes" and "2 \<le> n"
  shows "elected n cl t c"
  using assms unfolding election_ok_def elected_def peer_quorum_def by blast

lemma inv_vote_reply:
  assumes inv: "cluster_inv n cl" and rep: "VoteReply v c t reply \<in> net cl"
    and el: "elections cl (c, t) = Some (votes, waiting)" and v: "v \<in> waiting"
    and h: "handleVoteReply t votes reply (nodes cl c) = (rf', votes')"
  shows "cluster_inv n (update_node c rf'
    (cl\<lparr>elections := (elections cl)((c, t) \<mapsto> (votes', waiting - {v}))\<rparr>))" (is "cluster_inv n ?cl")
proof -
  define cl' where "cl' = ?cl"
  have sel: "nodes cl' = (nodes cl)(c := rf')"
    "elections cl' = (elections cl)((c, t) \<mapsto> (votes', waiting - {v}))" "net cl' = net cl"
    by (auto simp: cl'_def)
  note d = cluster_invD [OF inv] and ok = cluster_invD(6) [OF inv el]
  have n: "2 \<le> n" using ok v by (auto simp: election_ok_def)
  have vd: "voted cl' = voted cl" using el by (intro ext) (auto simp: voted_def sel)
  have vt: "VoteGranted reply \<Longrightarrow> voted cl v t c" using rep by (auto simp: voted_def)
  have ok': "election_ok n cl c t votes' (waiting - {v})"
    using handleVoteReply_result [OF h] election_ok_more [OF ok v] election_ok_fewer [OF ok] vt
    by blast
  have keep: "keeps_vote s e rf'" if "keeps_vote s e (nodes cl c)" for s e
    using handleVoteReply_result [OF h] that vote_safe_keeps
    by (auto simp: keeps_vote_def becomeLeader_def)
  have lead: "elected n cl (currentTerm rf') c" if "role rf' = Leader"
    using handleVoteReply_result [OF h] that d(2,7) [of c] election_ok_elected [OF ok' _ n]
    by (auto simp: vote_safe_def becomeLeader_def)
  have me: "me rf' = c" "npeers rf' = n"
    using handleVoteReply_result [OF h] d(1,2) [of c] by (auto simp: vote_safe_def becomeLeader_def)
  show ?thesis
    unfolding cl'_def [symmetric]
  proof (rule cluster_invI, unfold vd)
    show "keeps_vote s e (nodes cl' u)" if "voted cl u s e" for u s e
      using d(4) [OF that] keep [of s e] by (cases "u = c") (simp_all add: sel)
    show "e = f" if "voted cl u s e" "voted cl u s f" for u s e f using d(5) [OF that] .
    show "election_ok n cl' e s k w" if "elections cl' (e, s) = Some (k, w)" for e s k w
      using that election_ok_mono [OF ok', of cl'] election_ok_mono [OF d(6), of e s k w cl']
      by (auto simp: vd sel split: if_splits)
    show "elected n cl' (currentTerm (nodes cl' e)) e" if "role (nodes cl' e) = Leader" for e
      using that elected_mono [OF d(7) [of e], of cl'] elected_mono [OF lead, of cl']
      by (auto simp: vd sel split: if_splits)
  qed (use d(1-3) me in \<open>auto simp: sel\<close>)
qed

lemma inv_crash:
  assumes inv: "cluster_inv n cl"
  shows "cluster_inv n (update_node i (Make n i (persister (nodes cl i)) now)
    (cl\<lparr>elections := (\<lambda>(c, t). if c = i then map_option (\<lambda>(k, w). (k, {})) (elections cl (c, t))
       else elections cl (c, t)), rounds := {r \<in> rounds cl. fst r \<noteq> i}\<rparr>))" (is "cluster_inv n ?cl")
proof -
  define cl' where "cl' = ?cl"
  have sel: "nodes cl' = (nodes cl)(i := Make n i (persister (nodes cl i)) now)"
    "elections cl' (c, t) = (if c = i then map_option (\<lambda>(k, w). (k, {})) (elections cl (c, t))
       else elections cl (c, t))" "net cl' = net cl" for c t
    by (auto simp: cl'_def)
  note d = cluster_invD [OF inv]
  let ?rf = "Make n i (persister (nodes cl i)) now"
  have mk: "me ?rf = i" "npeers ?rf = n" "role ?rf = Follower" "persister ?rf = persister (nodes cl i)"
    by (auto simp: Make_def Let_def readPersist_def split: bind_splits option.splits)
  have st: "stored ?rf = stored (nodes cl i)" by (simp add: stored_def mk)
  have v: "voted cl' = voted cl" by (intro ext) (auto simp: voted_def sel)
  have ok: "election_ok n cl c t k {}" if "election_ok n cl c t k w" for c t k w
    using that unfolding election_ok_def by blast
  show ?thesis
    unfolding cl'_def [symmetric]
  proof (rule cluster_invI, unfold v)
    show "keeps_vote t c (nodes cl' u)" if "voted cl u t c" for u t c
      using d(4) [OF that] st by (auto simp: sel keeps_vote_def keeps_def Make_vote)
    show "e = f" if "voted cl u s e" "voted cl u s f" for u s e f
      using d(5) that by blast
    show "election_ok n cl' e s k w" if "elections cl' (e, s) = Some (k, w)" for e s k w
    proof -
      have "election_ok n cl e s k w" using that d(6) ok by (fastforce simp: sel split: if_splits)
      then show ?thesis by (rule election_ok_mono) (simp add: v)
    qed
    show "elected n cl' (currentTerm (nodes cl' e)) e" if "role (nodes cl' e) = Leader" for e
      using that elected_mono [OF d(7) [of e], of cl'] v mk by (auto simp: sel split: if_splits)
  qed (use d(1-3) mk in \<open>auto simp: sel\<close>)
qed

lemma inv_initial: "cluster_inv n (initial n now)"
  by (rule cluster_invI)
    (auto simp: initial_def voted_def Make_def Let_def readPersist_def MakePersister_def ReadRaftState_def)

lemma send_no_votes: "no_votes (send i p t out)"
  by (cases out) (simp_all add: no_votes_def)

lemma inv_update:
  assumes "cluster_inv n cl" and "vote_safe (nodes cl i) rf'"
  shows "cluster_inv n (update_node i rf' cl)"
  using inv_vote_safe [OF assms, of "{}"] by (simp add: no_votes_def)

lemma inv_send:
  assumes "cluster_inv n cl"
  shows "cluster_inv n (transmit (send i p t out) cl)"
proof -
  have "update_node i (nodes cl i) cl = cl" by (simp add: update_node_def)
  with inv_vote_safe [where ms = "send i p t out" and i = i, OF assms vote_safe_refl send_no_votes]
  show ?thesis by simp
qed

lemma inv_rounds:
  assumes "cluster_inv n cl"
  shows "cluster_inv n (cl\<lparr>rounds := R\<rparr>)"
proof -
  have "voted (cl\<lparr>rounds := R\<rparr>) = voted cl" by (simp add: voted_def fun_eq_iff)
  then show ?thesis using assms unfolding cluster_inv_def election_ok_def elected_def by simp
qed

lemma inv_step:
  assumes "cluster_step n cl cl'" and inv: "cluster_inv n cl"
  shows "cluster_inv n cl'"
  using assms(1)
proof cases
  case append
  then show ?thesis
    by (auto intro!: inv_vote_safe [OF inv] AppendEntries_vote_safe simp: no_votes_def)
next
  case install
  then show ?thesis
    by (auto intro!: inv_vote_safe [OF inv] InstallSnapshot_vote_safe simp: no_votes_def)
qed (use inv in \<open>auto intro: inv_timeout inv_vote inv_vote_reply inv_crash inv_send inv_rounds
    inv_update [OF inv] Start_vote_safe handleAppendReply_vote_safe handleSnapshotReply_vote_safe
    Snapshot_vote_safe applyStep_vote_safe\<close>)

lemma reachable_inv: "reachable n cl \<Longrightarrow> cluster_inv n cl"
  by (induction rule: reachable.induct) (auto intro: inv_initial inv_step)

section \<open>A run that elects a leader\<close>

text \<open>Peer 0 of three times out, peer 1 votes for it, and the reply makes it the leader.\<close>

definition demo_candidate :: "('c :: equal, 's :: equal) raft" where
  "demo_candidate = persist ((Make 3 0 MakePersister 0)\<lparr>role := Candidate, currentTerm := 1, votedFor := 0\<rparr>)"

definition demo_request_vote :: RequestVoteArgs where
  "demo_request_vote = \<lparr>rvTerm = 1, CandidateId = 0, LastLogIndex = 0, LastLogTerm = 0\<rparr>"

definition demo_voter :: "('c :: equal, 's :: equal) raft" where
  "demo_voter =
     (persist ((step_down 1 (Make 3 1 MakePersister 0))\<lparr>votedFor := 0\<rparr>))\<lparr>lastHeartbeat := 5\<rparr>"

definition demo_grant :: RequestVoteReply where
  "demo_grant = \<lparr>rvrTerm = 0, VoteGranted = True\<rparr>"

definition demo_c1 :: "('c :: equal, 's :: equal) cluster" where
  "demo_c1 = transmit ((\<lambda>(p, a). VoteRequest 0 p a) ` set [(1, demo_request_vote), (2, demo_request_vote)])
     (update_node 0 demo_candidate ((initial 3 0)\<lparr>elections := (elections (initial 3 0 :: ('c, 's) cluster))
       ((0, currentTerm (demo_candidate :: ('c, 's) raft)) \<mapsto> (1, fst ` set [(1, demo_request_vote), (2, demo_request_vote)]))\<rparr>))"

definition demo_c2 :: "('c :: equal, 's :: equal) cluster" where
  "demo_c2 = transmit {VoteReply 1 0 (rvTerm demo_request_vote) demo_grant} (update_node 1 demo_voter demo_c1)"

definition demo_c3 :: "('c :: equal, 's :: equal) cluster" where
  "demo_c3 = update_node 0 (becomeLeader demo_candidate)
     (demo_c2\<lparr>elections := (elections (demo_c2 :: ('c, 's) cluster))((0, 1) \<mapsto> (2, {1, 2} - {1}))\<rparr>)"

lemma demo_step1: "cluster_step 3 (initial 3 0) demo_c1"
  unfolding demo_c1_def
proof (rule cluster_step.timeout)
  show "election_due 300 300 (nodes (initial 3 0 :: ('c, 's) cluster) 0)"
    by (simp add: election_due_def initial_def demo_defs)
  have upt3: "[0..<3] = [0, 1, 2 :: nat]" by code_simp
  show "startElection (nodes (initial 3 0) 0)
      = Some (demo_candidate, [(1, demo_request_vote), (2, demo_request_vote)])"
    by (simp add: initial_def startElection_def demo_candidate_def demo_request_vote_def demo_defs
        logTerm_def lastLogIndex_def upt3)
qed simp

lemma demo_step2: "cluster_step 3 demo_c1 demo_c2"
  unfolding demo_c2_def
proof (rule cluster_step.vote)
  show "VoteRequest 0 1 demo_request_vote \<in> net demo_c1" by (simp add: demo_c1_def)
  show "RequestVote demo_request_vote 5 (nodes demo_c1 1) = Some (demo_voter, demo_grant)"
    by (simp add: demo_c1_def initial_def RequestVote_def demo_voter_def demo_grant_def
        demo_request_vote_def demo_defs logTerm_def lastLogIndex_def)
qed

lemma demo_step3: "cluster_step 3 demo_c2 demo_c3"
  unfolding demo_c3_def
proof (rule cluster_step.vote_reply)
  show "VoteReply 1 0 1 demo_grant \<in> net demo_c2" by (simp add: demo_c2_def demo_request_vote_def)
  show "elections demo_c2 (0, 1) = Some (1, {1, 2})"
    by (simp add: demo_c2_def demo_c1_def demo_candidate_def)
  show "handleVoteReply 1 1 demo_grant (nodes demo_c2 0) = (becomeLeader demo_candidate, 2)"
    by (simp add: demo_c2_def demo_c1_def handleVoteReply_def demo_grant_def demo_candidate_def
        majority_def demo_defs)
qed simp

lemma demo_reachable: "reachable 3 demo_c3" "reachable 3 demo_c2"
  by (blast intro: reachable.intros demo_step1 demo_step2 demo_step3)+

section \<open>Election safety\<close>



text \<open>
  A vote is never forgotten: a peer that sent a granting reply for a term is, in every
  reachable state, past that term or still has that vote, in memory and on stable storage.
\<close>

theorem votes_are_durable:
  assumes "reachable n cl" and "VoteReply v c t reply \<in> net cl" and "VoteGranted reply"
  shows "(t < currentTerm (nodes cl v) \<or> (currentTerm (nodes cl v) = t \<and> votedFor (nodes cl v) = int c))
    \<and> (t < fst (stored (nodes cl v)) \<or> stored (nodes cl v) = (t, int c))"
proof -
  have "voted cl v t c" using assms(2,3) by (auto simp: voted_def)
  from cluster_invD(4) [OF reachable_inv [OF assms(1)] this] show ?thesis
    by (cases "stored (nodes cl v)") (auto simp: keeps_vote_def keeps_def)
qed

theorem votes_are_durable_witness:
  "reachable 3 (demo_c2 :: (nat, nat) cluster) \<and> VoteReply 1 0 1 demo_grant \<in> net (demo_c2 :: (nat, nat) cluster)
   \<and> (1 < fst (stored (nodes (demo_c2 :: (nat, nat) cluster) 1)) \<or> stored (nodes (demo_c2 :: (nat, nat) cluster) 1) = (1, 0))"
proof -
  have "VoteReply 1 0 1 demo_grant \<in> net (demo_c2 :: (nat, nat) cluster)" "VoteGranted demo_grant"
    by (simp_all add: demo_c2_def demo_request_vote_def demo_grant_def)
  with votes_are_durable [OF demo_reachable(2) this] demo_reachable(2) show ?thesis by simp
qed

text \<open>
  C37. A cluster of a single peer never has a leader: the votes are counted only in the goroutines
  that wait for the replies of the other peers, and there are none.
\<close>

theorem single_peer_never_leads:
  assumes "reachable 1 cl"
  shows "role (nodes cl i) \<noteq> Leader"
  using cluster_invD(7) [OF reachable_inv [OF assms]] by (auto simp: elected_def)

theorem single_peer_never_leads_witness:
  "reachable 1 (initial 1 0 :: (nat, nat) cluster)
   \<and> role (nodes (initial 1 0 :: (nat, nat) cluster) 0) \<noteq> Leader"
  using single_peer_never_leads [OF reachable.start] reachable.start by blast

end
