(* ===== verification/Raft_Logs.thy ===== *)
theory Raft_Logs
  imports Raft_Cluster
begin

text \<open>
  Logs as values. The log of a peer counts from index 0, whatever part of it the peer has cut off
  (\<open>cut_log\<close>). \<open>G\<close> maps a term to the log that its leader has, or had when it lost the lead; a log
  \<open>grows\<close> out of \<open>G\<close> when every entry comes, with all entries before it, from the leader of its term.
\<close>

section \<open>Logs that grow out of the logs of leaders\<close>

abbreviation first_entry :: "'c LogEntry" where
  "first_entry \<equiv> \<lparr>leTerm = 0, leCommand = None\<rparr>"

definition grows :: "(int \<rightharpoonup> 'c LogEntry list) \<Rightarrow> 'c LogEntry list \<Rightarrow> bool" where
  "grows G L \<longleftrightarrow>
     (\<exists>es. L = first_entry # es)
     \<and> (\<forall>k. 0 < k \<and> k < length L \<longrightarrow>
          (\<exists>P. G (leTerm (L ! k)) = Some P \<and> k < length P \<and> take (Suc k) L = take (Suc k) P))"

definition extends :: "(int \<rightharpoonup> 'c LogEntry list) \<Rightarrow> (int \<rightharpoonup> 'c LogEntry list) \<Rightarrow> bool" where
  "extends G G' \<longleftrightarrow> (\<forall>T P. G T = Some P \<longrightarrow> (\<exists>es. G' T = Some (P @ es)))"

lemma growsD:
  "grows G L \<Longrightarrow> 0 < k \<Longrightarrow> k < length L \<Longrightarrow>
   \<exists>P. G (leTerm (L ! k)) = Some P \<and> k < length P \<and> take (Suc k) L = take (Suc k) P"
  by (simp add: grows_def)

lemma extends_refl: "extends G G"
  unfolding extends_def by (metis append_Nil2)

lemma grows_extends: "grows G L \<Longrightarrow> extends G G' \<Longrightarrow> grows G' L"
  unfolding grows_def extends_def by (fastforce simp: take_append)

lemma grows_take:
  assumes "grows G L" and "0 < m"
  shows "grows G (take m L)"
proof -
  obtain es where "L = first_entry # es" using assms(1) by (auto simp: grows_def)
  then have "\<exists>es. take m L = first_entry # es" using assms(2) by (cases m) auto
  moreover have "\<exists>P. G (leTerm (take m L ! k)) = Some P \<and> k < length P \<and> take (Suc k) (take m L) = take (Suc k) P"
    if "0 < k" "k < length (take m L)" for k
  proof -
    have "k < m" "k < length L" using that(2) by simp_all
    then have "take m L ! k = L ! k" "take (Suc k) (take m L) = take (Suc k) L" by (simp_all add: min_def)
    with growsD [OF assms(1) that(1) \<open>k < length L\<close>] show ?thesis by simp
  qed
  ultimately show ?thesis unfolding grows_def by blast
qed

lemma grows_snoc:
  assumes "grows G L" and "extends G G'" and "G' (leTerm e) = Some (L @ [e])"
  shows "grows G' (L @ [e])"
  using grows_extends [OF assms(1,2)] assms(3) unfolding grows_def
  by (auto simp: nth_append less_Suc_eq)

text \<open>Two such logs that agree on the term of an entry agree up to it.\<close>

lemma grows_agree:
  assumes "grows G L" and "grows G M" and "k < length L" and "k < length M"
    and "leTerm (L ! k) = leTerm (M ! k)"
  shows "take (Suc k) L = take (Suc k) M"
proof (cases "k = 0")
  case True
  then show ?thesis using assms(1,2) by (auto simp: grows_def)
next
  case False
  with assms(1,3) obtain P where "G (leTerm (L ! k)) = Some P" "take (Suc k) L = take (Suc k) P"
    unfolding grows_def by blast
  moreover from False assms(2,4) obtain Q where "G (leTerm (M ! k)) = Some Q" "take (Suc k) M = take (Suc k) Q"
    unfolding grows_def by blast
  ultimately show ?thesis using assms(5) by simp
qed

section \<open>Merging a segment of a leader's log\<close>

definition segment :: "'c LogEntry list \<Rightarrow> 'c AppendEntriesArgs \<Rightarrow> bool" where
  "segment P args \<longleftrightarrow>
     0 \<le> PrevLogIndex args \<and> PrevLogIndex args + int (length (Entries args)) < int (length P)
     \<and> PrevLogTerm args = leTerm (P ! nat (PrevLogIndex args))
     \<and> Entries args = take (length (Entries args)) (drop (Suc (nat (PrevLogIndex args))) P)"

lemma segment_append: "segment P args \<Longrightarrow> segment (P @ es) args"
  by (auto simp: segment_def nth_append)

lemma merge_entries_end: "merge_entries own es = own \<or> length (merge_entries own es) = length es"
  by (induction own es rule: merge_entries.induct) auto

lemma grows_merge:
  assumes L: "grows G L" and P: "grows G P" and len: "Suc p + length es \<le> length P"
    and es: "es = take (length es) (drop (Suc p) P)" and p: "p < length L" and t: "leTerm (L ! p) = leTerm (P ! p)"
  shows "grows G (take (Suc p) L @ merge_entries (drop (Suc p) L) es)"
proof -
  let ?own = "drop (Suc p) L" and ?m = "Suc p + length es"
  have pre: "take (Suc p) L = take (Suc p) P" using grows_agree [OF L P p _ t] len by simp
  have "?own ! i = es ! i" if "i < length ?own" "i < length es" "leTerm (?own ! i) = leTerm (es ! i)" for i
  proof -
    have e: "es ! i = P ! (Suc p + i)" using that(2) len es by (metis add_leD1 nth_drop nth_take)
    have "take (Suc (Suc p + i)) L = take (Suc (Suc p + i)) P"
      using that len e by (intro grows_agree [OF L P]) auto
    then have "L ! (Suc p + i) = P ! (Suc p + i)" by (metis lessI nth_take)
    with e that(1) show ?thesis by simp
  qed
  then have same: "take (length es) (merge_entries ?own es) = es" by (rule merge_entries_same)
  show ?thesis
  proof (cases "merge_entries ?own es = ?own")
    case True
    then show ?thesis using L by simp
  next
    case False
    then have "merge_entries ?own es = es" using merge_entries_end [of ?own es] same by auto
    moreover have "take (Suc p) P @ es = take ?m P" using es by (metis take_add)
    ultimately show ?thesis using pre grows_take [OF P, of ?m] by simp
  qed
qed

definition entry :: "(int \<rightharpoonup> 'c LogEntry list) \<Rightarrow> int \<Rightarrow> nat \<Rightarrow> bool" where
  "entry G T m \<longleftrightarrow> (\<exists>P. G T = Some P \<and> m < length P \<and> leTerm (P ! m) = T)"

definition holds :: "(int \<rightharpoonup> 'c LogEntry list) \<Rightarrow> int \<Rightarrow> nat \<Rightarrow> 'c LogEntry list \<Rightarrow> bool" where
  "holds G T m L \<longleftrightarrow> (\<exists>P. G T = Some P \<and> m < length P \<and> m < length L \<and> take (Suc m) L = take (Suc m) P)"

text \<open>A later leader does not have the entry \<open>m\<close> of the leader of the term \<open>T\<close>.\<close>

definition lost :: "(int \<rightharpoonup> 'c LogEntry list) \<Rightarrow> int \<Rightarrow> nat \<Rightarrow> bool" where
  "lost G T m \<longleftrightarrow> (\<exists>T' Q. T < T' \<and> G T' = Some Q \<and> \<not> holds G T m Q)"

text \<open>A log holds the entry and ends in its term or a later one, or the entry is lost.\<close>

definition kept :: "(int \<rightharpoonup> 'c LogEntry list) \<Rightarrow> int \<Rightarrow> nat \<Rightarrow> 'c LogEntry list \<Rightarrow> bool" where
  "kept G T m L \<longleftrightarrow> holds G T m L \<and> T \<le> leTerm (last L) \<or> lost G T m"

definition terms_ok :: "int \<Rightarrow> 'c LogEntry list \<Rightarrow> bool" where
  "terms_ok T P \<longleftrightarrow> sorted (map leTerm P) \<and> (\<forall>e \<in> set P. leTerm e \<le> T)"

lemma entry_extends: "entry G T m \<Longrightarrow> extends G G' \<Longrightarrow> entry G' T m"
  unfolding entry_def extends_def by (fastforce simp: nth_append)

lemma holds_extends: "holds G T m L \<Longrightarrow> extends G G' \<Longrightarrow> holds G' T m L"
  unfolding holds_def extends_def by (fastforce simp: take_append)

lemma holds_cong: "holds G T m L \<Longrightarrow> G' T = G T \<Longrightarrow> holds G' T m L"
  by (simp add: holds_def)

lemma holds_append: "holds G T m L \<Longrightarrow> holds G T m (L @ es)"
  unfolding holds_def by fastforce

lemma holds_le: "holds G T m L \<Longrightarrow> k \<le> m \<Longrightarrow> holds G T k L"
  unfolding holds_def by (metis Suc_le_mono le_less_trans min_absorb1 take_take)

lemma holds_self: "G T = Some P \<Longrightarrow> m < length P \<Longrightarrow> holds G T m P"
  by (simp add: holds_def)

lemma holds_agree: "holds G T m L \<Longrightarrow> holds G T m M \<Longrightarrow> take (Suc m) L = take (Suc m) M"
  by (auto simp: holds_def)

text \<open>Logs that hold the same entry, of which one has more entries.\<close>

lemma holds_trans:
  assumes "holds G T m L" and "k < length L" and "k < length M" and "take (Suc k) L = take (Suc k) M" and "m \<le> k"
  shows "holds G T m M"
proof -
  have "take (Suc m) L = take (Suc m) M" using assms(4,5) by (metis Suc_le_mono min_absorb1 take_take)
  then show ?thesis using assms by (auto simp: holds_def)
qed

lemma holds_term: "entry G T m \<Longrightarrow> holds G T m L \<Longrightarrow> m < length L \<and> leTerm (L ! m) = T"
  unfolding entry_def holds_def by (metis lessI nth_take option.inject)

text \<open>What the peer that merges a segment of a leader's log keeps and what it gets.\<close>

lemma merge_segment:
  assumes L: "grows G L" and P: "grows G P" and seg: "segment P args"
    and p: "PrevLogIndex args < int (length L)" "leTerm (L ! nat (PrevLogIndex args)) = PrevLogTerm args"
  defines "k \<equiv> Suc (nat (PrevLogIndex args))"
  defines "L' \<equiv> take k L @ merge_entries (drop k L) (Entries args)"
    and "m \<equiv> nat (PrevLogIndex args + int (length (Entries args)))"
  shows "m < length L'" and "take (Suc m) L' = take (Suc m) P"
proof -
  let ?es = "Entries args"
  have k: "k \<le> length L" "Suc m = k + length ?es" "Suc m \<le> length P" "?es = take (length ?es) (drop k P)"
    "leTerm (L ! (k - 1)) = leTerm (P ! (k - 1))"
    using seg p by (auto simp: segment_def k_def m_def)
  have pre: "take k L = take k P" using grows_agree [OF L P, of "k - 1"] k by (simp add: k_def)
  have "drop k L ! i = ?es ! i"
    if "i < length (drop k L)" "i < length ?es" "leTerm (drop k L ! i) = leTerm (?es ! i)" for i
  proof -
    have e: "?es ! i = P ! (k + i)" using that(2) k by (metis add_leD1 nth_drop nth_take)
    have "take (Suc (k + i)) L = take (Suc (k + i)) P"
      using that k e by (intro grows_agree [OF L P]) auto
    then have "L ! (k + i) = P ! (k + i)" by (metis lessI nth_take)
    with e that(1) k show ?thesis by simp
  qed
  then have same: "take (length ?es) (merge_entries (drop k L) ?es) = ?es" by (rule merge_entries_same)
  show "m < length L'" using k merge_entries_length [of ?es "drop k L"] by (simp add: L'_def)
  show "take (Suc m) L' = take (Suc m) P"
    using same pre k by (simp add: L'_def take_add)
qed

lemma merge_keeps:
  assumes seg: "segment P args" and p: "PrevLogIndex args < int (length L)"
    and h: "h < length L" "h < length P" "take (Suc h) L = take (Suc h) P"
  defines "k \<equiv> Suc (nat (PrevLogIndex args))"
  defines "L' \<equiv> take k L @ merge_entries (drop k L) (Entries args)"
  shows "h < length L'" and "take (Suc h) L' = take (Suc h) L"
proof -
  let ?own = "drop k L" and ?es = "Entries args"
  have k: "k \<le> length L" "k \<le> length P" "?es = take (length ?es) (drop k P)" using p seg by (auto simp: k_def segment_def)
  have "leTerm (?own ! i) = leTerm (?es ! i)" if "i < Suc h - k" "i < length ?es" for i
  proof -
    have "?es ! i = P ! (k + i)" using k(2,3) that(2) by (metis nth_drop nth_take)
    moreover have "k + i < Suc h" using that(1) by simp
    then have "L ! (k + i) = P ! (k + i)" using h(3) by (metis nth_take)
    ultimately show ?thesis using k by simp
  qed
  moreover have "Suc h - k \<le> length ?own" using h by simp
  ultimately have "Suc h - k \<le> length (merge_entries ?own ?es) \<and> take (Suc h - k) (merge_entries ?own ?es) = take (Suc h - k) ?own"
    by (rule merge_entries_keeps)
  then show "h < length L'" "take (Suc h) L' = take (Suc h) L"
    using k h(1) by (auto simp: L'_def min_def take_drop [symmetric] simp flip: take_add)
qed

lemma segment_nth:
  assumes "segment P args" and "j < length (Entries args)"
  shows "Entries args ! j = P ! (Suc (nat (PrevLogIndex args)) + j)"
proof -
  have "Suc (nat (PrevLogIndex args)) \<le> length P" using assms by (auto simp: segment_def)
  moreover have "Entries args = take (length (Entries args)) (drop (Suc (nat (PrevLogIndex args))) P)"
    using assms(1) by (simp add: segment_def)
  ultimately show ?thesis using assms(2) by (metis nth_drop nth_take)
qed

section \<open>Sorted logs\<close>

lemma grows_last:
  assumes "grows G L" and "0 < length L - 1"
  shows "\<exists>P. G (leTerm (last L)) = Some P \<and> length L \<le> length P \<and> L = take (length L) P"
proof -
  have "L \<noteq> []" "length L - 1 < length L" "Suc (length L - 1) = length L" using assms(2) by auto
  with growsD [OF assms(1) assms(2)] show ?thesis by (auto simp: last_conv_nth)
qed

lemma grows_sorted:
  assumes "grows G L" and "\<And>T P. G T = Some P \<Longrightarrow> terms_ok T P"
  shows "sorted (map leTerm L)"
proof (cases "0 < length L - 1")
  case True
  from grows_last [OF assms(1) True] obtain T P where "G T = Some P" "L = take (length L) P" by blast
  with assms(2) show ?thesis unfolding terms_ok_def by (metis sorted_wrt_take take_map)
next
  case False
  then show ?thesis using assms(1) by (auto simp: grows_def)
qed

lemma sorted_nth_last: "sorted (map leTerm L) \<Longrightarrow> m < length L \<Longrightarrow> leTerm (L ! m) \<le> leTerm (last L)"
  by (cases "L = []") (auto simp: last_conv_nth sorted_iff_nth_mono)

section \<open>The log of a peer and what is left of it\<close>

definition cut_log :: "('c, 's) raft \<Rightarrow> 'c LogEntry list \<Rightarrow> bool" where
  "cut_log rf L \<longleftrightarrow>
     rlog rf \<noteq> [] \<and> 0 \<le> lastIncludedIndex rf \<and> nat (lastIncludedIndex rf) < length L
     \<and> tl (rlog rf) = drop (Suc (nat (lastIncludedIndex rf))) L
     \<and> lastIncludedTerm rf = leTerm (L ! nat (lastIncludedIndex rf))"

lemma cutD:
  assumes "cut_log rf L"
  shows "rlog rf \<noteq> []" "0 \<le> lastIncludedIndex rf" "lastIncludedIndex rf < int (length L)"
    "tl (rlog rf) = drop (Suc (nat (lastIncludedIndex rf))) L"
    "lastIncludedTerm rf = leTerm (L ! nat (lastIncludedIndex rf))"
  using assms by (auto simp: cut_log_def)

lemma cut_cong:
  "cut_log rf L \<Longrightarrow> rlog rf' = rlog rf \<Longrightarrow> lastIncludedIndex rf' = lastIncludedIndex rf \<Longrightarrow>
   lastIncludedTerm rf' = lastIncludedTerm rf \<Longrightarrow> cut_log rf' L"
  by (simp add: cut_log_def)

lemma cut_length: "cut_log rf L \<Longrightarrow> length (rlog rf) = length L - nat (lastIncludedIndex rf)"
  using cutD(1-4) [of rf L] by (cases "rlog rf") auto

lemma cut_last: "cut_log rf L \<Longrightarrow> lastLogIndex rf = int (length L) - 1"
  using cut_length [of rf L] cutD(2,3) [of rf L] by (simp add: lastLogIndex_def)

lemma cut_entry:
  assumes "cut_log rf L" and "lastIncludedIndex rf < k" and "k < int (length L)"
  shows "rlog rf ! nat (logIndex rf k) = L ! nat k"
proof -
  note d = cutD [OF assms(1)]
  let ?c = "nat (lastIncludedIndex rf)" and ?j = "nat (k - lastIncludedIndex rf - 1)"
  have j: "nat (logIndex rf k) = Suc ?j" "Suc ?c + ?j = nat k" "?j < length (tl (rlog rf))"
    using assms d by (auto simp: logIndex_def)
  then have "rlog rf ! nat (logIndex rf k) = tl (rlog rf) ! ?j" using d(1) by (simp add: nth_tl)
  also have "\<dots> = L ! nat k" using j d(2,3) by (simp add: d(4))
  finally show ?thesis .
qed

lemma cut_term:
  assumes "cut_log rf L" and "lastIncludedIndex rf \<le> k" and "k < int (length L)"
  shows "logTerm rf k = Some (leTerm (L ! nat k))"
proof (cases "k = lastIncludedIndex rf")
  case True
  then show ?thesis using cutD(5) [OF assms(1)] by (simp add: logTerm_def)
next
  case False
  then have "logIndex rf k < int (length (rlog rf))" "0 \<le> logIndex rf k"
    using cut_length [OF assms(1)] cutD(2,3) [OF assms(1)] assms(2,3) by (auto simp: logIndex_def)
  then show ?thesis using cut_entry [OF assms(1), of k] False assms(2,3) by (simp add: logTerm_def go_nth_def)
qed

lemma cut_request:
  assumes "cut_log rf L" and "heartbeatRequest t k p rf = Some (SendAppend args)"
  shows "segment L args" "PrevLogIndex args + int (length (Entries args)) = int (length L) - 1"
    "LeaderCommit args = k" "aeTerm args = t"
proof -
  note d = cutD [OF assms(1)]
  obtain ni pt es where h: "lastIncludedIndex rf < ni" "logTerm rf (ni - 1) = Some pt"
    "go_from (rlog rf) (logIndex rf ni) = Some es"
    "args = \<lparr>aeTerm = t, aeLeaderId = me rf, PrevLogIndex = ni - 1, PrevLogTerm = pt, Entries = es, LeaderCommit = k\<rparr>"
    using assms(2) by (auto simp: heartbeatRequest_def Let_def bind_eq_Some_conv split: if_splits)
  have ni: "ni \<le> int (length L)" and es: "es = drop (nat (logIndex rf ni)) (rlog rf)"
    using h(1,3) cut_length [OF assms(1)] d(2,3) by (auto simp: go_from_def logIndex_def split: if_splits)
  have "nat (logIndex rf ni) = Suc (nat (ni - lastIncludedIndex rf - 1))" using h(1) by (simp add: logIndex_def)
  then have "es = drop (nat (ni - lastIncludedIndex rf - 1)) (tl (rlog rf))" unfolding es by (simp add: drop_Suc)
  also have "\<dots> = drop (nat ni) L" using h(1) d(2) by (simp add: d(4)) (simp add: nat_diff_distrib Suc_diff_Suc)
  finally have es': "es = drop (nat ni) L" .
  have pt: "pt = leTerm (L ! nat (ni - 1))" using cut_term [OF assms(1), of "ni - 1"] h(1,2) ni by simp
  have "Suc (nat (ni - 1)) = nat ni" "nat ni \<le> length L" using h(1) d(2) ni by auto
  then show "segment L args" using h(4) pt es' h(1) d(2) ni by (auto simp: segment_def)
  show "PrevLogIndex args + int (length (Entries args)) = int (length L) - 1" using h(4) es' h(1) d(2) ni by simp
  show "LeaderCommit args = k" "aeTerm args = t" using h(4) by simp_all
qed

text \<open>The log after a peer has accepted a request.\<close>

definition merged :: "'c AppendEntriesArgs \<Rightarrow> 'c LogEntry list \<Rightarrow> 'c LogEntry list" where
  "merged args L =
     (let k = Suc (nat (PrevLogIndex args)) in take k L @ merge_entries (drop k L) (Entries args))"

lemma cut_accept:
  assumes c: "cut_log rf L" and acc: "ae_accept args rf"
  shows "lastIncludedIndex rf \<le> PrevLogIndex args" "PrevLogIndex args < int (length L)"
    "leTerm (L ! nat (PrevLogIndex args)) = PrevLogTerm args"
  using acc cut_last [OF c] cut_term [OF c, of "PrevLogIndex args"] by (auto simp: ae_accept_def)

lemma cut_merged:
  assumes c: "cut_log rf L" and acc: "ae_accept args rf" and rf': "rlog rf' = ae_log args rf"
    "lastIncludedIndex rf' = lastIncludedIndex rf" "lastIncludedTerm rf' = lastIncludedTerm rf"
  shows "cut_log rf' (merged args L)"
proof -
  note d = cutD [OF c] and a = cut_accept [OF c acc]
  define p where "p = nat (PrevLogIndex args)"
  define b where "b = nat (lastIncludedIndex rf)"
  have p: "b \<le> p" "p < length L" using a d(2) by (auto simp: p_def b_def)
  have k: "nat (logIndex rf (PrevLogIndex args + 1)) = Suc (p - b)" using a(1) d(2) by (simp add: logIndex_def p_def b_def)
  define X where "X = merge_entries (drop (Suc (p - b)) (rlog rf)) (Entries args)"
  have rl: "rlog rf' = take (Suc (p - b)) (rlog rf) @ X" by (simp add: rf' ae_log_def k X_def Let_def)
  have tlr: "tl (rlog rf) = drop (Suc b) L" using d(4) by (simp add: b_def)
  have "drop (Suc (p - b)) (rlog rf) = drop (Suc p) L" using p by (simp add: drop_Suc tlr)
  then have m: "merged args L = take (Suc p) L @ X" by (simp add: merged_def X_def p_def)
  have "tl (rlog rf') = take (p - b) (drop (Suc b) L) @ X"
    using d(1) by (simp add: rl tlr [symmetric]) (cases "rlog rf"; simp)
  also have "\<dots> = drop (Suc b) (take (Suc p) L @ X)" using p by (simp add: drop_take)
  finally have "tl (rlog rf') = drop (Suc b) (merged args L)" by (simp add: m)
  moreover have "merged args L ! b = L ! b" "b < length (merged args L)" using p by (simp_all add: m nth_append)
  moreover have "rlog rf' \<noteq> []" using d(1) by (simp add: rl)
  ultimately show ?thesis using d(2,5) by (simp add: cut_log_def rf' b_def)
qed

lemma cut_snoc:
  assumes "cut_log rf L" and "rlog rf' = rlog rf @ [e]" and "lastIncludedIndex rf' = lastIncludedIndex rf"
    and "lastIncludedTerm rf' = lastIncludedTerm rf"
  shows "cut_log rf' (L @ [e])"
  using assms by (auto simp: cut_log_def nth_append)

lemma tl_drop_cut:
  assumes "cut_log rf L" and "lastIncludedIndex rf < k"
  shows "tl (drop (nat (k - lastIncludedIndex rf)) (rlog rf)) = drop (Suc (nat k)) L"
proof -
  note d = cutD [OF assms(1)]
  have "tl (drop (nat (k - lastIncludedIndex rf)) (rlog rf)) = drop (nat (k - lastIncludedIndex rf)) (tl (rlog rf))"
    by (simp add: tl_drop)
  also have "\<dots> = drop (Suc (nat k)) L" using assms(2) d(2) by (simp add: d(4) nat_diff_distrib)
  finally show ?thesis .
qed

lemma Snapshot_cut:
  assumes "Snapshot index snap rf = Some rf'" and "cut_log rf L"
  shows "cut_log rf' L" "lastIncludedIndex rf \<le> lastIncludedIndex rf'"
proof -
  note d = cutD [OF assms(2)]
  have "cut_log rf' L \<and> lastIncludedIndex rf \<le> lastIncludedIndex rf'"
  proof (cases "index \<le> lastIncludedIndex rf")
    case False
    obtain t l first l' where h: "logTerm rf index = Some t" "go_from (rlog rf) (logIndex rf index) = Some l"
      "go_nth l 0 = Some first" "go_set l 0 (first\<lparr>leCommand := None\<rparr>) = Some l'"
      "rf' = persistWithSnapshot snap (rf\<lparr>rlog := l', lastIncludedIndex := index, lastIncludedTerm := t\<rparr>)"
      using assms(1) False by (auto simp: Snapshot_def bind_eq_Some_conv)
    have l: "l = drop (nat (index - lastIncludedIndex rf)) (rlog rf)" "l \<noteq> []"
      using h(2,3) False by (auto simp: go_from_def logIndex_def go_nth_def split: if_splits)
    then have i: "index < int (length L)" using cut_length [OF assms(2)] False d(2,3) by auto
    have "l' = l[0 := first\<lparr>leCommand := None\<rparr>]" using h(4) by (simp add: go_set_def split: if_splits)
    then have "l' \<noteq> []" "tl l' = tl l" using l(2) by (cases l; simp)+
    then have "l' \<noteq> []" "tl l' = drop (Suc (nat index)) L"
      using l(1) tl_drop_cut [OF assms(2), of index] False by simp_all
    moreover have "t = leTerm (L ! nat index)" using cut_term [OF assms(2), of index] h(1) False i by simp
    ultimately show ?thesis using h(5) i False d(2) by (simp add: cut_log_def)
  qed (use assms in \<open>auto simp: Snapshot_def\<close>)
  then show "cut_log rf' L" "lastIncludedIndex rf \<le> lastIncludedIndex rf'" by simp_all
qed

text \<open>The log after a snapshot of the log \<open>P\<close> up to \<open>k\<close> was installed: what the peer had after \<open>k\<close> stays.\<close>

definition installed :: "nat \<Rightarrow> 'c LogEntry list \<Rightarrow> 'c LogEntry list \<Rightarrow> 'c LogEntry list" where
  "installed k P L = take (Suc k) P @ drop (Suc k) L"

lemma InstallSnapshot_result:
  assumes "InstallSnapshot args now rf = Some (rf', reply)"
  obtains (none) "rlog rf' = rlog rf" "lastIncludedIndex rf' = lastIncludedIndex rf" "lastIncludedTerm rf' = lastIncludedTerm rf"
      "persister rf' = persister rf" "commitIndex rf' = commitIndex rf" "lastApplied rf' = lastApplied rf"
      "pendingSnapshot rf' = pendingSnapshot rf" "matchIndex rf' = matchIndex rf" "role rf' = role rf \<or> role rf' = Follower"
  | (installs) l where "currentTerm rf \<le> isTerm args" "lastIncludedIndex rf < isLastIncludedIndex args"
      "currentTerm rf' = isTerm args" "role rf' = Follower" "rlog rf' = l"
      "lastIncludedIndex rf' = isLastIncludedIndex args" "lastIncludedTerm rf' = isLastIncludedTerm args"
      "commitIndex rf' = max (commitIndex rf) (isLastIncludedIndex args)"
      "lastApplied rf' = max (lastApplied rf) (isLastIncludedIndex args)"
      "raftstate (persister rf') = encode_state rf'"
      "\<exists>m. pendingSnapshot rf' = Some m \<and> \<not> CommandValid m"
      "if isLastIncludedIndex args \<le> lastLogIndex rf
       then go_from (rlog rf) (isLastIncludedIndex args - lastIncludedIndex rf) = Some l
       else l = [\<lparr>leTerm = isLastIncludedTerm args, leCommand = None\<rparr>]"
proof (cases "isTerm args < currentTerm rf \<or> isLastIncludedIndex args \<le> lastIncludedIndex rf")
  case True
  then show thesis using assms by (intro none) (auto simp: InstallSnapshot_def Let_def split: if_splits)
next
  case False
  define r0 where "r0 = (if isTerm args > currentTerm rf then rf\<lparr>currentTerm := isTerm args, votedFor := -1\<rparr> else rf)"
  have r0: "rlog r0 = rlog rf" "lastIncludedIndex r0 = lastIncludedIndex rf" "currentTerm r0 = isTerm args"
    "commitIndex r0 = commitIndex rf" "lastApplied r0 = lastApplied rf"
    using False by (auto simp: r0_def)
  obtain l where l: "(if isLastIncludedIndex args \<le> lastLogIndex rf
      then go_from (rlog rf) (isLastIncludedIndex args - lastIncludedIndex rf)
      else Some [\<lparr>leTerm = isLastIncludedTerm args, leCommand = None\<rparr>]) = Some l"
    and rf': "currentTerm rf' = isTerm args" "role rf' = Follower" "rlog rf' = l"
      "lastIncludedIndex rf' = isLastIncludedIndex args" "lastIncludedTerm rf' = isLastIncludedTerm args"
      "commitIndex rf' = max (commitIndex rf) (isLastIncludedIndex args)"
      "lastApplied rf' = max (lastApplied rf) (isLastIncludedIndex args)"
      "raftstate (persister rf') = encode_state rf'" "\<exists>m. pendingSnapshot rf' = Some m \<and> \<not> CommandValid m"
    using assms False r0
    by (auto simp: InstallSnapshot_def Let_def r0_def [symmetric] logIndex_def lastLogIndex_def bind_eq_Some_conv
        persistWithSnapshot_def Save_def encode_state_def max_def split: if_splits)
  then show thesis
    using False by (intro installs [of l]) (auto split: if_splits)
qed

lemma cut_installed:
  assumes "cut_log rf L" and "lastIncludedIndex rf < k"
    and l: "if k \<le> lastLogIndex rf then go_from (rlog rf) (k - lastIncludedIndex rf) = Some l
      else l = [\<lparr>leTerm = t, leCommand = None\<rparr>]"
    and P: "nat k < length P" "leTerm (P ! nat k) = t"
    and rf': "rlog rf' = l" "lastIncludedIndex rf' = k" "lastIncludedTerm rf' = t"
  shows "cut_log rf' (installed (nat k) P L)"
proof -
  note d = cutD [OF assms(1)]
  have "l \<noteq> [] \<and> tl l = drop (Suc (nat k)) L"
  proof (cases "k \<le> lastLogIndex rf")
    case True
    then have "l = drop (nat (k - lastIncludedIndex rf)) (rlog rf)" "k < int (length L)"
      using l cut_last [OF assms(1)] by (auto simp: go_from_def split: if_splits)
    moreover from this(2) have "nat (k - lastIncludedIndex rf) < length (rlog rf)"
      using cut_length [OF assms(1)] d(2) assms(2) by auto
    ultimately show ?thesis using tl_drop_cut [OF assms(1,2)] by simp
  next
    case False
    then show ?thesis using l cut_last [OF assms(1)] by auto
  qed
  then show ?thesis using P rf' d(2) assms(2) by (auto simp: cut_log_def installed_def nth_append)
qed

section \<open>Entries that are never lost\<close>

lemma not_lost_holds:
  assumes "\<not> lost G T m" and "G T = Some P" and "m < length P" and "G T' = Some Q" and "T \<le> T'"
  shows "holds G T m Q"
proof (cases "T = T'")
  case True
  then show ?thesis using assms by (simp add: holds_def)
next
  case False
  then have "T < T'" using assms(5) by simp
  then show ?thesis using assms(1,4) by (auto simp: lost_def)
qed

definition lasting :: "(int \<rightharpoonup> 'c LogEntry list) \<Rightarrow> int \<Rightarrow> nat \<Rightarrow> bool" where
  "lasting G T m \<longleftrightarrow> entry G T m \<and> \<not> lost G T m"

lemma lasting_holds:
  assumes "lasting G T m" and "G T' = Some Q" and "T \<le> T'" and "k \<le> m"
  shows "holds G T k Q"
proof -
  obtain P where "G T = Some P" "m < length P" using assms(1) by (auto simp: lasting_def entry_def)
  then have "holds G T m Q" using not_lost_holds [of G T m P T' Q] assms(1-3) by (simp add: lasting_def)
  then show ?thesis using assms(4) by (rule holds_le)
qed

lemma sorted_term: "sorted (map leTerm P) \<Longrightarrow> i \<le> j \<Longrightarrow> j < length P \<Longrightarrow> leTerm (P ! i) \<le> leTerm (P ! j)"
  by (auto simp: sorted_iff_nth_mono)

lemma take_le: "take (Suc j) L = take (Suc j) M \<Longrightarrow> i \<le> j \<Longrightarrow> take (Suc i) L = take (Suc i) M"
  by (metis Suc_le_mono min_absorb1 take_take)

lemma take_last: "M = take (length M) R \<Longrightarrow> M \<noteq> [] \<Longrightarrow> last M = R ! (length M - 1)"
  by (metis diff_less last_conv_nth length_greater_0_conv less_one nth_take)

text \<open>
  A log that wins the vote of a peer that keeps an entry keeps it too: of the voter only the length
  and the last term count.
\<close>

lemma up_to_date_grows:
  assumes M: "grows G M" and G: "\<And>T P. G T = Some P \<Longrightarrow> terms_ok T P" "\<And>T P. G T = Some P \<Longrightarrow> grows G P"
    and e: "entry G T m" and k: "kept G T m L"
    and ok: "leTerm (last L) < leTerm (last M) \<or> leTerm (last L) = leTerm (last M) \<and> length L \<le> length M"
  shows "kept G T m M"
proof (cases "lost G T m")
  case False
  then have h: "holds G T m L" "T \<le> leTerm (last L)" using k by (simp_all add: kept_def)
  have T: "T \<le> leTerm (last M)" using h(2) ok by auto
  show ?thesis
  proof (cases "0 < length M - 1")
    case True
    then obtain R where R: "G (leTerm (last M)) = Some R" "length M \<le> length R" "M = take (length M) R"
      using grows_last [OF M] by blast
    have R': "holds G T m R" using not_lost_holds [OF False _ _ R(1) T] e by (auto simp: entry_def)
    have "m < length M"
    proof (rule ccontr)
      assume "\<not> m < length M"
      moreover have "leTerm (R ! (length M - 1)) = leTerm (last M)" using take_last [OF R(3)] True by (cases M) auto
      ultimately have "leTerm (last M) \<le> T"
        using holds_term [OF e R'] G(1) [OF R(1)] sorted_term [of R "length M - 1" m] by (simp add: terms_ok_def)
      with T h(2) ok have "length L \<le> length M" by auto
      with \<open>\<not> m < length M\<close> h(1) show False by (auto simp: holds_def)
    qed
    moreover from this have "take (Suc m) R = take (Suc m) M" using R(3) by (metis Suc_leI min_absorb1 take_take)
    ultimately have "holds G T m M" using holds_trans [OF R'] holds_term [OF e R'] by blast
    then show ?thesis using T by (simp add: kept_def)
  next
    case f: False
    have l: "M = [first_entry]" using M f by (auto simp: grows_def)
    have "m = 0"
    proof (rule ccontr)
      assume "m \<noteq> 0"
      then have "1 < length L" using h(1) by (auto simp: holds_def)
      moreover obtain P where P: "G T = Some P" "m < length P" "leTerm (P ! m) = T" using e by (auto simp: entry_def)
      then have "leTerm (P ! 0) = 0" "leTerm (P ! 0) \<le> T"
        using G(1) [OF P(1)] G(2) [OF P(1)] by (auto simp: grows_def terms_ok_def sorted_iff_nth_mono)
      ultimately show False using l ok h(2) by simp
    qed
    moreover obtain P where P: "G T = Some P" "m < length P" using e by (auto simp: entry_def)
    moreover have "take (Suc 0) P = [first_entry]" using G(2) [OF P(1)] by (auto simp: grows_def)
    ultimately show ?thesis using T l by (simp add: kept_def holds_def)
  qed
qed (simp add: kept_def)

section \<open>Logs that an installed snapshot has mended\<close>

text \<open>
  \<open>InstallSnapshot\<close> keeps what a peer has after the index of the snapshot even when the entry at the
  index was another one. Such a log \<open>V\<close> is the log of a leader up to \<open>k\<close> and some other log \<open>W\<close> after it.
\<close>

definition mended :: "(int \<rightharpoonup> 'c LogEntry list) \<Rightarrow> 'c LogEntry list \<Rightarrow> 'c LogEntry list \<Rightarrow> nat \<Rightarrow> int \<Rightarrow> bool" where
  "mended G V W k T \<longleftrightarrow>
     grows G W \<and> length W = length V \<and> Suc k < length V \<and> drop (Suc k) V = drop (Suc k) W
     \<and> leTerm (W ! k) \<noteq> leTerm (V ! k) \<and> holds G T k V"

lemma mendedD:
  assumes "mended G V W k T"
  shows "grows G W" "length W = length V" "Suc k < length V" "drop (Suc k) V = drop (Suc k) W"
    "leTerm (W ! k) \<noteq> leTerm (V ! k)" "holds G T k V" "last V = last W"
proof -
  show *: "grows G W" "length W = length V" "Suc k < length V" "drop (Suc k) V = drop (Suc k) W"
    "leTerm (W ! k) \<noteq> leTerm (V ! k)" "holds G T k V" using assms by (simp_all add: mended_def)
  then show "last V = last W" by (metis last_drop)
qed

lemma mended_extends: "mended G V W k T \<Longrightarrow> extends G G' \<Longrightarrow> mended G' V W k T"
  unfolding mended_def using grows_extends holds_extends by blast

lemma mended_last:
  assumes M: "mended G V W k T" and T: "lasting G T m" "k \<le> m"
  shows "leTerm (last V) < T"
proof (rule ccontr)
  note d = mendedD [OF M]
  assume "\<not> leTerm (last V) < T"
  then have "T \<le> leTerm (last W)" using d(7) by simp
  moreover obtain P where P: "G (leTerm (last W)) = Some P" "length W \<le> length P" "W = take (length W) P"
    using grows_last [OF d(1)] d(2,3) by auto
  ultimately have "holds G T k P" using lasting_holds [OF T(1) P(1) _ T(2)] by simp
  from holds_agree [OF this d(6)] have "P ! k = V ! k" by (metis lessI nth_take)
  moreover have "W ! k = P ! k" using P(3) d(2,3) by (metis Suc_lessD nth_take)
  ultimately show False using d(5) by simp
qed

text \<open>What the other log keeps, the mended one keeps.\<close>

lemma mended_kept:
  assumes M: "mended G V W k T" and T: "lasting G T m" "k \<le> m" and U: "entry G U j" "kept G U j W"
  shows "kept G U j V"
proof (cases "lost G U j")
  case False
  note d = mendedD [OF M]
  have h: "holds G U j W" "U \<le> leTerm (last W)" using U(2) False by (simp_all add: kept_def)
  have lt: "U < T" using h(2) mended_last [OF M T] d(7) by simp
  obtain Q where Q: "G T = Some Q" "k < length Q" "take (Suc k) V = take (Suc k) Q" using d(6) by (auto simp: holds_def)
  obtain P where P: "G U = Some P" "j < length P" using U(1) by (auto simp: entry_def)
  have hQ: "holds G U j Q" using not_lost_holds [OF False P Q(1)] lt by simp
  have j: "j < k"
  proof (rule ccontr)
    assume "\<not> j < k"
    with holds_agree [OF holds_le [OF h(1)] holds_le [OF hQ], of k] have "take (Suc k) W = take (Suc k) Q" by simp
    then have "W ! k = V ! k" using Q(3) by (metis lessI nth_take)
    with d(5) show False by simp
  qed
  have "holds G U j V"
    by (rule holds_trans [OF hQ Q(2)]) (use Q(3) d(3) j in auto)
  then show ?thesis using h(2) d(7) by (simp add: kept_def)
qed (simp add: kept_def)

lemma up_to_date_mended:
  assumes M: "mended G V W k S" "lasting G S j" "k \<le> j"
    and G: "\<And>T P. G T = Some P \<Longrightarrow> terms_ok T P" "\<And>T P. G T = Some P \<Longrightarrow> grows G P"
    and e: "entry G T m" and kept: "kept G T m L"
    and ok: "leTerm (last L) < leTerm (last V) \<or> leTerm (last L) = leTerm (last V) \<and> length L \<le> length V"
  shows "kept G T m V"
proof -
  note d = mendedD [OF M(1)]
  have "kept G T m W" by (rule up_to_date_grows [OF d(1) G e kept]) (use ok d(2,7) in auto)
  with mended_kept [OF M e] show ?thesis .
qed

section \<open>Installing a snapshot\<close>

lemma installed_same: "take (Suc k) P = take (Suc k) V \<Longrightarrow> installed k P V = V"
  by (simp add: installed_def)

lemma installed_kept:
  assumes U: "entry G U j" "kept G U j V" and T: "lasting G T m" "k \<le> m" "holds G T k P"
    and P: "sorted (map leTerm P)" "k < length P"
  shows "kept G U j (installed k P V)"
proof (cases "lost G U j")
  case False
  let ?V = "installed k P V"
  have h: "holds G U j V" "U \<le> leTerm (last V)" using U(2) False by (simp_all add: kept_def)
  obtain R where R: "G U = Some R" "j < length R" "leTerm (R ! j) = U" using U(1) by (auto simp: entry_def)
  obtain Q where Q: "G T = Some Q" "k < length Q" "take (Suc k) P = take (Suc k) Q" using T(3) by (auto simp: holds_def)
  have agree: "take (Suc (min j k)) R = take (Suc (min j k)) P \<and> min j k < length R"
  proof (cases "U \<le> T")
    case True
    from not_lost_holds [OF False R(1,2) Q(1) True] have "take (Suc j) Q = take (Suc j) R" using R(1) by (simp add: holds_def)
    from take_le [OF this] take_le [OF Q(3)] R(2) show ?thesis by simp
  next
    case f: False
    have "holds G T k R" using lasting_holds [OF T(1) R(1) _ T(2)] f by simp
    then have "take (Suc k) R = take (Suc k) P" "k < length R" using Q by (simp_all add: holds_def)
    with take_le [of k R P "min j k"] show ?thesis by simp
  qed
  show ?thesis
  proof (cases "j \<le> k")
    case True
    then have a: "take (Suc j) R = take (Suc j) P" "j < length P" using agree P(2) by simp_all
    then have "take (Suc j) ?V = take (Suc j) R" using True P(2) by (simp add: installed_def min_def)
    then have "holds G U j ?V" using R True P(2) by (simp add: holds_def installed_def)
    moreover have "U \<le> leTerm (last ?V)"
    proof (cases "Suc k < length V")
      case True
      then have "last ?V = last V" by (simp add: installed_def)
      then show ?thesis using h(2) by simp
    next
      case f: False
      then have "last ?V = P ! k" using P(2) by (simp add: installed_def take_Suc_conv_app_nth)
      moreover have "P ! j = R ! j" using a by (metis lessI nth_take)
      ultimately show ?thesis using sorted_term [OF P(1) True P(2)] R(3) by simp
    qed
    ultimately show ?thesis by (simp add: kept_def)
  next
    case f: False
    then have "take (Suc k) R = take (Suc k) P" using agree by simp
    moreover have "take (Suc k) V = take (Suc k) R" using holds_le [OF h(1), of k] f R(1) by (simp add: holds_def)
    ultimately have "?V = V" by (intro installed_same) simp
    then show ?thesis using U(2) by simp
  qed
qed (simp add: kept_def)

lemma installed_mends:
  assumes W: "grows G W" "length W = length V" "drop (Suc k) V = drop (Suc k) W" and P: "grows G P" "k < length P"
    and T: "holds G T k P"
  shows "grows G (installed k P V) \<or> mended G (installed k P V) W k T"
proof -
  have V: "installed k P V = take (Suc k) P @ drop (Suc k) W" using W(3) by (simp add: installed_def)
  show ?thesis
  proof (cases "Suc k < length W")
    case False
    then have "installed k P V = take (Suc k) P" by (simp add: V)
    then show ?thesis using grows_take [OF P(1)] by simp
  next
    case long: True
    show ?thesis
    proof (cases "leTerm (W ! k) = leTerm (P ! k)")
      case True
      then have "installed k P V = W" using grows_agree [OF W(1) P(1), of k] long P(2) V
        by (metis Suc_lessD append_take_drop_id)
      then show ?thesis using W(1) by simp
    next
      case False
      have "holds G T k (installed k P V)" by (rule holds_trans [OF T P(2)]) (use P(2) in \<open>auto simp: V\<close>)
      moreover have "installed k P V ! k = P ! k" using P(2) by (simp add: V nth_append)
      ultimately show ?thesis using W(1) long False P(2) by (auto simp: mended_def V)
    qed
  qed
qed

section \<open>Accepting a segment\<close>

text \<open>
  A peer may accept a segment of a leader's log right after the mended part only, and then the log
  agrees with that of the leader there.
\<close>

lemma mended_accept:
  assumes M: "mended G V W k T" and T: "lasting G T m" "k \<le> m" and P: "G U = Some P" "T \<le> U" "grows G P"
    and p: "k \<le> p" "p < length V" "p < length P" "leTerm (V ! p) = leTerm (P ! p)"
  shows "p = k" and "take (Suc k) V = take (Suc k) P"
proof -
  note d = mendedD [OF M]
  have hP: "holds G T k P" using lasting_holds [OF T(1) P(1,2) T(2)] .
  then show same: "take (Suc k) V = take (Suc k) P" using holds_agree [OF d(6)] by simp
  show "p = k"
  proof (rule ccontr)
    assume "p \<noteq> k"
    then have "Suc k + (p - Suc k) = p" using p(1) by simp
    then have "V ! p = W ! p" using d(2,3,4) p(2) by (metis less_imp_le_nat nth_drop)
    then have "take (Suc p) W = take (Suc p) P" using grows_agree [OF d(1) P(3), of p] p d(2) by simp
    from take_le [OF this p(1)] same have "W ! k = V ! k" by (metis lessI nth_take)
    with d(5) show False by simp
  qed
qed

lemma mended_limit:
  assumes M: "mended G V W k T" and P: "grows G P" and j: "j < length V" "j < length P" "take (Suc j) V = take (Suc j) P"
  shows "j \<le> k"
proof (rule ccontr)
  note d = mendedD [OF M]
  assume "\<not> j \<le> k"
  then have k: "Suc k \<le> j" by simp
  have "V ! Suc k = P ! Suc k" using take_le [OF j(3) k] by (metis lessI nth_take)
  moreover have "V ! Suc k = W ! Suc k" using d(2-4) by (metis hd_drop_conv_nth)
  ultimately have "take (Suc (Suc k)) W = take (Suc (Suc k)) P"
    using grows_agree [OF d(1) P, of "Suc k"] k j d(2) by simp
  from take_le [OF this, of k] take_le [OF j(3), of k] k have "W ! k = V ! k" by (metis Suc_leD le_SucI lessI nth_take order_refl)
  with d(5) show False by simp
qed

text \<open>What accepting a request of the log \<open>P\<close>, up to its end \<open>m\<close>, makes of the log \<open>L\<close>.\<close>

definition accepts :: "'c AppendEntriesArgs \<Rightarrow> 'c LogEntry list \<Rightarrow> 'c LogEntry list \<Rightarrow> nat \<Rightarrow> bool" where
  "accepts args L P m \<longleftrightarrow>
     m = nat (PrevLogIndex args + int (length (Entries args)))
     \<and> (merged args L = L \<and> m < length L \<and> take (Suc m) L = take (Suc m) P
        \<or> merged args L = take (Suc m) P
          \<and> (\<forall>h. h < length L \<longrightarrow> h < length P \<longrightarrow> take (Suc h) L = take (Suc h) P \<longrightarrow> h \<le> m))"

lemma merged_grows:
  assumes V: "grows G V" and P: "grows G P" and seg: "segment P args"
    and p: "PrevLogIndex args < int (length V)" "leTerm (V ! nat (PrevLogIndex args)) = PrevLogTerm args"
  defines "m \<equiv> nat (PrevLogIndex args + int (length (Entries args)))"
  shows "accepts args V P m"
proof -
  let ?k = "Suc (nat (PrevLogIndex args))"
  have m: "Suc m = ?k + length (Entries args)" "?k \<le> length V" using seg p(1) by (auto simp: segment_def m_def)
  have g: "m < length (merged args V)" "take (Suc m) (merged args V) = take (Suc m) P"
    using merge_segment [OF V P seg p] by (simp_all add: merged_def m_def Let_def)
  consider "merge_entries (drop ?k V) (Entries args) = drop ?k V"
    | "length (merge_entries (drop ?k V) (Entries args)) = length (Entries args)" using merge_entries_end by blast
  then show ?thesis
  proof cases
    case 1
    then have "merged args V = V" by (simp add: merged_def)
    then show ?thesis using g by (simp add: accepts_def m_def)
  next
    case 2
    then have l: "length (merged args V) = Suc m" using m by (simp add: merged_def)
    have "h \<le> m" if "h < length V" "h < length P" "take (Suc h) V = take (Suc h) P" for h
      using merge_keeps(1) [OF seg p(1) that] l by (simp add: merged_def Let_def)
    then show ?thesis using g(2) l by (simp add: accepts_def m_def)
  qed
qed

lemma merged_mended:
  assumes M: "mended G V W k T" and P: "grows G P" and seg: "segment P args" and k: "nat (PrevLogIndex args) = k"
    and pre: "take (Suc k) V = take (Suc k) P"
  defines "m \<equiv> nat (PrevLogIndex args + int (length (Entries args)))"
  shows "accepts args V P m"
proof -
  note d = mendedD [OF M]
  have m: "m = k + length (Entries args)" "m < length P" using seg k by (auto simp: segment_def m_def)
  show ?thesis
  proof (cases "Entries args")
    case Nil
    then have "merged args V = V" "m = k" using k m(1) by (simp_all add: merged_def)
    then show ?thesis using pre d(3) by (simp add: accepts_def m_def [symmetric])
  next
    case (Cons e es)
    have es: "Entries args = take (length (Entries args)) (drop (Suc k) P)" using seg k by (simp add: segment_def)
    have e: "e = P ! Suc k" using segment_nth [OF seg, of 0] k Cons by simp
    obtain o' os where o: "drop (Suc k) V = o' # os" using d(3) by (metis drop_eq_Nil2 leD neq_Nil_conv)
    then have "o' = W ! Suc k" using d(2-4) by (metis hd_drop_conv_nth list.sel(1))
    moreover have "leTerm (W ! Suc k) \<noteq> leTerm (P ! Suc k)"
    proof
      assume t: "leTerm (W ! Suc k) = leTerm (P ! Suc k)"
      have "take (Suc (Suc k)) W = take (Suc (Suc k)) P"
        using grows_agree [OF d(1) P _ _ t] d(2,3) m Cons by simp
      from take_le [OF this, of k] pre have "W ! k = V ! k" by (metis le_SucI lessI nth_take order_refl)
      with d(5) show False by simp
    qed
    ultimately have "merge_entries (drop (Suc k) V) (Entries args) = Entries args" using e o Cons by simp
    then have "merged args V = take (Suc k) P @ Entries args" using k pre by (simp add: merged_def)
    also have "\<dots> = take (Suc m) P" using es m(1) by (metis add_Suc take_add)
    finally have g: "merged args V = take (Suc m) P" .
    have "h \<le> m" if "h < length V" "h < length P" "take (Suc h) V = take (Suc h) P" for h
      using mended_limit [OF M P that] m(1) by simp
    then show ?thesis unfolding accepts_def m_def [symmetric] using g by blast
  qed
qed

text \<open>What either case means for the entries the peer keeps and gets.\<close>

lemma merged_holds:
  assumes G: "G T = Some P" "sorted (map leTerm P)" and seg: "segment P args"
    and acc: "accepts args V P m"
  shows "\<And>k. k \<le> m \<Longrightarrow> holds G T k (merged args V)"
    and "\<And>U j. entry G U j \<Longrightarrow> kept G U j V \<Longrightarrow> U \<le> T \<Longrightarrow> kept G U j (merged args V)"
    and "\<And>U j. holds G U j P \<Longrightarrow> holds G U j V \<Longrightarrow> holds G U j (merged args V)"
proof -
  have m: "m = nat (PrevLogIndex args + int (length (Entries args)))"
    and c: "merged args V = V \<and> m < length V \<and> take (Suc m) V = take (Suc m) P
      \<or> merged args V = take (Suc m) P \<and> (\<forall>h. h < length V \<longrightarrow> h < length P \<longrightarrow> take (Suc h) V = take (Suc h) P \<longrightarrow> h \<le> m)"
    using acc unfolding accepts_def by blast+
  have mP: "m < length P" using seg by (auto simp: segment_def m)
  have "holds G T m (merged args V)" using c G(1) mP by (auto simp: holds_def)
  then show "holds G T k (merged args V)" if "k \<le> m" for k using that by (rule holds_le)
  show same: "holds G U j (merged args V)" if "holds G U j P" "holds G U j V" for U j
    using c
  proof
    assume r: "merged args V = take (Suc m) P \<and> (\<forall>h. h < length V \<longrightarrow> h < length P \<longrightarrow> take (Suc h) V = take (Suc h) P \<longrightarrow> h \<le> m)"
    have "j \<le> m" using r that by (auto simp: holds_def)
    then show ?thesis using that(1) r mP by (auto simp: holds_def min_def)
  qed (use that(2) in simp)
  show "kept G U j (merged args V)" if U: "entry G U j" "kept G U j V" "U \<le> T" for U j
  proof (cases "lost G U j")
    case False
    then have h: "holds G U j V" "U \<le> leTerm (last V)" using U(2) by (simp_all add: kept_def)
    obtain R where R: "G U = Some R" "j < length R" using U(1) by (auto simp: entry_def)
    have hP: "holds G U j P" using not_lost_holds [OF False R G(1) U(3)] .
    have "U \<le> leTerm (last (merged args V))"
      using c
    proof
      assume r: "merged args V = take (Suc m) P \<and> (\<forall>h. h < length V \<longrightarrow> h < length P \<longrightarrow> take (Suc h) V = take (Suc h) P \<longrightarrow> h \<le> m)"
      have "j \<le> m" using r hP h(1) by (auto simp: holds_def)
      moreover have "last (merged args V) = P ! m" using r mP by (simp add: take_Suc_conv_app_nth)
      ultimately show ?thesis using sorted_term [OF G(2) _ mP] holds_term [OF U(1) hP] by auto
    qed (use h in simp)
    then show ?thesis using same [OF hP h(1)] by (simp add: kept_def)
  qed (simp add: kept_def)
qed

end
