(* ===== verification/Raft_Invariants.thy ===== *)
theory Raft_Invariants
  imports Raft_Logs
begin

text \<open>
  The invariants of the logs of a cluster whose peers compact their logs. \<open>V\<close> maps a peer to its log
  counted from index 0, what it has cut off included; \<open>G\<close> maps a term to the log that its leader has,
  or had when it lost the lead.

  The argument is by time, not by term: a goroutine of \<open>sendHeartbeats\<close> may send the log of a later
  term under an earlier one, so a peer may hold entries of terms it has not reached.
\<close>

section \<open>The log of one peer, in memory and on stable storage\<close>

definition log_state :: "('c, 's) raft \<Rightarrow> 'c LogEntry list \<times> int \<times> int" where
  "log_state rf = (rlog rf, lastIncludedIndex rf, lastIncludedTerm rf)"

definition stored_log :: "('c, 's) raft \<Rightarrow> 'c LogEntry list \<times> int \<times> int" where
  "stored_log rf = log_state (Make 1 0 (persister rf) 0)"

lemma Make_log: "log_state (Make n i (persister rf) now) = stored_log rf"
  by (auto simp: stored_log_def log_state_def Make_def Let_def readPersist_def split: bind_splits option.splits)

lemma stored_log_encode: "raftstate (persister rf') = encode_state rf \<Longrightarrow> stored_log rf' = log_state rf"
  using readPersist_encode [of "persister rf'" rf 1 0 0] by (simp add: stored_log_def log_state_def)

lemma stored_log_persist [simp]: "stored_log (persist rf) = log_state rf"
  by (rule stored_log_encode) (simp add: persist_def persistWithSnapshot_def Save_def)

lemma stored_log_persistWithSnapshot [simp]: "stored_log (persistWithSnapshot s rf) = log_state rf"
  by (rule stored_log_encode) (simp add: persistWithSnapshot_def Save_def)

lemma stored_log_step_down [simp]: "stored_log (step_down t rf) = log_state rf"
  by (simp add: step_down_def log_state_def)

lemma stored_log_cong: "persister rf' = persister rf \<Longrightarrow> stored_log rf' = stored_log rf"
  by (simp add: stored_log_def)

lemma stored_log_upd [simp]:
  "stored_log (rf\<lparr>lastHeartbeat := h\<rparr>) = stored_log rf" "stored_log (rf\<lparr>commitIndex := k\<rparr>) = stored_log rf"
  "stored_log (rf\<lparr>lastApplied := k\<rparr>) = stored_log rf" "stored_log (rf\<lparr>role := r\<rparr>) = stored_log rf"
  "stored_log (rf\<lparr>nextIndex := ni\<rparr>) = stored_log rf" "stored_log (rf\<lparr>matchIndex := mi\<rparr>) = stored_log rf"
  "stored_log (rf\<lparr>pendingSnapshot := p\<rparr>) = stored_log rf" "stored_log (rf\<lparr>currentTerm := t\<rparr>) = stored_log rf"
  "stored_log (rf\<lparr>votedFor := v\<rparr>) = stored_log rf"
  by (simp_all add: stored_log_def)

text \<open>The peer has reached the term, in memory and on stable storage.\<close>

definition past :: "int \<Rightarrow> ('c, 's) raft \<Rightarrow> bool" where
  "past t rf \<longleftrightarrow> t \<le> currentTerm rf \<and> t \<le> fst (stored rf)"

lemma vote_safe_past: "vote_safe rf rf' \<Longrightarrow> past t rf \<Longrightarrow> past t rf'"
  by (auto simp: vote_safe_def past_def)

lemma keeps_vote_past: "keeps_vote t c rf \<Longrightarrow> past t rf"
  by (simp add: keeps_vote_def keeps_def past_def)

lemma past_mono: "past t rf \<Longrightarrow> s \<le> t \<Longrightarrow> past s rf"
  by (auto simp: past_def)

text \<open>
  An operation that does not touch the log and makes no leader; one that may cut the log as well; and
  one that, on top, makes no candidate.
\<close>

definition log_same :: "('c, 's) raft \<Rightarrow> ('c, 's) raft \<Rightarrow> bool" where
  "log_same rf rf' \<longleftrightarrow>
     log_state rf' = log_state rf \<and> (stored_log rf' = stored_log rf \<or> stored_log rf' = log_state rf)
     \<and> (role rf' = Leader \<longrightarrow> role rf = Leader \<and> currentTerm rf' = currentTerm rf)"

definition log_kept :: "('c, 's) raft \<Rightarrow> ('c, 's) raft \<Rightarrow> bool" where
  "log_kept rf rf' \<longleftrightarrow>
     (\<forall>L. cut_log rf L \<longrightarrow> cut_log rf' L) \<and> lastIncludedIndex rf \<le> lastIncludedIndex rf'
     \<and> (stored_log rf = log_state rf \<longrightarrow> stored_log rf' = log_state rf')
     \<and> (role rf' = Leader \<longrightarrow> role rf = Leader \<and> currentTerm rf' = currentTerm rf)"

definition no_candidate :: "('c, 's) raft \<Rightarrow> ('c, 's) raft \<Rightarrow> bool" where
  "no_candidate rf rf' \<longleftrightarrow> (role rf' = Candidate \<longrightarrow> role rf = Candidate \<and> currentTerm rf' = currentTerm rf)"

lemmas keeps_log_defs = log_same_def log_state_def no_candidate_def

lemma log_sameD: "log_same rf rf' \<Longrightarrow> log_kept rf rf'"
  using cut_cong by (auto simp: log_same_def log_kept_def log_state_def)

lemma log_same_refl [simp]: "log_same rf rf"
  by (simp add: log_same_def)

lemma log_kept_refl [simp]: "log_kept rf rf"
  by (simp add: log_kept_def)

lemma no_candidate_refl [simp]: "no_candidate rf rf"
  by (simp add: no_candidate_def)

lemma step_down_log_same [simp]: "log_same rf (step_down t rf)" "no_candidate rf (step_down t rf)"
  by (simp_all add: keeps_log_defs)

lemma RequestVote_log_same:
  assumes "RequestVote args now rf = Some (rf', reply)"
  shows "log_same rf rf'" "no_candidate rf rf'"
  using assms by (auto simp: RequestVote_def Let_def keeps_log_defs split: if_splits bind_splits)

lemma startElection_log_same:
  assumes "startElection rf = Some (rf', reqs)"
  shows "log_same rf rf'" "currentTerm rf' = currentTerm rf + 1"
  using assms by (auto simp: startElection_def Let_def keeps_log_defs split: if_splits bind_splits)

lemma handleVoteReply_log_same:
  assumes "handleVoteReply t votes reply rf = (rf', votes')"
  shows "log_same rf rf' \<and> no_candidate rf rf' \<or> rf' = becomeLeader rf \<and> role rf = Candidate"
  using assms by (auto simp: handleVoteReply_def Let_def split: if_splits)

lemma handleAppendReply_log_same:
  assumes "handleAppendReply t peer args reply rf = Some rf'"
  shows "log_same rf rf'" "no_candidate rf rf'"
proof -
  have "log_same rf rf' \<and> no_candidate rf rf'"
  proof (cases "role rf \<noteq> Leader \<or> currentTerm rf \<noteq> t")
    case True
    then show ?thesis using assms by (auto simp: handleAppendReply_def)
  next
    case False
    define r1 where "r1 = (if aerTerm reply > t then step_down (aerTerm reply) rf else rf)"
    have "log_same rf r1 \<and> no_candidate rf r1" by (simp add: r1_def)
    moreover have "log_state rf' = log_state r1 \<and> stored_log rf' = stored_log r1 \<and> role rf' = role r1 \<and> currentTerm rf' = currentTerm r1"
      using assms False
      by (auto simp: handleAppendReply_def Let_def r1_def [symmetric] maybeAdvanceCommitIndex_def log_state_def
          split: if_splits bind_splits dest!: advance_loop_frame)
    ultimately show ?thesis by (simp add: log_same_def no_candidate_def)
  qed
  then show "log_same rf rf'" "no_candidate rf rf'" by simp_all
qed

lemma handleSnapshotReply_log_same:
  assumes "handleSnapshotReply peer args reply rf = Some rf'"
  shows "log_same rf rf'" "no_candidate rf rf'"
  using assms by (auto simp: handleSnapshotReply_def keeps_log_defs split: if_splits bind_splits)

lemma applyStep_log_same:
  assumes "applyStep inner rf = Some (inner', rf', m)"
  shows "log_same rf rf'" "no_candidate rf rf'"
  using assms by (auto simp: applyStep_def Let_def keeps_log_defs split: if_splits bind_splits)

lemma Snapshot_log_kept:
  assumes "Snapshot index snap rf = Some rf'"
  shows "log_kept rf rf'" "no_candidate rf rf'"
proof -
  have "rf' = rf \<or> stored_log rf' = log_state rf' \<and> role rf' = role rf \<and> currentTerm rf' = currentTerm rf
      \<and> lastIncludedIndex rf \<le> lastIncludedIndex rf'"
    using assms by (auto simp: Snapshot_def log_state_def split: if_splits bind_splits)
  then show "log_kept rf rf'" "no_candidate rf rf'"
    using Snapshot_cut(1) [OF assms] by (auto simp: log_kept_def no_candidate_def)
qed

lemma Make_log_kept:
  assumes "stored_log rf = log_state rf"
  shows "log_kept rf (Make n i (persister rf) now)" "no_candidate rf (Make n i (persister rf) now)"
proof -
  let ?rf = "Make n i (persister rf) now"
  have s: "log_state ?rf = log_state rf" using Make_log [of n i rf now] assms by simp
  have "role ?rf = Follower" "persister ?rf = persister rf"
    by (auto simp: Make_def Let_def readPersist_def split: bind_splits option.splits)
  then have "log_same rf ?rf" using s stored_log_cong [of ?rf rf] by (simp add: log_same_def)
  then show "log_kept rf ?rf" by (rule log_sameD)
  show "no_candidate rf ?rf" using \<open>role ?rf = Follower\<close> by (simp add: no_candidate_def)
qed

lemma AppendEntries_log_same:
  assumes "AppendEntries args now rf = Some (rf', reply)" and "\<not> ae_accept args rf"
  shows "log_same rf rf'" "no_candidate rf rf'" "\<not> Success reply"
  using assms logTerm_cong [of "persist (rf\<lparr>lastHeartbeat := now, role := Follower, currentTerm := aeTerm args\<rparr>)" rf]
  by (auto simp: AppendEntries_def Let_def keeps_log_defs ae_accept_def lastLogIndex_def split: if_splits bind_splits)

section \<open>Leaders, acknowledgements and what is chosen\<close>

definition led :: "nat \<Rightarrow> ('c, 's) cluster \<Rightarrow> int \<Rightarrow> bool" where
  "led n cl T \<longleftrightarrow>
     (\<exists>c. elected n cl T c \<and> voted cl c T c
        \<and> (currentTerm (nodes cl c) = T \<longrightarrow> role (nodes cl c) \<noteq> Candidate))"

text \<open>At most one peer is elected in a term.\<close>

lemma elected_unique:
  assumes "cluster_inv n cl" and "elected n cl t c" and "elected n cl t d"
  shows "c = d"
proof -
  obtain V W where "peer_quorum n V" "\<forall>v \<in> V. voted cl v t c" "peer_quorum n W" "\<forall>v \<in> W. voted cl v t d"
    using assms(2,3) by (auto simp: elected_def)
  then show ?thesis
    using maj.unique_choice [of n V W "\<lambda>p c. voted cl p t c" c d] cluster_invD(5) [OF assms(1)] by blast
qed

text \<open>What a step keeps of the terms that had a leader.\<close>

lemma led_step:
  assumes inv: "cluster_inv n cl" and led: "led n cl T"
    and nodes: "nodes cl' = (nodes cl)(i := rf')"
    and voted: "\<And>v t c. voted cl v t c \<Longrightarrow> voted cl' v t c"
    and cand: "no_candidate (nodes cl i) rf' \<or> currentTerm (nodes cl i) < currentTerm rf'"
  shows "led n cl' T"
proof -
  obtain c where c: "elected n cl T c" "voted cl c T c"
    "currentTerm (nodes cl c) = T \<longrightarrow> role (nodes cl c) \<noteq> Candidate"
    using led by (auto simp: led_def)
  have "T \<le> currentTerm (nodes cl c)"
    using cluster_invD(4) [OF inv c(2)] by (simp add: keeps_vote_def keeps_def)
  then have "currentTerm (nodes cl' c) = T \<longrightarrow> role (nodes cl' c) \<noteq> Candidate"
    using c(3) cand by (auto simp: nodes no_candidate_def)
  with elected_mono [OF c(1) voted] voted [OF c(2)] show ?thesis unfolding led_def by blast
qed

text \<open>
  \<open>A v T m\<close>: the peer \<open>v\<close> has acknowledged the entries up to \<open>m\<close> of the leader of the term \<open>T\<close>. An entry that a
  majority has acknowledged is chosen.
\<close>

type_synonym acks = "nat \<Rightarrow> int \<Rightarrow> nat \<Rightarrow> bool"

definition chosen :: "nat \<Rightarrow> (int \<rightharpoonup> 'c LogEntry list) \<Rightarrow> acks \<Rightarrow> int \<Rightarrow> nat \<Rightarrow> bool" where
  "chosen n G A T m \<longleftrightarrow> entry G T m \<and> (\<exists>Q. peer_quorum n Q \<and> (\<forall>v \<in> Q. A v T m))"

lemma chosen_mono:
  assumes "chosen n G A T m" and "extends G G'" and "A \<le> A'"
  shows "chosen n G' A' T m"
  using assms(1,3) entry_extends [OF _ assms(2)] unfolding chosen_def le_fun_def le_bool_def by blast

lemma step_grows:
  assumes "cluster_step n cl cl'"
  shows "net cl \<subseteq> net cl'" "voted cl v t c \<Longrightarrow> voted cl' v t c"
  using assms by (cases; auto simp: voted_def)+

section \<open>The logs\<close>

text \<open>A log comes from the logs of leaders, but for a stale end after an installed snapshot of chosen entries.\<close>

definition sound :: "nat \<Rightarrow> (int \<rightharpoonup> 'c LogEntry list) \<Rightarrow> acks \<Rightarrow> ('c, 's) raft \<Rightarrow> 'c LogEntry list \<Rightarrow> bool" where
  "sound n G A rf L \<longleftrightarrow>
     grows G L
     \<or> (\<exists>W k T m. mended G L W k T \<and> int k \<le> lastIncludedIndex rf \<and> chosen n G A T m \<and> k \<le> m \<and> past T rf)"

definition log_inv ::
  "nat \<Rightarrow> ('c, 's) cluster \<Rightarrow> (nat \<Rightarrow> 'c LogEntry list) \<Rightarrow> (int \<rightharpoonup> 'c LogEntry list) \<Rightarrow> acks \<Rightarrow> bool" where
  "log_inv n cl V G A \<longleftrightarrow>
     (\<forall>i. cut_log (nodes cl i) (V i))
     \<and> (\<forall>i. stored_log (nodes cl i) = log_state (nodes cl i))
     \<and> (\<forall>i. sound n G A (nodes cl i) (V i))
     \<and> (\<forall>i. role (nodes cl i) = Leader \<longrightarrow> G (currentTerm (nodes cl i)) = Some (V i))
     \<and> (\<forall>T P. G T = Some P \<longrightarrow> grows G P \<and> led n cl T)"

lemma log_invD:
  assumes "log_inv n cl V G A"
  shows "cut_log (nodes cl i) (V i)" "stored_log (nodes cl i) = log_state (nodes cl i)"
    "sound n G A (nodes cl i) (V i)"
    "role (nodes cl i) = Leader \<Longrightarrow> G (currentTerm (nodes cl i)) = Some (V i)"
    "G T = Some P \<Longrightarrow> grows G P" "G T = Some P \<Longrightarrow> led n cl T"
  using assms unfolding log_inv_def by blast+

lemma log_invI:
  assumes "\<And>i. cut_log (nodes cl i) (V i)" and "\<And>i. stored_log (nodes cl i) = log_state (nodes cl i)"
    and "\<And>i. sound n G A (nodes cl i) (V i)"
    and "\<And>i. role (nodes cl i) = Leader \<Longrightarrow> G (currentTerm (nodes cl i)) = Some (V i)"
    and "\<And>T P. G T = Some P \<Longrightarrow> grows G P" and "\<And>T P. G T = Some P \<Longrightarrow> led n cl T"
  shows "log_inv n cl V G A"
  unfolding log_inv_def by (intro conjI allI impI; (rule assms; assumption))

lemma sound_mono:
  assumes "sound n G A rf L" and "extends G G'" and "\<And>T m. chosen n G A T m \<Longrightarrow> chosen n G' A' T m"
    and "lastIncludedIndex rf \<le> lastIncludedIndex rf'" and "\<And>t. past t rf \<Longrightarrow> past t rf'"
  shows "sound n G' A' rf' L"
  using assms(1) unfolding sound_def
proof
  assume "\<exists>W k T m. mended G L W k T \<and> int k \<le> lastIncludedIndex rf \<and> chosen n G A T m \<and> k \<le> m \<and> past T rf"
  then obtain W k T m where m: "mended G L W k T" "int k \<le> lastIncludedIndex rf" "chosen n G A T m" "k \<le> m" "past T rf" by blast
  have "mended G' L W k T" "int k \<le> lastIncludedIndex rf'" "chosen n G' A' T m" "past T rf'"
    using mended_extends [OF m(1) assms(2)] m assms(3-5) by auto
  with m(4) show "grows G' L
      \<or> (\<exists>W k T m. mended G' L W k T \<and> int k \<le> lastIncludedIndex rf' \<and> chosen n G' A' T m \<and> k \<le> m \<and> past T rf')" by blast
qed (use grows_extends assms(2) in blast)

lemma sound_length:
  assumes "sound n G A rf L"
  shows "0 < length L"
  using assms by (auto simp: sound_def grows_def mended_def)

lemma leader_grows: "log_inv n cl V G A \<Longrightarrow> role (nodes cl i) = Leader \<Longrightarrow> grows G (V i)"
  using log_invD(4,5) by blast

section \<open>Votes and acknowledgements\<close>

definition barred :: "nat \<Rightarrow> ('c, 's) cluster \<Rightarrow> int \<Rightarrow> nat \<Rightarrow> bool" where
  "barred n cl T c \<longleftrightarrow>
     (\<exists>Q. peer_quorum n Q \<and> (\<forall>v \<in> Q. \<not> voted cl v T c \<and> (\<exists>T' d. T \<le> T' \<and> voted cl v T' d)))"

definition barred_ack :: "nat \<Rightarrow> ('c, 's) cluster \<Rightarrow> acks \<Rightarrow> int \<Rightarrow> nat \<Rightarrow> bool" where
  "barred_ack n cl A T m \<longleftrightarrow>
     (\<exists>Q. peer_quorum n Q \<and> (\<forall>v \<in> Q. \<not> A v T m \<and> (\<exists>T' d. T < T' \<and> voted cl v T' d)))"

text \<open>The request carries a segment of a log that its sender had as a leader, in the term \<open>t\<close> or later.\<close>

definition sent_from :: "('c, 's) cluster \<Rightarrow> (int \<rightharpoonup> 'c LogEntry list) \<Rightarrow> nat \<Rightarrow> int \<Rightarrow> 'c AppendEntriesArgs \<Rightarrow> bool" where
  "sent_from cl G i t args \<longleftrightarrow>
     aeTerm args = t \<and> (\<exists>T P. t \<le> T \<and> past T (nodes cl i) \<and> G T = Some P \<and> segment P args)"

text \<open>
  What a successful reply shows when the request was of the log of its own term: an acknowledgement,
  or no more than what is chosen anyway (a peer that has a stale end after its snapshot answers an
  empty request without a log that is up to date).
\<close>

definition reply_ok ::
  "nat \<Rightarrow> ('c, 's) cluster \<Rightarrow> (int \<rightharpoonup> 'c LogEntry list) \<Rightarrow> acks \<Rightarrow> nat \<Rightarrow> nat \<Rightarrow> int \<Rightarrow> 'c AppendEntriesArgs \<Rightarrow> AppendEntriesReply \<Rightarrow> bool" where
  "reply_ok n cl G A p i t args reply \<longleftrightarrow> aerTerm reply = t
     \<and> (\<exists>T P. t \<le> T \<and> past T (nodes cl i) \<and> G T = Some P \<and> segment P args
          \<and> (T = t \<longrightarrow> A p t (nat (PrevLogIndex args + int (length (Entries args))))
               \<or> (\<exists>m. PrevLogIndex args + int (length (Entries args)) \<le> int m \<and> chosen n G A t m)))"

text \<open>A vote request that a running candidate sent describes its log.\<close>

definition request_ok :: "'c LogEntry list \<Rightarrow> ('c, 's) raft \<Rightarrow> RequestVoteArgs \<Rightarrow> bool" where
  "request_ok L rf a \<longleftrightarrow> past (rvTerm a) rf
     \<and> (role rf = Candidate \<longrightarrow> currentTerm rf = rvTerm a \<longrightarrow>
          LastLogIndex a = int (length L) - 1 \<and> LastLogTerm a = leTerm (last L))"

definition core_inv ::
  "nat \<Rightarrow> ('c, 's) cluster \<Rightarrow> (nat \<Rightarrow> 'c LogEntry list) \<Rightarrow> (int \<rightharpoonup> 'c LogEntry list) \<Rightarrow> acks \<Rightarrow> bool" where
  "core_inv n cl V G A \<longleftrightarrow>
     (\<forall>v T m. A v T m \<longrightarrow> entry G T m \<longrightarrow> kept G T m (V v))
     \<and> (\<forall>T m. entry G T m \<longrightarrow> lost G T m \<longrightarrow> barred_ack n cl A T m)
     \<and> (\<forall>v c T m. role (nodes cl c) = Candidate \<longrightarrow> voted cl v (currentTerm (nodes cl c)) c \<longrightarrow>
          T < currentTerm (nodes cl c) \<longrightarrow> A v T m \<longrightarrow> entry G T m \<longrightarrow> kept G T m (V c))
     \<and> (\<forall>T P. G T = Some P \<longrightarrow> terms_ok T P)
     \<and> (\<forall>c. role (nodes cl c) = Candidate \<longrightarrow> currentTerm (nodes cl c) \<le> leTerm (last (V c)) \<longrightarrow>
          barred n cl (currentTerm (nodes cl c)) c)
     \<and> (\<forall>c v a. VoteRequest c v a \<in> net cl \<longrightarrow> request_ok (V c) (nodes cl c) a)
     \<and> (\<forall>v t c. voted cl v t c \<longrightarrow> past t (nodes cl c))
     \<and> (\<forall>i p t args. AppendRequest i p t args \<in> net cl \<longrightarrow> sent_from cl G i t args)
     \<and> (\<forall>p i t args reply. AppendReply p i t args reply \<in> net cl \<longrightarrow> Success reply \<longrightarrow>
          reply_ok n cl G A p i t args reply)
     \<and> (\<forall>i t k. (i, t, k) \<in> rounds cl \<longrightarrow> t \<le> currentTerm (nodes cl i))
     \<and> (\<forall>i. past 0 (nodes cl i))
     \<and> (\<forall>v T m. A v T m \<longrightarrow> past T (nodes cl v) \<and> (\<exists>P. G T = Some P \<and> m < length P))
     \<and> (\<forall>v T m k. A v T m \<longrightarrow> k \<le> m \<longrightarrow> A v T k)
     \<and> (\<forall>i m. role (nodes cl i) = Leader \<longrightarrow> m < length (V i) \<longrightarrow> A i (currentTerm (nodes cl i)) m)"

lemma core_invD:
  assumes "core_inv n cl V G A"
  shows "A v T m \<Longrightarrow> entry G T m \<Longrightarrow> kept G T m (V v)"
    "entry G T m \<Longrightarrow> lost G T m \<Longrightarrow> barred_ack n cl A T m"
    "role (nodes cl c) = Candidate \<Longrightarrow> voted cl v (currentTerm (nodes cl c)) c \<Longrightarrow> T < currentTerm (nodes cl c) \<Longrightarrow>
      A v T m \<Longrightarrow> entry G T m \<Longrightarrow> kept G T m (V c)"
    "G T = Some P \<Longrightarrow> terms_ok T P"
    "role (nodes cl c) = Candidate \<Longrightarrow> currentTerm (nodes cl c) \<le> leTerm (last (V c)) \<Longrightarrow>
      barred n cl (currentTerm (nodes cl c)) c"
    "VoteRequest c v a \<in> net cl \<Longrightarrow> request_ok (V c) (nodes cl c) a"
    "voted cl v t c \<Longrightarrow> past t (nodes cl c)"
    "AppendRequest i p t args \<in> net cl \<Longrightarrow> sent_from cl G i t args"
    "AppendReply p i t args reply \<in> net cl \<Longrightarrow> Success reply \<Longrightarrow> reply_ok n cl G A p i t args reply"
    "(i, t, k) \<in> rounds cl \<Longrightarrow> t \<le> currentTerm (nodes cl i)" "past 0 (nodes cl i)"
    "A v T m \<Longrightarrow> past T (nodes cl v)" "A v T m \<Longrightarrow> \<exists>P. G T = Some P \<and> m < length P"
    "A v T m \<Longrightarrow> k' \<le> m \<Longrightarrow> A v T k'"
    "role (nodes cl i) = Leader \<Longrightarrow> m < length (V i) \<Longrightarrow> A i (currentTerm (nodes cl i)) m"
  using assms by (simp_all add: core_inv_def) blast+

lemma core_invI:
  assumes "\<And>v T m. A v T m \<Longrightarrow> entry G T m \<Longrightarrow> kept G T m (V v)"
    and "\<And>T m. entry G T m \<Longrightarrow> lost G T m \<Longrightarrow> barred_ack n cl A T m"
    and "\<And>v c T m. role (nodes cl c) = Candidate \<Longrightarrow> voted cl v (currentTerm (nodes cl c)) c \<Longrightarrow>
      T < currentTerm (nodes cl c) \<Longrightarrow> A v T m \<Longrightarrow> entry G T m \<Longrightarrow> kept G T m (V c)"
    and "\<And>T P. G T = Some P \<Longrightarrow> terms_ok T P"
    and "\<And>c. role (nodes cl c) = Candidate \<Longrightarrow> currentTerm (nodes cl c) \<le> leTerm (last (V c)) \<Longrightarrow>
      barred n cl (currentTerm (nodes cl c)) c"
    and "\<And>c v a. VoteRequest c v a \<in> net cl \<Longrightarrow> request_ok (V c) (nodes cl c) a"
    and "\<And>v t c. voted cl v t c \<Longrightarrow> past t (nodes cl c)"
    and "\<And>i p t args. AppendRequest i p t args \<in> net cl \<Longrightarrow> sent_from cl G i t args"
    and "\<And>p i t args reply. AppendReply p i t args reply \<in> net cl \<Longrightarrow> Success reply \<Longrightarrow> reply_ok n cl G A p i t args reply"
    and "\<And>i t k. (i, t, k) \<in> rounds cl \<Longrightarrow> t \<le> currentTerm (nodes cl i)" and "\<And>i. past 0 (nodes cl i)"
    and "\<And>v T m. A v T m \<Longrightarrow> past T (nodes cl v)" and "\<And>v T m. A v T m \<Longrightarrow> \<exists>P. G T = Some P \<and> m < length P"
    and "\<And>v T m k. A v T m \<Longrightarrow> k \<le> m \<Longrightarrow> A v T k"
    and "\<And>i m. role (nodes cl i) = Leader \<Longrightarrow> m < length (V i) \<Longrightarrow> A i (currentTerm (nodes cl i)) m"
  shows "core_inv n cl V G A"
  unfolding core_inv_def by (intro conjI allI impI; (rule assms; assumption))

section \<open>Commits and snapshots\<close>

text \<open>The commit index \<open>k\<close>, known in the term \<open>t\<close>, is that of an entry chosen by then.\<close>

definition covered :: "nat \<Rightarrow> (int \<rightharpoonup> 'c LogEntry list) \<Rightarrow> acks \<Rightarrow> int \<Rightarrow> int \<Rightarrow> bool" where
  "covered n G A t k \<longleftrightarrow> k \<le> 0 \<or> (\<exists>T m. T \<le> t \<and> chosen n G A T m \<and> k \<le> int m)"

text \<open>The log agrees up to the index \<open>k\<close> with an entry chosen in a term that satisfies \<open>Q\<close>.\<close>

definition backed :: "nat \<Rightarrow> (int \<rightharpoonup> 'c LogEntry list) \<Rightarrow> acks \<Rightarrow> (int \<Rightarrow> bool) \<Rightarrow> int \<Rightarrow> 'c LogEntry list \<Rightarrow> bool" where
  "backed n G A Q k L \<longleftrightarrow>
     k = 0 \<or> (\<exists>T m. Q T \<and> chosen n G A T m \<and> k \<le> int m \<and> holds G T (nat k) L)"

definition commit_ok :: "nat \<Rightarrow> (int \<rightharpoonup> 'c LogEntry list) \<Rightarrow> acks \<Rightarrow> ('c, 's) raft \<Rightarrow> 'c LogEntry list \<Rightarrow> bool" where
  "commit_ok n G A rf L \<longleftrightarrow>
     lastIncludedIndex rf \<le> lastApplied rf \<and> lastApplied rf \<le> commitIndex rf
     \<and> (\<forall>m. pendingSnapshot rf = Some m \<longrightarrow> \<not> CommandValid m)
     \<and> backed n G A (\<lambda>T. T \<le> currentTerm rf) (commitIndex rf) L
     \<and> backed n G A (\<lambda>T. past T rf) (lastIncludedIndex rf) L"

text \<open>What a leader has recorded of a peer is committed, acknowledged by the peer, or chosen.\<close>

definition lead_ok :: "nat \<Rightarrow> (int \<rightharpoonup> 'c LogEntry list) \<Rightarrow> acks \<Rightarrow> nat \<Rightarrow> ('c, 's) raft \<Rightarrow> bool" where
  "lead_ok n G A i rf \<longleftrightarrow>
     (role rf = Leader \<longrightarrow> i < n \<and> length (matchIndex rf) = n
        \<and> (\<forall>p < n. p \<noteq> i \<longrightarrow>
             matchIndex rf ! p \<le> commitIndex rf \<or> A p (currentTerm rf) (nat (matchIndex rf ! p))
             \<or> (\<exists>m. matchIndex rf ! p \<le> int m \<and> chosen n G A (currentTerm rf) m)))"

text \<open>A snapshot under way is of chosen entries of the leader of its term, which has committed them.\<close>

definition snap_ok :: "nat \<Rightarrow> (int \<rightharpoonup> 'c LogEntry list) \<Rightarrow> acks \<Rightarrow> ('c, 's) raft \<Rightarrow> 's InstallSnapshotArgs \<Rightarrow> bool" where
  "snap_ok n G A rf args \<longleftrightarrow>
     0 \<le> isLastIncludedIndex args
     \<and> (0 < isLastIncludedIndex args \<longrightarrow>
          (\<exists>P T m. G (isTerm args) = Some P \<and> isLastIncludedIndex args < int (length P)
             \<and> isLastIncludedTerm args = leTerm (P ! nat (isLastIncludedIndex args))
             \<and> T \<le> isTerm args \<and> chosen n G A T m \<and> isLastIncludedIndex args \<le> int m)
          \<and> (role rf = Leader \<longrightarrow> currentTerm rf = isTerm args \<longrightarrow> isLastIncludedIndex args \<le> commitIndex rf))"

definition commit_inv ::
  "nat \<Rightarrow> ('c, 's) cluster \<Rightarrow> (nat \<Rightarrow> 'c LogEntry list) \<Rightarrow> (int \<rightharpoonup> 'c LogEntry list) \<Rightarrow> acks \<Rightarrow> bool" where
  "commit_inv n cl V G A \<longleftrightarrow>
     (\<forall>v. commit_ok n G A (nodes cl v) (V v)) \<and> (\<forall>i. lead_ok n G A i (nodes cl i))
     \<and> (\<forall>i t k. (i, t, k) \<in> rounds cl \<longrightarrow> covered n G A t k)
     \<and> (\<forall>i p t args. AppendRequest i p t args \<in> net cl \<longrightarrow>
          covered n G A t (LeaderCommit args) \<and> covers_commit args)
     \<and> (\<forall>i p args. SnapshotRequest i p args \<in> net cl \<longrightarrow> snap_ok n G A (nodes cl i) args)
     \<and> (\<forall>p i args reply. SnapshotReply p i args reply \<in> net cl \<longrightarrow> snap_ok n G A (nodes cl i) args)"

lemma commit_invD:
  assumes "commit_inv n cl V G A"
  shows "commit_ok n G A (nodes cl v) (V v)" "lead_ok n G A i (nodes cl i)"
    "(i, t, k) \<in> rounds cl \<Longrightarrow> covered n G A t k"
    "AppendRequest i p t args \<in> net cl \<Longrightarrow> covered n G A t (LeaderCommit args)"
    "AppendRequest i p t args \<in> net cl \<Longrightarrow> covers_commit args"
    "SnapshotRequest i p sargs \<in> net cl \<Longrightarrow> snap_ok n G A (nodes cl i) sargs"
    "SnapshotReply p i sargs reply \<in> net cl \<Longrightarrow> snap_ok n G A (nodes cl i) sargs"
  using assms unfolding commit_inv_def by blast+

section \<open>The whole invariant\<close>

definition safe ::
  "nat \<Rightarrow> ('c, 's) cluster \<Rightarrow> (nat \<Rightarrow> 'c LogEntry list) \<Rightarrow> (int \<rightharpoonup> 'c LogEntry list) \<Rightarrow> acks \<Rightarrow> bool" where
  "safe n cl V G A \<longleftrightarrow> cluster_inv n cl \<and> log_inv n cl V G A \<and> core_inv n cl V G A \<and> commit_inv n cl V G A"

lemma safeD:
  assumes "safe n cl V G A"
  shows "cluster_inv n cl" "log_inv n cl V G A" "core_inv n cl V G A" "commit_inv n cl V G A"
  using assms by (simp_all add: safe_def)

lemma elected_leader:
  assumes "safe n cl V G A" and "G T = Some P" and "elected n cl T v"
  shows "voted cl v T v"
  using log_invD(6) [OF safeD(2) [OF assms(1)] assms(2)] elected_unique [OF safeD(1) [OF assms(1)] assms(3)] by (auto simp: led_def)

text \<open>What is chosen is never lost.\<close>

lemma chosen_lasting:
  assumes "core_inv n cl V G A" and "chosen n G A T m"
  shows "lasting G T m"
proof (rule ccontr)
  assume "\<not> lasting G T m"
  then have "lost G T m" using assms(2) by (simp add: lasting_def chosen_def)
  then obtain R where R: "peer_quorum n R" "\<forall>v \<in> R. \<not> A v T m"
    using core_invD(2) [OF assms(1), of T m] assms(2) unfolding chosen_def barred_ack_def by blast
  obtain S where "peer_quorum n S" "\<forall>v \<in> S. A v T m" using assms(2) by (auto simp: chosen_def)
  with R maj.quorum_meet [of n R S] show False by blast
qed

lemma chosen_holds:
  assumes "core_inv n cl V G A" and "chosen n G A T m" and "G T' = Some Q" and "T \<le> T'" and "k \<le> m"
  shows "holds G T k Q"
  using lasting_holds [OF chosen_lasting [OF assms(1,2)] assms(3-5)] .

lemma sound_kept:
  assumes C: "core_inv n cl V G A" and L: "log_inv n cl V G A" and M: "sound n G A rf M"
    and e: "entry G T m" and k: "kept G T m L"
    and ok: "leTerm (last L) < leTerm (last M) \<or> leTerm (last L) = leTerm (last M) \<and> length L \<le> length M"
  shows "kept G T m M"
  using M unfolding sound_def
proof
  assume "grows G M"
  from up_to_date_grows [OF this core_invD(4) [OF C] log_invD(5) [OF L] e k ok] show ?thesis .
next
  assume "\<exists>W k T m. mended G M W k T \<and> int k \<le> lastIncludedIndex rf \<and> chosen n G A T m \<and> k \<le> m \<and> past T rf"
  then obtain W j S i where m: "mended G M W j S" "chosen n G A S i" "j \<le> i" by blast
  from up_to_date_mended [OF m(1) chosen_lasting [OF C m(2)] m(3) core_invD(4) [OF C] log_invD(5) [OF L] e k ok] show ?thesis .
qed

text \<open>The term of the last entry of a log, when there is one, had a leader.\<close>

lemma sound_last:
  assumes "sound n G A rf M" and "0 < leTerm (last M)"
  shows "\<exists>P. G (leTerm (last M)) = Some P"
proof -
  obtain W where W: "grows G W" "length W = length M" "last W = last M"
    using assms(1) mendedD(1,2,7) unfolding sound_def by metis
  obtain es where es: "W = first_entry # es" using W(1) by (auto simp: grows_def)
  have "es \<noteq> []"
  proof
    assume "es = []"
    then have "leTerm (last W) = 0" by (simp add: es)
    with W(3) assms(2) show False by simp
  qed
  then have "0 < length W - 1" by (simp add: es)
  from grows_last [OF W(1) this] W(3) show ?thesis by auto
qed

end
