(* ===== verification/Raft_Keep.thy ===== *)
theory Raft_Keep
  imports Raft_Invariants
begin

text \<open>
  The steps of a cluster that change no log but for its cut: elections and votes, heartbeats, replies,
  rejected requests, snapshots that the service takes, the apply loop, and crashes.
\<close>

section \<open>The logs\<close>

lemma log_keep:
  assumes S: "safe n cl V G A" and step: "cluster_step n cl cl'"
    and nodes: "nodes cl' = (nodes cl)(i := rf')"
    and keep: "log_kept (nodes cl i) rf'" and past: "\<And>t. past t (nodes cl i) \<Longrightarrow> past t rf'"
    and cand: "no_candidate (nodes cl i) rf' \<or> currentTerm (nodes cl i) < currentTerm rf'"
  shows "log_inv n cl' V G A"
proof (rule log_invI)
  note d = log_invD [OF safeD(2) [OF S]]
  show "cut_log (nodes cl' j) (V j)" "stored_log (nodes cl' j) = log_state (nodes cl' j)" for j
    using keep d(1,2) by (auto simp: nodes log_kept_def)
  show "sound n G A (nodes cl' j) (V j)" for j
    by (rule sound_mono [OF d(3) [of j] extends_refl]) (use keep past in \<open>auto simp: nodes log_kept_def\<close>)
  show "G (currentTerm (nodes cl' j)) = Some (V j)" if "role (nodes cl' j) = Leader" for j
    using that keep d(4) by (auto simp: nodes log_kept_def split: if_splits)
  show "grows G P" if "G T = Some P" for T P using d(5) [OF that] .
  show "led n cl' T" if "G T = Some P" for T P
    using led_step [OF safeD(1) [OF S] d(6) [OF that] nodes step_grows(2) [OF step] cand] .
qed

section \<open>Votes and acknowledgements\<close>

lemma barred_ack_mono:
  assumes "barred_ack n cl A T m" and "\<And>v t c. voted cl v t c \<Longrightarrow> voted cl' v t c"
    and "\<And>v T' d. A' v T m \<Longrightarrow> T < T' \<Longrightarrow> voted cl v T' d \<Longrightarrow> A v T m"
  shows "barred_ack n cl' A' T m"
  using assms unfolding barred_ack_def by meson

text \<open>The peer goes back behind no term, and does not become a candidate.\<close>

definition stays :: "('c, 's) raft \<Rightarrow> ('c, 's) raft \<Rightarrow> bool" where
  "stays rf rf' \<longleftrightarrow> (\<forall>t. past t rf \<longrightarrow> past t rf') \<and> no_candidate rf rf'"

lemma staysI: "no_candidate rf rf' \<Longrightarrow> vote_safe rf rf' \<Longrightarrow> stays rf rf'"
  using vote_safe_past by (auto simp: stays_def)

lemma stays_refl [simp]: "stays rf rf"
  by (simp add: stays_def)

lemma stays_request: "stays rf rf' \<Longrightarrow> request_ok L rf a \<Longrightarrow> request_ok L rf' a"
  by (auto simp: stays_def request_ok_def no_candidate_def)

lemma sent_from_mono:
  "sent_from cl G j t args \<Longrightarrow> nodes cl' = (nodes cl)(i := rf') \<Longrightarrow> (\<And>t. past t (nodes cl i) \<Longrightarrow> past t rf') \<Longrightarrow>
   extends G G' \<Longrightarrow> sent_from cl' G' j t args"
  unfolding sent_from_def extends_def by (metis fun_upd_apply segment_append)

lemma reply_ok_mono:
  assumes "reply_ok n cl G A p j t args reply" and "nodes cl' = (nodes cl)(i := rf')"
    and "\<And>t. past t (nodes cl i) \<Longrightarrow> past t rf'" and ext: "extends G G'" and A: "A \<le> A'"
  shows "reply_ok n cl' G' A' p j t args reply"
proof -
  obtain T P where r: "aerTerm reply = t" "t \<le> T" "past T (nodes cl j)" "G T = Some P" "segment P args"
    "T = t \<longrightarrow> A p t (nat (PrevLogIndex args + int (length (Entries args))))
      \<or> (\<exists>m. PrevLogIndex args + int (length (Entries args)) \<le> int m \<and> chosen n G A t m)"
    using assms(1) unfolding reply_ok_def by blast
  obtain es where "G' T = Some (P @ es)" using ext r(4) by (auto simp: extends_def)
  moreover have "past T (nodes cl' j)" using assms(2,3) r(3) by auto
  ultimately show ?thesis
    unfolding reply_ok_def using r segment_append [OF r(5), of es] chosen_mono [OF _ ext A] A
    unfolding le_fun_def le_bool_def by blast
qed

text \<open>A vote that a candidate may get: its log wins, and the voter has not voted in the term or later.\<close>

definition fresh_vote ::
  "nat \<Rightarrow> ('c, 's) cluster \<Rightarrow> (nat \<Rightarrow> 'c LogEntry list) \<Rightarrow> acks \<Rightarrow> (int \<rightharpoonup> 'c LogEntry list) \<Rightarrow> nat \<Rightarrow> int \<Rightarrow> nat \<Rightarrow> bool" where
  "fresh_vote n cl V A G u t e \<longleftrightarrow>
     past t (nodes cl e) \<and> (\<forall>T' d. voted cl u T' d \<longrightarrow> T' < t \<or> T' = t \<and> d = e)
     \<and> (\<forall>T m. role (nodes cl e) = Candidate \<longrightarrow> currentTerm (nodes cl e) = t \<longrightarrow>
          A u T m \<longrightarrow> entry G T m \<longrightarrow> kept G T m (V e))"

lemma core_keep:
  assumes C: "core_inv n cl V G A"
    and nodes: "nodes cl' = (nodes cl)(i := rf')" and stays: "stays (nodes cl i) rf'"
    and voted: "\<And>u t e. voted cl u t e \<Longrightarrow> voted cl' u t e"
    and fresh: "\<And>u t e. voted cl' u t e \<Longrightarrow> voted cl u t e \<or> fresh_vote n cl V A G u t e"
    and vreqs: "\<And>c v a. VoteRequest c v a \<in> net cl' \<Longrightarrow> VoteRequest c v a \<in> net cl"
    and areqs: "\<And>j p t args. AppendRequest j p t args \<in> net cl' \<Longrightarrow>
      AppendRequest j p t args \<in> net cl \<or> sent_from cl G j t args"
    and replies: "\<And>v j t args reply. Success reply \<Longrightarrow>
      AppendReply v j t args reply \<in> net cl' \<longleftrightarrow> AppendReply v j t args reply \<in> net cl"
    and lead: "role rf' = Leader \<Longrightarrow> role (nodes cl i) = Leader \<and> currentTerm rf' = currentTerm (nodes cl i)"
    and rounds: "\<And>j t k. (j, t, k) \<in> rounds cl' \<Longrightarrow> t \<le> currentTerm (nodes cl' j)"
  shows "core_inv n cl' V G A"
proof -
  note d = core_invD [OF C]
  have cand: "role (nodes cl j) = Candidate \<and> currentTerm (nodes cl' j) = currentTerm (nodes cl j)"
    if "role (nodes cl' j) = Candidate" for j using stays that by (auto simp: nodes stays_def no_candidate_def split: if_splits)
  have past: "past t (nodes cl j) \<Longrightarrow> past t (nodes cl' j)" for t j using stays by (auto simp: nodes stays_def)
  have bar: "barred n cl' t e" if b: "barred n cl t e" for t e
  proof -
    obtain Q where Q: "peer_quorum n Q" "\<And>u. u \<in> Q \<Longrightarrow> \<not> voted cl u t e \<and> (\<exists>T' d. t \<le> T' \<and> voted cl u T' d)"
      using b unfolding barred_def by blast
    have "\<not> voted cl' u t e" if u: "u \<in> Q" for u
    proof
      assume "voted cl' u t e"
      with fresh [of u t e] Q(2) [OF u] have "\<forall>T' d. voted cl u T' d \<longrightarrow> T' < t \<or> T' = t \<and> d = e" by (auto simp: fresh_vote_def)
      moreover obtain T' d where "t \<le> T'" "voted cl u T' d" using Q(2) [OF u] by blast
      ultimately show False using Q(2) [OF u] by force
    qed
    with Q voted show ?thesis unfolding barred_def by meson
  qed
  have past_i: "past t (nodes cl i) \<Longrightarrow> past t rf'" for t using stays by (simp add: stays_def)
  show ?thesis
  proof (rule core_invI)
    show "kept G T m (V v)" if "A v T m" "entry G T m" for v T m using d(1) that .
    show "barred_ack n cl' A T m" if "entry G T m" "lost G T m" for T m
      by (rule barred_ack_mono [OF d(2) [OF that]]) (auto simp: voted)
    show "kept G T m (V c)"
      if "role (nodes cl' c) = Candidate" "voted cl' v (currentTerm (nodes cl' c)) c" "T < currentTerm (nodes cl' c)"
        "A v T m" "entry G T m" for v c T m
      using d(3) [of c v T m] cand [OF that(1)] that fresh [OF that(2)] by (auto simp: fresh_vote_def)
    show "barred n cl' (currentTerm (nodes cl' c)) c"
      if "role (nodes cl' c) = Candidate" "currentTerm (nodes cl' c) \<le> leTerm (last (V c))" for c
      using bar d(5) [of c] cand [OF that(1)] that by simp
    show "request_ok (V c) (nodes cl' c) a" if "VoteRequest c v a \<in> net cl'" for c v a
      using d(6) [OF vreqs [OF that]] stays stays_request by (auto simp: nodes)
    show "past t (nodes cl' c)" if "voted cl' v t c" for v t c
      using past d(7) [of v t c] fresh [OF that] by (auto simp: fresh_vote_def)
    show "sent_from cl' G j t args" if "AppendRequest j p t args \<in> net cl'" for j p t args
      using areqs [OF that] d(8) sent_from_mono [OF _ nodes past_i extends_refl] by blast
    show "reply_ok n cl' G A p j t args reply" if "AppendReply p j t args reply \<in> net cl'" "Success reply" for p j t args reply
      using that d(9) [of p j t args reply] replies reply_ok_mono [OF _ nodes past_i extends_refl] by blast
    show "A j (currentTerm (nodes cl' j)) m" if "role (nodes cl' j) = Leader" "m < length (V j)" for j m
      using that lead d(15) [of j m] by (auto simp: nodes split: if_splits)
  qed (use d(4,11,12,13,14) past rounds in auto)
qed

text \<open>
  A step in which one peer, not a candidate, gets another log or acknowledges entries; what is left to
  show is about entries, not about the messages under way.
\<close>

lemma core_change:
  assumes C: "core_inv n cl V G A" and nodes: "nodes cl' = (nodes cl)(i := rf')" and voted: "voted cl' = voted cl"
    and rounds: "rounds cl' = rounds cl" and ext: "extends G G'" and more: "A \<le> A'"
    and rf': "role rf' \<noteq> Candidate" "currentTerm (nodes cl i) \<le> currentTerm rf'" "\<And>t. past t (nodes cl i) \<Longrightarrow> past t rf'"
    and reqs: "\<And>c v a. VoteRequest c v a \<in> net cl' \<Longrightarrow> VoteRequest c v a \<in> net cl"
      "\<And>j p t args. AppendRequest j p t args \<in> net cl' \<Longrightarrow> AppendRequest j p t args \<in> net cl"
    and replies: "\<And>p j t args reply. AppendReply p j t args reply \<in> net cl' \<Longrightarrow> Success reply \<Longrightarrow>
      AppendReply p j t args reply \<in> net cl \<or> reply_ok n cl' G' A' p j t args reply"
    and kept: "\<And>v T m. A' v T m \<Longrightarrow> entry G' T m \<Longrightarrow> kept G' T m ((V(i := L)) v)"
    and won: "\<And>v c T m. c \<noteq> i \<Longrightarrow> role (nodes cl c) = Candidate \<Longrightarrow> voted cl v (currentTerm (nodes cl c)) c \<Longrightarrow>
      T < currentTerm (nodes cl c) \<Longrightarrow> A' v T m \<Longrightarrow> entry G' T m \<Longrightarrow> kept G' T m (V c)"
    and lost: "\<And>T m. entry G' T m \<Longrightarrow> lost G' T m \<Longrightarrow> barred_ack n cl A' T m"
    and terms: "\<And>T P. G' T = Some P \<Longrightarrow> terms_ok T P"
    and acks: "\<And>v T m. A' v T m \<Longrightarrow> A v T m \<or> v = i \<and> past T rf' \<and> (\<exists>P. G' T = Some P \<and> m < length P)"
      "\<And>v T m k. A' v T m \<Longrightarrow> k \<le> m \<Longrightarrow> A' v T k"
      "\<And>m. role rf' = Leader \<Longrightarrow> m < length L \<Longrightarrow> A' i (currentTerm rf') m"
  shows "core_inv n cl' (V(i := L)) G' A'"
proof (rule core_invI, unfold voted rounds)
  note d = core_invD [OF C]
  have cand: "role (nodes cl c) = Candidate \<and> c \<noteq> i \<and> nodes cl' c = nodes cl c" if "role (nodes cl' c) = Candidate" for c
    using that rf'(1) by (auto simp: nodes split: if_splits)
  show "barred_ack n cl' A' T m" if "entry G' T m" "lost G' T m" for T m
    using lost [OF that] by (simp add: barred_ack_def voted)
  show "kept G' T m ((V(i := L)) c)"
    if "role (nodes cl' c) = Candidate" "voted cl v (currentTerm (nodes cl' c)) c" "T < currentTerm (nodes cl' c)"
      "A' v T m" "entry G' T m" for v c T m
    using that(2-5) cand [OF that(1)] won [of c v T m] by auto
  show "barred n cl' (currentTerm (nodes cl' c)) c"
    if "role (nodes cl' c) = Candidate" "currentTerm (nodes cl' c) \<le> leTerm (last ((V(i := L)) c))" for c
    using d(5) [of c] cand [OF that(1)] that by (simp add: barred_def voted)
  show "request_ok ((V(i := L)) c) (nodes cl' c) a" if "VoteRequest c v a \<in> net cl'" for c v a
    using d(6) [OF reqs(1) [OF that]] rf'(1,3) by (auto simp: request_ok_def nodes)
  show "sent_from cl' G' j t args" if "AppendRequest j p t args \<in> net cl'" for j p t args
    using sent_from_mono [OF d(8) [OF reqs(2) [OF that]] nodes rf'(3) ext] .
  show "reply_ok n cl' G' A' p j t args reply" if "AppendReply p j t args reply \<in> net cl'" "Success reply" for p j t args reply
    using replies [OF that] reply_ok_mono [OF d(9) nodes rf'(3) ext more] that(2) by blast
  show "past t (nodes cl' c)" if "voted cl v t c" for v t c using rf'(3) d(7) [OF that] by (auto simp: nodes)
  show "t \<le> currentTerm (nodes cl' j)" if "(j, t, k) \<in> rounds cl" for j t k
    using d(10) [OF that] rf'(2) by (auto simp: nodes)
  show "past 0 (nodes cl' j)" for j using rf'(3) d(11) [of j] by (auto simp: nodes)
  show "past T (nodes cl' v)" if "A' v T m" for v T m
    using acks(1) [OF that] d(12) [of v T m] rf'(3) by (auto simp: nodes)
  show "\<exists>P. G' T = Some P \<and> m < length P" if "A' v T m" for v T m
    using acks(1) [OF that] d(13) [of v T m] ext unfolding extends_def by (metis length_append trans_less_add1)
  show "A' j (currentTerm (nodes cl' j)) m" if "role (nodes cl' j) = Leader" "m < length ((V(i := L)) j)" for j m
    using that d(15) [of j m] acks(3) [of m] le_funD [OF le_funD [OF le_funD [OF more]]] by (auto simp: nodes split: if_splits)
qed (use kept terms acks(2) in auto)

section \<open>Commits\<close>

text \<open>A step that leaves the commits of one peer in order and tells others only what is covered.\<close>

lemma backed_mono:
  assumes "backed n G A Q k L" and "extends G G'" and "\<And>T m. chosen n G A T m \<Longrightarrow> chosen n G' A' T m"
    and "\<And>T. Q T \<Longrightarrow> Q' T"
  shows "backed n G' A' Q' k L"
  using assms(1,3,4) holds_extends [OF _ assms(2)] unfolding backed_def by blast

lemma snap_ok_mono:
  assumes "snap_ok n G A rf args" and "extends G G'" and "\<And>T m. chosen n G A T m \<Longrightarrow> chosen n G' A' T m"
    and "role rf' = Leader \<Longrightarrow> currentTerm rf' = isTerm args \<Longrightarrow> 0 < isLastIncludedIndex args \<Longrightarrow>
      role rf = Leader \<and> currentTerm rf = currentTerm rf' \<and> commitIndex rf \<le> commitIndex rf' \<or> isLastIncludedIndex args \<le> commitIndex rf'"
  shows "snap_ok n G' A' rf' args"
proof -
  have "\<exists>P T m. G' (isTerm args) = Some P \<and> isLastIncludedIndex args < int (length P)
      \<and> isLastIncludedTerm args = leTerm (P ! nat (isLastIncludedIndex args))
      \<and> T \<le> isTerm args \<and> chosen n G' A' T m \<and> isLastIncludedIndex args \<le> int m"
    if pos: "0 < isLastIncludedIndex args"
  proof -
    obtain P T m where p: "G (isTerm args) = Some P" "isLastIncludedIndex args < int (length P)"
      "isLastIncludedTerm args = leTerm (P ! nat (isLastIncludedIndex args))"
      "T \<le> isTerm args" "chosen n G A T m" "isLastIncludedIndex args \<le> int m"
      using assms(1) pos unfolding snap_ok_def by blast
    obtain es where "G' (isTerm args) = Some (P @ es)" using assms(2) p(1) by (auto simp: extends_def)
    moreover have "nat (isLastIncludedIndex args) < length P" using p(2) pos by simp
    then have "(P @ es) ! nat (isLastIncludedIndex args) = P ! nat (isLastIncludedIndex args)" by (simp add: nth_append)
    ultimately show ?thesis using p assms(3) [OF p(5)] by (intro exI [of _ "P @ es"] exI [of _ T] exI [of _ m]) auto
  qed
  moreover have "isLastIncludedIndex args \<le> commitIndex rf'"
    if "0 < isLastIncludedIndex args" "role rf' = Leader" "currentTerm rf' = isTerm args"
    using assms(4) [OF that(2,3,1)] assms(1) that by (auto simp: snap_ok_def)
  ultimately show ?thesis using assms(1) unfolding snap_ok_def by blast
qed

lemma commit_keep:
  assumes I: "commit_inv n cl V G A" and ext: "extends G G'" and acked: "A \<le> A'"
    and nodes: "nodes cl' = (nodes cl)(i := rf')" and V': "V' = V(i := L')"
    and rf': "commit_ok n G A rf' L'" "lead_ok n G A i rf'"
    and lead: "role rf' = Leader \<Longrightarrow> role (nodes cl i) = Leader \<and> currentTerm (nodes cl i) = currentTerm rf'
        \<and> commitIndex (nodes cl i) \<le> commitIndex rf' \<or> G (currentTerm rf') = None"
    and new: "\<And>j t k. (j, t, k) \<in> rounds cl' \<Longrightarrow> (j, t, k) \<in> rounds cl \<or> covered n G A t k"
      "\<And>j p t args. AppendRequest j p t args \<in> net cl' \<Longrightarrow>
        AppendRequest j p t args \<in> net cl \<or> covered n G A t (LeaderCommit args) \<and> covers_commit args"
      "\<And>j p args. SnapshotRequest j p args \<in> net cl' \<Longrightarrow> SnapshotRequest j p args \<in> net cl \<or> snap_ok n G A (nodes cl j) args"
      "\<And>p j args r. SnapshotReply p j args r \<in> net cl' \<Longrightarrow> SnapshotReply p j args r \<in> net cl \<or> SnapshotRequest j p args \<in> net cl"
  shows "commit_inv n cl' V' G' A'"
proof -
  note d = commit_invD [OF I]
  have chosen: "chosen n G A T m \<Longrightarrow> chosen n G' A' T m" for T m using chosen_mono [OF _ ext acked] .
  have covered: "covered n G' A' t k" if "covered n G A t k" for t k using that chosen by (auto simp: covered_def)
  have ok: "commit_ok n G A rf L \<Longrightarrow> commit_ok n G' A' rf L" for rf L
    by (auto simp: commit_ok_def intro: backed_mono [OF _ ext chosen])
  have lead_ok: "lead_ok n G A v rf \<Longrightarrow> lead_ok n G' A' v rf" for v rf
    using acked chosen unfolding lead_ok_def le_fun_def le_bool_def by blast
  have snap: "snap_ok n G' A' (nodes cl' j) args" if s: "snap_ok n G A (nodes cl j) args" for j args
  proof (cases "0 < isLastIncludedIndex args")
    case True
    then have "G (isTerm args) \<noteq> None" using s by (auto simp: snap_ok_def)
    then show ?thesis using lead by (intro snap_ok_mono [OF s ext chosen]) (auto simp: nodes)
  qed (use s in \<open>simp add: snap_ok_def\<close>)
  have "commit_ok n G' A' (nodes cl' v) (V' v)" "lead_ok n G' A' v (nodes cl' v)" for v
    using ok lead_ok rf' d(1,2) [of v] by (auto simp: nodes V')
  moreover have "covered n G' A' t k" if "(j, t, k) \<in> rounds cl'" for j t k using new(1) [OF that] d(3) covered by blast
  moreover have "covered n G' A' t (LeaderCommit args) \<and> covers_commit args" if "AppendRequest j p t args \<in> net cl'" for j p t args
    using new(2) [OF that] d(4,5) covered by blast
  moreover have "snap_ok n G' A' (nodes cl' j) args" if "SnapshotRequest j p args \<in> net cl'" for j p args
    using new(3) [OF that] d(6) snap by blast
  moreover have "snap_ok n G' A' (nodes cl' j) args" if "SnapshotReply p j args r \<in> net cl'" for p j args r
    using new(4) [OF that] d(6,7) snap by blast
  ultimately show ?thesis unfolding commit_inv_def by blast
qed

lemma safe_keep:
  assumes S: "safe n cl V G A" and step: "cluster_step n cl cl'" and nodes: "nodes cl' = (nodes cl)(i := rf')"
    and keep: "log_kept (nodes cl i) rf'" "stays (nodes cl i) rf'"
    and ok: "commit_ok n G A rf' (V i)" "lead_ok n G A i rf'" "role rf' = Leader \<Longrightarrow> commitIndex (nodes cl i) \<le> commitIndex rf'"
    and fresh: "\<And>u t e. voted cl' u t e \<Longrightarrow> voted cl u t e \<or> fresh_vote n cl V A G u t e"
    and vreqs: "\<And>c v a. VoteRequest c v a \<in> net cl' \<Longrightarrow> VoteRequest c v a \<in> net cl"
    and areqs: "\<And>j p t args. AppendRequest j p t args \<in> net cl' \<Longrightarrow> AppendRequest j p t args \<in> net cl
      \<or> sent_from cl G j t args \<and> covered n G A t (LeaderCommit args) \<and> covers_commit args"
    and replies: "\<And>v j t args reply. Success reply \<Longrightarrow>
      AppendReply v j t args reply \<in> net cl' \<longleftrightarrow> AppendReply v j t args reply \<in> net cl"
    and rounds: "\<And>j t k. (j, t, k) \<in> rounds cl' \<Longrightarrow> t \<le> currentTerm (nodes cl' j)"
      "\<And>j t k. (j, t, k) \<in> rounds cl' \<Longrightarrow> (j, t, k) \<in> rounds cl \<or> covered n G A t k"
    and sreqs: "\<And>j p args. SnapshotRequest j p args \<in> net cl' \<Longrightarrow> SnapshotRequest j p args \<in> net cl \<or> snap_ok n G A (nodes cl j) args"
    and sreplies: "\<And>p j args r. SnapshotReply p j args r \<in> net cl' \<Longrightarrow>
      SnapshotReply p j args r \<in> net cl \<or> SnapshotRequest j p args \<in> net cl"
  shows "safe n cl' V G A"
proof -
  note inv = safeD [OF S]
  have inv': "cluster_inv n cl'" using inv_step [OF step inv(1)] .
  have "log_inv n cl' V G A" by (rule log_keep [OF S step nodes keep(1)]) (use keep(2) in \<open>auto simp: stays_def\<close>)
  moreover have "core_inv n cl' V G A"
    by (rule core_keep [OF inv(3) nodes keep(2) step_grows(2) [OF step] fresh vreqs _ replies _ rounds(1)])
      (use areqs keep(1) in \<open>auto simp: log_kept_def\<close>)
  moreover have "commit_inv n cl' V G A"
    by (rule commit_keep [OF inv(4) extends_refl _ nodes _ ok(1,2) _ rounds(2) _ sreqs sreplies])
      (use areqs keep(1) ok(3) in \<open>auto simp: log_kept_def\<close>)
  ultimately show ?thesis using inv' by (simp add: safe_def)
qed

text \<open>The frame of the steps that send at most answers that commit to nothing.\<close>

definition quiet :: "('c, 's) cluster \<Rightarrow> ('c, 's) message set \<Rightarrow> bool" where
  "quiet cl ms \<longleftrightarrow> no_votes ms \<and> (\<forall>j p t args. AppendRequest j p t args \<notin> ms)
     \<and> (\<forall>p j t args r. AppendReply p j t args r \<in> ms \<longrightarrow> \<not> Success r) \<and> (\<forall>j p args. SnapshotRequest j p args \<notin> ms)
     \<and> (\<forall>p j args r. SnapshotReply p j args r \<in> ms \<longrightarrow> SnapshotRequest j p args \<in> net cl)"

lemma quiet_empty [simp]: "quiet cl {}"
  by (simp add: quiet_def no_votes_def)

lemma safe_quiet:
  assumes S: "safe n cl V G A" and step: "cluster_step n cl cl'" and cl': "cl' = transmit ms (update_node i rf' cl)" and ms: "quiet cl ms"
    and keep: "log_kept (nodes cl i) rf'" "no_candidate (nodes cl i) rf'" "vote_safe (nodes cl i) rf'"
    and ok: "commit_ok n G A rf' (V i)" "lead_ok n G A i rf'" "role rf' = Leader \<Longrightarrow> commitIndex (nodes cl i) \<le> commitIndex rf'"
  shows "safe n cl' V G A"
proof (rule safe_keep [OF S step _ keep(1) staysI [OF keep(2,3)] ok])
  show "t \<le> currentTerm (nodes cl' j)" if "(j, t, k) \<in> rounds cl'" for j t k
    using core_invD(10) [OF safeD(3) [OF S], of j t k] that keep(3) by (auto simp: cl' vote_safe_def)
  show "voted cl u t e \<or> fresh_vote n cl V A G u t e" if "voted cl' u t e" for u t e
    using that ms by (auto simp: voted_def cl' quiet_def no_votes_def)
  show "SnapshotReply p j args r \<in> net cl \<or> SnapshotRequest j p args \<in> net cl" if "SnapshotReply p j args r \<in> net cl'" for p j args r
  proof -
    have "SnapshotReply p j args r \<in> net cl \<or> SnapshotReply p j args r \<in> ms" using that by (simp add: cl')
    with ms show ?thesis unfolding quiet_def by blast
  qed
qed (use ms in \<open>auto simp: cl' quiet_def no_votes_def\<close>)

section \<open>What the operations do to the commit index\<close>

definition idle :: "('c, 's) raft \<Rightarrow> ('c, 's) raft \<Rightarrow> bool" where
  "idle rf rf' \<longleftrightarrow> commitIndex rf' = commitIndex rf \<and> lastApplied rf' = lastApplied rf \<and> matchIndex rf' = matchIndex rf
     \<and> pendingSnapshot rf' = pendingSnapshot rf"

lemma idle_refl [simp]: "idle rf rf"
  by (simp add: idle_def)

lemma idle_step_down [simp]: "idle rf (step_down t rf)"
  by (simp add: idle_def step_down_def persist_def persistWithSnapshot_def)

lemma backed_weaken: "backed n G A Q k L \<Longrightarrow> (\<And>T. Q T \<Longrightarrow> Q' T) \<Longrightarrow> backed n G A Q' k L"
  by (rule backed_mono [OF _ extends_refl])

lemma idle_commit:
  assumes "idle rf rf'" and "lastIncludedIndex rf' = lastIncludedIndex rf" and "currentTerm rf \<le> currentTerm rf'"
    and "\<And>t. past t rf \<Longrightarrow> past t rf'" and "commit_ok n G A rf L"
  shows "commit_ok n G A rf' L"
proof -
  have "backed n G A (\<lambda>T. T \<le> currentTerm rf') (commitIndex rf) L"
    using assms(3,5) by (auto simp: commit_ok_def elim!: backed_weaken)
  moreover have "backed n G A (\<lambda>T. past T rf') (lastIncludedIndex rf) L"
    using assms(4,5) by (auto simp: commit_ok_def elim!: backed_weaken)
  ultimately show ?thesis using assms by (simp add: idle_def commit_ok_def)
qed

lemma idle_lead:
  assumes "idle rf rf'" and "role rf' = Leader \<Longrightarrow> role rf = Leader \<and> currentTerm rf' = currentTerm rf" and "lead_ok n G A i rf"
  shows "lead_ok n G A i rf'"
  using assms by (auto simp: idle_def lead_ok_def)

lemma safe_idle:
  assumes S: "safe n cl V G A" and step: "cluster_step n cl cl'" and cl': "cl' = transmit ms (update_node i rf' cl)" and ms: "quiet cl ms"
    and keep: "log_same (nodes cl i) rf'" "no_candidate (nodes cl i) rf'" "vote_safe (nodes cl i) rf'" "idle (nodes cl i) rf'"
  shows "safe n cl' V G A"
proof (rule safe_quiet [OF S step cl' ms log_sameD [OF keep(1)] keep(2,3)])
  note d = commit_invD [OF safeD(4) [OF S]]
  show "commit_ok n G A rf' (V i)"
    by (rule idle_commit [OF keep(4) _ _ _ d(1)]) (use keep vote_safe_past [OF keep(3)] in \<open>auto simp: log_same_def log_state_def vote_safe_def\<close>)
  show "lead_ok n G A i rf'" by (rule idle_lead [OF keep(4) _ d(2)]) (use keep(1) in \<open>auto simp: log_same_def\<close>)
qed (use keep(4) in \<open>simp add: idle_def\<close>)

lemma RequestVote_idle: "RequestVote args now rf = Some (rf', reply) \<Longrightarrow> idle rf rf'"
  by (auto simp: RequestVote_def Let_def idle_def raft_ops split: if_splits bind_splits)

lemma startElection_idle: "startElection rf = Some (rf', reqs) \<Longrightarrow> idle rf rf'"
  by (auto simp: startElection_def Let_def idle_def raft_ops split: if_splits bind_splits)

lemma handleVoteReply_idle: "handleVoteReply t votes reply rf = (rf', votes') \<Longrightarrow> idle rf rf' \<or> rf' = becomeLeader rf \<and> role rf = Candidate"
  by (auto simp: handleVoteReply_def Let_def split: if_splits)

lemma AppendEntries_idle:
  "AppendEntries args now rf = Some (rf', reply) \<Longrightarrow> \<not> ae_accept args rf \<Longrightarrow> idle rf rf'"
  using AppendEntries_log_same(3) [of args now rf rf' reply]
  by (auto simp: AppendEntries_def Let_def idle_def raft_ops split: if_splits bind_splits)

lemma AppendEntries_pending:
  "AppendEntries args now rf = Some (rf', reply) \<Longrightarrow> pendingSnapshot rf' = pendingSnapshot rf"
  by (auto simp: AppendEntries_def Let_def raft_ops dest!: append_loop_frame split: if_splits bind_splits)

lemma Snapshot_idle: "Snapshot index snap rf = Some rf' \<Longrightarrow> idle rf rf' \<and> currentTerm rf' = currentTerm rf"
  by (auto simp: Snapshot_def idle_def raft_ops split: if_splits bind_splits)

lemma Make_fresh: "commitIndex (Make n i p now) = lastIncludedIndex (Make n i p now)
    \<and> lastApplied (Make n i p now) = lastIncludedIndex (Make n i p now) \<and> role (Make n i p now) = Follower
    \<and> pendingSnapshot (Make n i p now) = None"
  by (auto simp: Make_def Let_def readPersist_def split: bind_splits option.splits)

end
