(* ===== verification/Raft_Elections.thy ===== *)
theory Raft_Elections
  imports Raft_Keep
begin

text \<open>Elections keep the invariant: votes, candidates and new leaders.\<close>

section \<open>Votes\<close>

lemma last_term:
  assumes "cut_log rf L"
  shows "logTerm rf (lastLogIndex rf) = Some (leTerm (last L))"
proof -
  note d = cutD [OF assms]
  have "L \<noteq> []" using d(2,3) by auto
  then show ?thesis
    using cut_term [OF assms, of "lastLogIndex rf"] cut_last [OF assms] d(2,3) by (simp add: last_conv_nth nat_diff_distrib)
qed

lemma RequestVote_up_to_date:
  assumes "RequestVote args now rf = Some (rf', reply)" and "VoteGranted reply" and "cut_log rf L"
  shows "leTerm (last L) < LastLogTerm args
    \<or> leTerm (last L) = LastLogTerm args \<and> int (length L) - 1 \<le> LastLogIndex args"
proof -
  define r1 where "r1 = (if rvTerm args > currentTerm rf then step_down (rvTerm args) rf else rf)"
  have "cut_log r1 L" by (rule cut_cong [OF assms(3)]) (simp_all add: r1_def)
  then have "logTerm r1 (lastLogIndex r1) = Some (leTerm (last L))" "lastLogIndex r1 = int (length L) - 1"
    by (rule last_term, rule cut_last)
  then show ?thesis
    using assms(1,2) by (auto simp: RequestVote_def Let_def r1_def [symmetric] split: if_splits)
qed

lemma safe_vote:
  assumes S: "safe n cl V G A" and step: "cluster_step n cl cl'"
    and req: "VoteRequest c v args \<in> net cl" and rv: "RequestVote args now (nodes cl v) = Some (rf', reply)"
    and granted: "VoteGranted reply"
    and cl': "cl' = transmit {VoteReply v c (rvTerm args) reply} (update_node v rf' cl)"
  shows "safe n cl' V G A"
proof -
  note inv = safeD [OF S] and l = log_invD [OF safeD(2) [OF S]] and d = core_invD [OF safeD(3) [OF S]]
    and i = commit_invD [OF safeD(4) [OF S]]
  have res: "currentTerm (nodes cl v) \<le> rvTerm args" "currentTerm rf' = rvTerm args"
    "stored rf' = (rvTerm args, int (CandidateId args))"
    "currentTerm (nodes cl v) = rvTerm args \<longrightarrow> votedFor (nodes cl v) = -1 \<or> votedFor (nodes cl v) = int (CandidateId args)"
    using RequestVote_result [OF rv] granted by simp_all
  note same = RequestVote_log_same [OF rv] and idle = RequestVote_idle [OF rv]
  have past: "past t (nodes cl v) \<Longrightarrow> past t rf'" for t using res by (auto simp: past_def)
  have won: "kept G T m (V c)"
    if "role (nodes cl c) = Candidate" "currentTerm (nodes cl c) = rvTerm args" "A v T m" "entry G T m" for T m
  proof (rule sound_kept [OF inv(3,2) l(3) that(4) d(1) [OF that(3,4)]])
    have "LastLogIndex args = int (length (V c)) - 1 \<and> LastLogTerm args = leTerm (last (V c))"
      using d(6) [OF req] that by (simp add: request_ok_def)
    then show "leTerm (last (V v)) < leTerm (last (V c)) \<or> leTerm (last (V v)) = leTerm (last (V c)) \<and> length (V v) \<le> length (V c)"
      using RequestVote_up_to_date [OF rv granted l(1)] by auto
  qed
  have "T' < rvTerm args \<or> T' = rvTerm args \<and> e = c" if "voted cl v T' e" for T' e
    using cluster_invD(4) [OF inv(1) that] res cluster_invD(3) [OF inv(1) req] by (auto simp: keeps_vote_def keeps_def)
  then have fresh: "fresh_vote n cl V A G v (rvTerm args) c"
    using won d(6) [OF req] by (auto simp: fresh_vote_def request_ok_def)
  have "commit_ok n G A rf' (V v)"
    by (rule idle_commit [OF idle _ _ past i(1)]) (use same(1) res in \<open>auto simp: log_same_def log_state_def\<close>)
  moreover have "lead_ok n G A v rf'" by (rule idle_lead [OF idle _ i(2)]) (use same(1) in \<open>auto simp: log_same_def\<close>)
  moreover have "stays (nodes cl v) rf'" using same(2) past by (simp add: stays_def)
  moreover have "voted cl u t e \<or> fresh_vote n cl V A G u t e" if "voted cl' u t e" for u t e
    using that fresh by (auto simp: voted_def cl')
  moreover have "t \<le> currentTerm (nodes cl' j)" if "(j, t, k) \<in> rounds cl'" for j t k
    using d(10) [of j t k] that res(1,2) by (auto simp: cl')
  ultimately show ?thesis
    using log_sameD [OF same(1)] idle by (intro safe_keep [OF S step, of v rf']) (auto simp: cl' idle_def)
qed

section \<open>Candidates\<close>

lemma startElection_request:
  assumes "startElection rf = Some (rf', reqs)" and "cut_log rf L"
  shows "role rf' = Candidate" "currentTerm rf' = currentTerm rf + 1" "stored rf' = (currentTerm rf + 1, int (me rf))"
    "(p, a) \<in> set reqs \<Longrightarrow> rvTerm a = currentTerm rf + 1
      \<and> LastLogIndex a = int (length L) - 1 \<and> LastLogTerm a = leTerm (last L)"
proof -
  define r1 where "r1 = persist (rf\<lparr>role := Candidate, currentTerm := currentTerm rf + 1, votedFor := int (me rf)\<rparr>)"
  have r1: "role r1 = Candidate" "currentTerm r1 = currentTerm rf + 1" "stored r1 = (currentTerm rf + 1, int (me rf))"
    by (simp_all add: r1_def)
  have "cut_log r1 L" by (rule cut_cong [OF assms(2)]) (simp_all add: r1_def)
  then have t: "logTerm r1 (lastLogIndex r1) = Some (leTerm (last L))" "lastLogIndex r1 = int (length L) - 1"
    by (rule last_term, rule cut_last)
  have rf': "rf' = r1" using assms(1) by (auto simp: startElection_def Let_def r1_def split: if_splits bind_splits)
  show "role rf' = Candidate" "currentTerm rf' = currentTerm rf + 1"
    "stored rf' = (currentTerm rf + 1, int (me rf))" using r1 by (simp_all add: rf')
  show "rvTerm a = currentTerm rf + 1 \<and> LastLogIndex a = int (length L) - 1 \<and> LastLogTerm a = leTerm (last L)"
    if "(p, a) \<in> set reqs"
    using assms(1) that t r1
    by (auto simp: startElection_def Let_def r1_def [symmetric] split: if_splits)
qed

text \<open>A candidate whose log is of its own term or a later one cannot win: a majority has voted for another.\<close>

lemma stale_barred:
  assumes S: "safe n cl V G A"
    and T: "currentTerm (nodes cl i) < T" "T \<le> leTerm (last (V i))"
    and vd: "\<And>u. voted cl' u T i \<Longrightarrow> voted cl u T i \<or> u = i" "\<And>u t e. voted cl u t e \<Longrightarrow> voted cl' u t e"
  shows "barred n cl' T i"
proof -
  note l = log_invD [OF safeD(2) [OF S]] and d = core_invD [OF safeD(3) [OF S]]
  have "0 < T" using d(11) [of i] T(1) by (simp add: past_def)
  then obtain P where "G (leTerm (last (V i))) = Some P" using sound_last [OF l(3)] T(2) by fastforce
  then obtain c Q where Q: "peer_quorum n Q" "\<And>u. u \<in> Q \<Longrightarrow> voted cl u (leTerm (last (V i))) c"
    using l(6) unfolding led_def elected_def by blast
  have "\<not> voted cl' u T i" if "u \<in> Q" for u
  proof
    assume "voted cl' u T i"
    moreover have "\<not> voted cl u T i" using d(7) [of u T i] T(1) by (auto simp: past_def)
    ultimately have "u = i" using vd(1) by blast
    with cluster_invD(4) [OF safeD(1) [OF S] Q(2) [OF that]] T show False by (simp add: keeps_vote_def keeps_def)
  qed
  with Q vd(2) T(2) show ?thesis unfolding barred_def by blast
qed

lemma core_timeout:
  assumes S: "safe n cl V G A" and step: "cluster_step n cl cl'"
    and se: "startElection (nodes cl i) = Some (rf', reqs)"
    and cl': "cl' = transmit ((\<lambda>(p, a). VoteRequest i p a) ` set reqs) (update_node i rf'
      (cl\<lparr>elections := (elections cl)((i, currentTerm rf') \<mapsto> (1, fst ` set reqs))\<rparr>))"
  shows "core_inv n cl' V G A"
proof -
  note inv = safeD [OF S] and l = log_invD [OF safeD(2) [OF S]] and d = core_invD [OF safeD(3) [OF S]]
    and res = startElection_request [OF se log_invD(1) [OF safeD(2) [OF S]]]
  let ?T = "currentTerm rf'"
  have inv': "cluster_inv n cl'" using inv_step [OF step inv(1)] .
  have sel: "nodes cl' = (nodes cl)(i := rf')" "rounds cl' = rounds cl"
    "net cl' = net cl \<union> (\<lambda>(p, a). VoteRequest i p a) ` set reqs" by (auto simp: cl')
  have vd: "voted cl' u t e \<longleftrightarrow> voted cl u t e \<or> u = i \<and> e = i \<and> t = ?T" for u t e
    by (auto simp: voted_def cl')
  have old: "\<not> voted cl u ?T i" for u using d(7) [of u ?T i] res(2) by (auto simp: past_def)
  have past_i: "past t (nodes cl i) \<Longrightarrow> past t rf'" for t using res by (auto simp: past_def)
  have past: "past t (nodes cl j) \<Longrightarrow> past t (nodes cl' j)" for t j using past_i by (auto simp: sel)
  have bar: "barred n cl' t e" if "barred n cl t e" "e \<noteq> i" for t e
    using that unfolding barred_def vd by blast
  show ?thesis
  proof (rule core_invI)
    show "barred_ack n cl' A T m" if "entry G T m" "lost G T m" for T m
      by (rule barred_ack_mono [OF d(2) [OF that]]) (auto simp: vd)
    show "kept G T m (V c)"
      if "role (nodes cl' c) = Candidate" "voted cl' v (currentTerm (nodes cl' c)) c" "T < currentTerm (nodes cl' c)"
        "A v T m" "entry G T m" for v c T m
      using that d(1) [of v T m] d(3) [of c v T m] old by (cases "c = i") (auto simp: vd sel)
    show "barred n cl' (currentTerm (nodes cl' c)) c"
      if "role (nodes cl' c) = Candidate" "currentTerm (nodes cl' c) \<le> leTerm (last (V c))" for c
      using that bar d(5) [of c] stale_barred [OF S, of i ?T cl'] res(2)
      by (cases "c = i") (auto simp: sel vd)
    show "request_ok (V c) (nodes cl' c) a" if "VoteRequest c v a \<in> net cl'" for c v a
      using that d(6) [of c v a] past_i res by (auto simp: sel request_ok_def) (auto simp: past_def)
    show "past t (nodes cl' c)" if "voted cl' v t c" for v t c
      using that past d(7) [of v t c] res by (auto simp: vd) (simp add: sel past_def)
    show "sent_from cl' G j t args" if "AppendRequest j p t args \<in> net cl'" for j p t args
      using that d(8) sent_from_mono [OF _ sel(1) past_i extends_refl] by (auto simp: sel)
    show "reply_ok n cl' G A p j t args reply" if "AppendReply p j t args reply \<in> net cl'" "Success reply" for p j t args reply
      using that d(9) [of p j t args reply] reply_ok_mono [OF _ sel(1) past_i extends_refl] by (auto simp: sel)
    show "t \<le> currentTerm (nodes cl' j)" if "(j, t, k) \<in> rounds cl'" for j t k
      using d(10) [of j t k] that res(2) by (auto simp: sel)
    show "A j (currentTerm (nodes cl' j)) m" if "role (nodes cl' j) = Leader" "m < length (V j)" for j m
      using that res(1) d(15) [of j m] by (auto simp: sel split: if_splits)
  qed (use d(1,4,11,12,13,14) past in auto)
qed

lemma safe_timeout:
  assumes S: "safe n cl V G A" and step: "cluster_step n cl cl'"
    and se: "startElection (nodes cl i) = Some (rf', reqs)"
    and cl': "cl' = transmit ((\<lambda>(p, a). VoteRequest i p a) ` set reqs) (update_node i rf'
      (cl\<lparr>elections := (elections cl)((i, currentTerm rf') \<mapsto> (1, fst ` set reqs))\<rparr>))"
  shows "safe n cl' V G A"
proof -
  note l = log_invD [OF safeD(2) [OF S]] and i = commit_invD [OF safeD(4) [OF S]]
  note same = startElection_log_same [OF se] and idle = startElection_idle [OF se] and res = startElection_request [OF se l(1)]
  have nodes: "nodes cl' = (nodes cl)(i := rf')" by (simp add: cl')
  have past: "past t (nodes cl i) \<Longrightarrow> past t rf'" for t using res by (auto simp: past_def)
  have "log_inv n cl' V G A" by (rule log_keep [OF S step nodes log_sameD [OF same(1)] past]) (use same(2) in simp_all)
  moreover have "commit_inv n cl' V G A"
  proof (rule commit_keep [OF safeD(4) [OF S] extends_refl _ nodes])
    show "commit_ok n G A rf' (V i)"
      by (rule idle_commit [OF idle _ _ past i(1)]) (use same in \<open>auto simp: log_same_def log_state_def\<close>)
    show "lead_ok n G A i rf'" by (rule idle_lead [OF idle _ i(2)]) (use same(1) in \<open>auto simp: log_same_def\<close>)
  qed (use res in \<open>auto simp: cl'\<close>)
  ultimately show ?thesis
    using core_timeout [OF S step se cl'] inv_step [OF step safeD(1) [OF S]] by (simp add: safe_def)
qed

section \<open>Leaders\<close>

text \<open>The step of a leader that puts its log, new or longer, under its term.\<close>

lemma log_lead:
  assumes S: "safe n cl V G A" and step: "cluster_step n cl cl'" and nodes: "nodes cl' = (nodes cl)(i := rf')"
    and lead: "role rf' = Leader" "stored_log rf' = log_state rf'" "cut_log rf' L"
    and G': "G' = G(currentTerm rf' \<mapsto> L)" and ext: "extends G G'" and A': "A \<le> A'"
    and grows: "grows G' L" and self: "led n cl' (currentTerm rf')"
  shows "log_inv n cl' (V(i := L)) G' A'"
proof (rule log_invI)
  note inv = safeD [OF S] and d = log_invD [OF safeD(2) [OF S]]
  have inv': "cluster_inv n cl'" using inv_step [OF step inv(1)] .
  note mono = chosen_mono [OF _ ext A']
  show "cut_log (nodes cl' j) ((V(i := L)) j)" "stored_log (nodes cl' j) = log_state (nodes cl' j)" for j
    using d(1,2) lead by (auto simp: nodes)
  show "sound n G' A' (nodes cl' j) ((V(i := L)) j)" for j
  proof (cases "j = i")
    case False
    then show ?thesis by (simp add: nodes) (rule sound_mono [OF d(3) ext mono]; simp)
  qed (simp add: sound_def grows)
  show "G' (currentTerm (nodes cl' j)) = Some ((V(i := L)) j)" if "role (nodes cl' j) = Leader" for j
  proof (cases "j = i")
    case False
    have "currentTerm (nodes cl' j) \<noteq> currentTerm (nodes cl' i)"
      using elected_unique [OF inv', of _ j i] cluster_invD(7) [OF inv', of i] cluster_invD(7) [OF inv' that] lead(1) False
      by (auto simp: nodes)
    then show ?thesis using False that d(4) [of j] by (auto simp: nodes G')
  qed (simp add: nodes G')
  show "grows G' P" if "G' T = Some P" for T P
    using that grows grows_extends [OF d(5) ext, of T P] by (auto simp: G' split: if_splits)
  show "led n cl' T" if "G' T = Some P" for T P
  proof (cases "T = currentTerm rf'")
    case False
    then show ?thesis
      using that led_step [OF inv(1) d(6) [of T P] nodes step_grows(2) [OF step]] lead(1) by (simp add: G' no_candidate_def)
  qed (use self in simp)
qed

text \<open>A candidate that wins has a log without a stale end: otherwise a majority would refuse it.\<close>

lemma winner_grows:
  assumes S: "safe n cl V G A" and cand: "role (nodes cl c) = Candidate" "currentTerm (nodes cl c) = t"
    and el: "elected n cl t c" and none: "G t = None"
  shows "grows G (V c)"
proof (rule ccontr)
  note C = safeD(3) [OF S]
  assume "\<not> grows G (V c)"
  then obtain W k T m where m: "mended G (V c) W k T" "chosen n G A T m" "k \<le> m" "past T (nodes cl c)"
    using log_invD(3) [OF safeD(2) [OF S], of c] by (auto simp: sound_def)
  obtain Q where Q: "peer_quorum n Q" "\<And>v. v \<in> Q \<Longrightarrow> voted cl v t c" using el by (auto simp: elected_def)
  obtain R where R: "peer_quorum n R" "\<And>v. v \<in> R \<Longrightarrow> A v T m" "entry G T m" using m(2) by (auto simp: chosen_def)
  obtain v where v: "v \<in> Q" "v \<in> R" using maj.quorum_meet [OF Q(1) R(1)] by blast
  have "T \<noteq> t" using none R(3) by (auto simp: entry_def)
  then have "T < t" using m(4) cand(2) by (simp add: past_def)
  then have "kept G T m (V c)" using core_invD(3) [OF C cand(1), of v T m] Q(2) [OF v(1)] R(2) [OF v(2)] R(3) cand(2) by simp
  moreover note last = chosen_lasting [OF C m(2)]
  ultimately show False using mended_last [OF m(1) last m(3)] by (simp add: kept_def lasting_def)
qed

lemma core_elect:
  assumes S: "safe n cl V G A" and inv': "cluster_inv n cl'"
    and nodes: "nodes cl' = (nodes cl)(c := becomeLeader (nodes cl c))" and net: "net cl' = net cl"
    and voted: "voted cl' = voted cl" and rounds: "rounds cl' = rounds cl"
    and cand: "role (nodes cl c) = Candidate" "currentTerm (nodes cl c) = t" and none: "G t = None"
    and el: "elected n cl t c" and self: "voted cl c t c"
  shows "core_inv n cl' V (G(t \<mapsto> V c)) (\<lambda>v T m. A v T m \<or> v = c \<and> T = t \<and> m < length (V c))"
proof -
  let ?L = "V c" and ?rf = "becomeLeader (nodes cl c)"
  let ?G = "G(t \<mapsto> ?L)" and ?A = "\<lambda>v T m. A v T m \<or> v = c \<and> T = t \<and> m < length (V c)"
  note d = core_invD [OF safeD(3) [OF S]]
  obtain Q where Q: "peer_quorum n Q" "\<And>v. v \<in> Q \<Longrightarrow> voted cl v t c" using el by (auto simp: elected_def)
  have "leTerm (last ?L) < t"
  proof (rule ccontr)
    assume "\<not> leTerm (last ?L) < t"
    then obtain R where "peer_quorum n R" "\<forall>v \<in> R. \<not> voted cl v t c" using d(5) [of c] cand by (auto simp: barred_def)
    with Q maj.quorum_meet [of n Q R] show False by blast
  qed
  note sorted = grows_sorted [OF winner_grows [OF S cand el none] d(4)]
  have old: "leTerm (?L ! m) < t" if "m < length ?L" for m
    using sorted_nth_last [OF sorted that] \<open>leTerm (last ?L) < t\<close> by simp
  have entry: "T \<noteq> t \<and> entry G T m" if "entry ?G T m" for T m
    using that old by (auto simp: entry_def split: if_splits)
  have holds: "holds ?G T m M \<longleftrightarrow> holds G T m M" and acked: "?A v T m \<longleftrightarrow> A v T m"
    if "T \<noteq> t" for T m M v using that by (simp_all add: holds_def)
  have more: "A \<le> ?A" by (auto simp: le_fun_def)
  have lost: "lost ?G T m \<longleftrightarrow> lost G T m \<or> T < t \<and> \<not> holds G T m ?L" if "T \<noteq> t" for T m
    using none by (auto simp: lost_def holds [OF that])
  have kept: "kept ?G T m M" if "kept G T m M" "T \<noteq> t" for T m M
    using that by (auto simp: kept_def lost holds)
  have ext: "extends G ?G" using none extends_refl [of G] by (auto simp: extends_def)
  have barred: "barred_ack n cl ?A T m" if e: "entry ?G T m" "lost ?G T m" for T m
  proof (cases "lost G T m")
    case True
    with d(2) entry [OF e(1)] have "barred_ack n cl A T m" "T \<noteq> t" by auto
    then show ?thesis by (simp add: barred_ack_def acked)
  next
    case False
    then have l: "T < t" "\<not> holds G T m ?L" using e entry [OF e(1)] by (simp_all add: lost)
    have "\<not> A v T m" if "v \<in> Q" for v
      using d(3) [OF cand(1), of v T m] Q(2) [OF that] False l cand(2) entry [OF e(1)] by (auto simp: kept_def)
    then show ?thesis unfolding barred_ack_def using Q l entry [OF e(1)] acked by blast
  qed
  have "core_inv n cl' (V(c := V c)) ?G ?A"
  proof (rule core_change [OF safeD(3) [OF S] nodes voted rounds ext more])
    show "terms_ok T P" if "?G T = Some P" for T P
      using that d(4) sorted old by (fastforce simp: terms_ok_def in_set_conv_nth split: if_splits)
    show "kept ?G T m ((V(c := V c)) v)" if "?A v T m" "entry ?G T m" for v T m
      using that(1) entry [OF that(2)] d(1) [of v T m] by (auto simp: acked intro: kept)
    show "kept ?G T m (V e)"
      if "role (nodes cl e) = Candidate" "voted cl v (currentTerm (nodes cl e)) e" "T < currentTerm (nodes cl e)"
        "?A v T m" "entry ?G T m" for v e T m
      using that(1-4) entry [OF that(5)] d(3) [of e v T m] by (auto simp: acked intro: kept)
    show "A v T m \<or> v = c \<and> past T ?rf \<and> (\<exists>P. ?G T = Some P \<and> m < length P)" if "?A v T m" for v T m
      using that d(7) [OF self] by (auto simp: becomeLeader_def past_def)
    show "?A v T k" if "?A v T m" "k \<le> m" for v T m k using that d(14) [of v T m k] by auto
  qed (use net cand barred in \<open>auto simp: becomeLeader_def past_def\<close>)
  then show ?thesis by simp
qed

lemma safe_elect:
  assumes S: "safe n cl V G A" and step: "cluster_step n cl cl'"
    and nodes: "nodes cl' = (nodes cl)(c := becomeLeader (nodes cl c))" and net: "net cl' = net cl"
    and voted: "voted cl' = voted cl" and rounds: "rounds cl' = rounds cl" and el: "elections cl (c, t) \<noteq> None"
    and cand: "role (nodes cl c) = Candidate" "currentTerm (nodes cl c) = t"
  shows "\<exists>G' A'. safe n cl' V G' A' \<and> extends G G' \<and> A \<le> A'"
proof -
  let ?L = "V c" and ?rf = "becomeLeader (nodes cl c)"
  let ?G = "G(t \<mapsto> ?L)" and ?A = "\<lambda>v T m. A v T m \<or> v = c \<and> T = t \<and> m < length (V c)"
  note inv = safeD [OF S] and l = log_invD [OF safeD(2) [OF S]] and i = commit_invD [OF safeD(4) [OF S]]
  have inv': "cluster_inv n cl'" using inv_step [OF step inv(1)] .
  have rf: "role ?rf = Leader" "currentTerm ?rf = t" using cand by (simp_all add: becomeLeader_def)
  have el': "elected n cl' t c" using cluster_invD(7) [OF inv', of c] rf by (simp add: nodes)
  then have elc: "elected n cl t c" by (simp add: elected_def voted)
  have none: "G t = None"
  proof (rule ccontr)
    assume "G t \<noteq> None"
    then obtain e where "elected n cl t e" "currentTerm (nodes cl e) = t \<longrightarrow> role (nodes cl e) \<noteq> Candidate"
      using l(6) [of t] by (auto simp: led_def)
    then show False using elected_unique [OF inv(1) elc, of e] cand by auto
  qed
  have ext: "extends G ?G" using none extends_refl [of G] by (auto simp: extends_def)
  have more: "A \<le> ?A" by (auto simp: le_fun_def)
  have g: "grows ?G ?L" using grows_extends [OF winner_grows [OF S cand elc none] ext] .
  have self: "voted cl c t c" using el by (simp add: voted_def)
  then have led: "led n cl' t" unfolding led_def using el' rf(1) voted by (intro exI [of _ c]) (simp add: nodes)
  have "log_inv n cl' (V(c := ?L)) ?G ?A"
    by (rule log_lead [OF S step nodes rf(1) _ _ _ ext more g])
      (use rf led l(1,2) [of c] in \<open>auto simp: becomeLeader_def log_state_def intro: cut_cong\<close>)
  moreover have "core_inv n cl' V ?G ?A" by (rule core_elect [OF S inv' nodes net voted rounds cand none elc self])
  moreover have "commit_inv n cl' V ?G ?A"
  proof (rule commit_keep [OF inv(4) ext more nodes, where L' = ?L])
    have "c < n" "npeers (nodes cl c) = n"
      using el cluster_invD(6) [OF inv(1), of c t] cluster_invD(2) [OF inv(1)] by (auto simp: election_ok_def)
    moreover have "0 \<le> commitIndex (nodes cl c)" using i(1) [of c] cutD(2) [OF l(1) [of c]] by (simp add: commit_ok_def)
    ultimately show "lead_ok n G A c ?rf" by (simp add: lead_ok_def becomeLeader_def)
    show "commit_ok n G A ?rf ?L" using i(1) [of c] by (simp add: commit_ok_def becomeLeader_def past_def)
  qed (use rf none net rounds in auto)
  ultimately have "safe n cl' V ?G ?A" using inv' by (simp add: safe_def)
  then show ?thesis using ext more by blast
qed

end
