(* ===== verification/Raft_Changes.thy ===== *)
theory Raft_Changes
  imports Raft_Elections
begin

text \<open>The steps that change a log keep the invariant: a command, an accepted request, an installed snapshot.\<close>

section \<open>A command at the leader\<close>

text \<open>What a longer log of the leader changes of the entries of the leaders.\<close>

lemma entry_longer:
  assumes "G T = Some P" and "leTerm e = T"
  shows "entry (G(T \<mapsto> P @ [e])) U m \<longleftrightarrow> entry G U m \<or> U = T \<and> m = length P"
  using assms by (auto simp: entry_def nth_append less_Suc_eq)

lemma holds_longer:
  "G T = Some P \<Longrightarrow> entry G U m \<Longrightarrow> holds (G(T \<mapsto> P @ [e])) U m M \<longleftrightarrow> holds G U m M"
  by (auto simp: holds_def entry_def)

lemma lost_longer:
  assumes P: "G T = Some P" and e: "leTerm e = T" and U: "entry G U m"
  shows "lost (G(T \<mapsto> P @ [e])) U m \<longleftrightarrow> lost G U m"
proof -
  have same: "holds G U m (P @ [e]) \<longleftrightarrow> holds G U m P" if "U < T"
  proof
    assume h: "holds G U m (P @ [e])"
    have "m < length P"
    proof (rule ccontr)
      assume "\<not> m < length P"
      with holds_term [OF U h] e that show False by (auto simp: less_Suc_eq nth_append)
    qed
    then show "holds G U m P" using h by (auto simp: holds_def)
  qed (rule holds_append)
  show ?thesis
    unfolding lost_def holds_longer [OF P U] using P same by (metis fun_upd_apply option.inject)
qed

text \<open>A later leader that has not got the new entry was elected by peers that do not acknowledge it.\<close>

lemma command_barred:
  assumes S: "safe n cl V G A" and G: "G T = Some P" "leTerm e = T"
    and late: "\<And>T' c. T < T' \<Longrightarrow> \<not> voted cl i T' c" and new: "\<And>v. \<not> A v T (length P)"
    and u: "entry (G(T \<mapsto> P @ [e])) U m" "lost (G(T \<mapsto> P @ [e])) U m"
  shows "barred_ack n cl (\<lambda>v U m. A v U m \<or> v = i \<and> U = T \<and> m = length P) U m"
proof (cases "entry G U m")
  case True
  then have "barred_ack n cl A U m" "\<not> (U = T \<and> m = length P)"
    using u(2) core_invD(2) [OF safeD(3) [OF S]] lost_longer [of G T P, OF G] G by (auto simp: entry_def)
  then show ?thesis by (auto elim!: barred_ack_mono)
next
  case False
  then have U: "U = T" "m = length P" using u(1) by (simp_all add: entry_longer [of G T P, OF G])
  then obtain T' Q where "T < T'" "G T' = Some Q" using u(2) by (auto simp: lost_def)
  then obtain c R where R: "peer_quorum n R" "\<And>v. v \<in> R \<Longrightarrow> voted cl v T' c"
    using log_invD(6) [OF safeD(2) [OF S]] unfolding led_def elected_def by blast
  have "\<not> (A v T (length P) \<or> v = i)" if "v \<in> R" for v
    using new R(2) [OF that] late [OF \<open>T < T'\<close>] by blast
  then show ?thesis unfolding barred_ack_def U using R \<open>T < T'\<close> by blast
qed

lemma core_command:
  assumes S: "safe n cl V G A" and st: "Start cmd (nodes cl i) = (rf', result)" and lead: "role (nodes cl i) = Leader"
    and cl': "cl' = update_node i rf' cl" and T: "T = currentTerm (nodes cl i)" and P: "P = V i"
    and e: "e = \<lparr>leTerm = T, leCommand = Some cmd\<rparr>"
  shows "core_inv n cl' (V(i := P @ [e])) (G(T \<mapsto> P @ [e])) (\<lambda>v U m. A v U m \<or> v = i \<and> U = T \<and> m = length P)"
proof -
  let ?G = "G(T \<mapsto> P @ [e])" and ?A = "\<lambda>v U m. A v U m \<or> v = i \<and> U = T \<and> m = length P"
  note C = safeD(3) [OF S] and l = log_invD [OF safeD(2) [OF S]] and d = core_invD [OF safeD(3) [OF S]]
  have rf': "role rf' = Leader" "currentTerm rf' = T" using st lead by (auto simp: Start_def Let_def T)
  have G: "G T = Some P" "leTerm e = T" using l(4) [OF lead] by (simp_all add: T P e)
  have past_i: "past t (nodes cl i) \<Longrightarrow> past t rf'" for t using vote_safe_past [OF Start_vote_safe [OF st]] .
  have ne: "P \<noteq> []" using l(5) [OF G(1)] by (auto simp: grows_def)
  note entry = entry_longer [of G T P, OF G] and holds = holds_longer [of G T P, OF G(1)] and lost = lost_longer [of G T P, OF G]
  have new: "\<not> A v T (length P)" for v using G d(13) [of v T "length P"] by auto
  have top: "leTerm (last P) \<le> T" using d(4) [OF G(1)] ne by (simp add: terms_ok_def)
  have kept: "kept ?G U m ((V(i := P @ [e])) v)" if "kept G U m (V v)" "entry G U m" for U m v
    using that holds_append [of G U m P "[e]"] top G(2) by (auto simp: kept_def lost holds P [symmetric])
  have late: "\<not> voted cl i T' c" if "T < T'" for T' c
    using cluster_invD(4) [OF safeD(1) [OF S], of i T' c] that by (auto simp: keeps_vote_def keeps_def T)
  have past_T: "past T rf'" using d(15) [OF lead, of 0] d(12) [of i T 0] ne past_i by (auto simp: T P)
  show ?thesis
  proof (rule core_change [OF C])
    show "extends G ?G" using G extends_refl [of G] by (auto simp: extends_def)
    show "kept ?G U m ((V(i := P @ [e])) v)" if "?A v U m" "entry ?G U m" for v U m
      using that new d(1) [of v U m] kept [of U m v] G(2) by (auto simp: entry kept_def holds_def)
    show "kept ?G U m (V c)"
      if "c \<noteq> i" "role (nodes cl c) = Candidate" "voted cl v (currentTerm (nodes cl c)) c" "U < currentTerm (nodes cl c)"
        "?A v U m" "entry ?G U m" for v c U m
      using that kept [of U m c] d(3) [of c v U m] new late by (auto simp: entry)
    show "barred_ack n cl ?A U m" if "entry ?G U m" "lost ?G U m" for U m
      using command_barred [OF S G late new that] .
    show "terms_ok U Q" if "?G U = Some Q" for U Q
      using that d(4) [OF G(1)] d(4) [of U Q] G(2) by (auto simp: terms_ok_def sorted_append split: if_splits)
    show "A v U m \<or> v = i \<and> past U rf' \<and> (\<exists>Q. ?G U = Some Q \<and> m < length Q)" if "?A v U m" for v U m
      using that past_T by auto
    show "?A v U k" if "?A v U m" "k \<le> m" for v U m k
      using that d(14) [of v U m k] d(15) [OF lead, of k] by (cases "k = m") (auto simp: T P)
    show "?A i (currentTerm rf') m" if "m < length (P @ [e])" for m
      using that d(15) [OF lead, of m] rf'(2) by (auto simp: T P less_Suc_eq)
  qed (use rf' past_i in \<open>auto simp: cl' voted_def fun_eq_iff le_fun_def T\<close>)
qed

lemma backed_append: "backed n G A Q k L \<Longrightarrow> backed n G A Q k (L @ es)"
  using holds_append unfolding backed_def by blast

lemma safe_command:
  assumes S: "safe n cl V G A" and step: "cluster_step n cl cl'" and st: "Start cmd (nodes cl i) = (rf', result)"
    and lead: "role (nodes cl i) = Leader" and cl': "cl' = update_node i rf' cl"
  shows "\<exists>V' G' A'. safe n cl' V' G' A' \<and> extends G G' \<and> A \<le> A'"
proof -
  let ?T = "currentTerm (nodes cl i)"
  define e where "e = \<lparr>leTerm = ?T, leCommand = Some cmd\<rparr>"
  let ?L = "V i @ [e]"
  let ?G = "G(?T \<mapsto> ?L)" and ?A = "\<lambda>v U m. A v U m \<or> v = i \<and> U = ?T \<and> m = length (V i)"
  note inv = safeD [OF S] and l = log_invD [OF safeD(2) [OF S]] and i = commit_invD [OF safeD(4) [OF S]]
  have rf': "role rf' = Leader" "rlog rf' = rlog (nodes cl i) @ [e]" "currentTerm rf' = ?T" "stored_log rf' = log_state rf'"
    "lastIncludedIndex rf' = lastIncludedIndex (nodes cl i)" "lastIncludedTerm rf' = lastIncludedTerm (nodes cl i)"
    using st lead by (auto simp: Start_def Let_def e_def log_state_def)
  have idle: "idle (nodes cl i) rf'" using st lead by (auto simp: Start_def Let_def idle_def raft_ops)
  have G: "G ?T = Some (V i)" using l(4) [OF lead] .
  have more: "A \<le> ?A" by (auto simp: le_fun_def)
  have ext: "extends G ?G" using G extends_refl [of G] by (auto simp: extends_def)
  have nodes: "nodes cl' = (nodes cl)(i := rf')" by (simp add: cl')
  have past: "past t (nodes cl i) \<Longrightarrow> past t rf'" for t using vote_safe_past [OF Start_vote_safe [OF st]] .
  have led: "led n cl' ?T"
    using led_step [OF inv(1) l(6) [OF G] nodes step_grows(2) [OF step]] rf'(1) by (simp add: no_candidate_def)
  have g: "grows ?G ?L" using grows_snoc [OF l(5) [OF G] ext, of e] by (simp add: e_def)
  have "log_inv n cl' (V(i := ?L)) ?G ?A"
    by (rule log_lead [OF S step nodes rf'(1,4) cut_snoc [OF l(1) rf'(2,5,6)] _ ext more g]) (use rf' led in auto)
  moreover have "core_inv n cl' (V(i := ?L)) ?G ?A" by (rule core_command [OF S st lead cl' refl refl e_def])
  moreover have "commit_inv n cl' (V(i := ?L)) ?G ?A"
  proof (rule commit_keep [OF inv(4) ext more nodes refl])
    have "commit_ok n G A rf' (V i)" by (rule idle_commit [OF idle rf'(5) _ past i(1)]) (use rf'(3) in simp)
    then show "commit_ok n G A rf' ?L" using backed_append by (auto simp: commit_ok_def)
    show "lead_ok n G A i rf'" by (rule idle_lead [OF idle _ i(2)]) (use rf'(3) lead in simp)
  qed (use rf' lead idle in \<open>auto simp: cl' idle_def\<close>)
  ultimately have "safe n cl' (V(i := ?L)) ?G ?A" using inv_step [OF step inv(1)] by (simp add: safe_def)
  then show ?thesis using ext more by blast
qed

section \<open>A peer accepts a request\<close>

lemma accept_merged:
  assumes S: "safe n cl V G A" and s: "G T = Some P" "segment P args" "aeTerm args \<le> T" and acc: "ae_accept args (nodes cl p)"
  shows "accepts args (V p) P (nat (PrevLogIndex args + int (length (Entries args))))"
proof -
  note l = log_invD [OF safeD(2) [OF S]]
  note a = cut_accept [OF l(1) acc]
  let ?k = "nat (PrevLogIndex args)"
  have k: "?k < length (V p)" "?k < length P" "leTerm (V p ! ?k) = leTerm (P ! ?k)" "int ?k = PrevLogIndex args"
    using a s(2) by (auto simp: segment_def)
  show ?thesis
    using l(3) [of p] unfolding sound_def
  proof
    assume "grows G (V p)"
    from merged_grows [OF this l(5) [OF s(1)] s(2) a(2,3)] show ?thesis .
  next
    assume "\<exists>W k T m. mended G (V p) W k T \<and> int k \<le> lastIncludedIndex (nodes cl p) \<and> chosen n G A T m \<and> k \<le> m \<and> past T (nodes cl p)"
    then obtain W j U m where m: "mended G (V p) W j U" "int j \<le> lastIncludedIndex (nodes cl p)" "chosen n G A U m" "j \<le> m"
      "past U (nodes cl p)" by blast
    have "U \<le> T" using m(5) acc s(3) by (simp add: past_def ae_accept_def)
    moreover have "j \<le> ?k" using m(2) a(1) k(4) by linarith
    ultimately have "?k = j" "take (Suc j) (V p) = take (Suc j) P"
      using mended_accept [OF m(1) chosen_lasting [OF safeD(3) [OF S] m(3)] m(4) s(1) _ l(5) [OF s(1)] _ k(1-3)] by blast+
    with merged_mended [OF m(1) l(5) [OF s(1)] s(2)] show ?thesis by blast
  qed
qed

text \<open>
  The entries of the leader's own term that the peer then has make its log up to date, or they were
  chosen before.
\<close>

lemma accept_weak:
  assumes S: "safe n cl V G A" and s: "G T = Some P" "segment P args" "aeTerm args = T" and acc: "ae_accept args (nodes cl p)"
    and m: "accepts args (V p) P m" and e: "entry G T j" "j \<le> m" and low: "leTerm (last (merged args (V p))) < T"
  shows "\<exists>i. m \<le> i \<and> chosen n G A T i"
proof -
  note l = log_invD [OF safeD(2) [OF S]] and d = core_invD [OF safeD(3) [OF S]]
  have mP: "m < length P" using m s(2) by (auto simp: accepts_def segment_def)
  have sorted: "sorted (map leTerm P)" using d(4) [OF s(1)] by (simp add: terms_ok_def)
  have T: "leTerm (P ! j) = T" using e(1) s(1) by (simp add: entry_def)
  have V: "merged args (V p) = V p" "m < length (V p)" "take (Suc m) (V p) = take (Suc m) P"
  proof -
    have "merged args (V p) \<noteq> take (Suc m) P"
    proof
      assume "merged args (V p) = take (Suc m) P"
      then have "last (merged args (V p)) = P ! m" using mP by (simp add: take_Suc_conv_app_nth)
      with sorted_term [OF sorted e(2) mP] T low show False by simp
    qed
    then show "merged args (V p) = V p" "m < length (V p)" "take (Suc m) (V p) = take (Suc m) P"
      using m by (auto simp: accepts_def)
  qed
  have "\<not> grows G (V p)"
  proof
    assume g: "grows G (V p)"
    have "V p ! j = P ! j" using take_le [OF V(3) e(2)] by (metis lessI nth_take)
    moreover have "leTerm (V p ! j) \<le> leTerm (last (V p))"
      using sorted_nth_last [OF grows_sorted [OF g d(4)]] e(2) V(2) by simp
    ultimately show False using T low V(1) by simp
  qed
  then obtain W k U i where u: "mended G (V p) W k U" "chosen n G A U i" "k \<le> i" "past U (nodes cl p)"
    using l(3) [of p] by (auto simp: sound_def)
  have k: "m \<le> k" using mended_limit [OF u(1) l(5) [OF s(1)] V(2) mP V(3)] .
  have U: "U \<le> T" using u(4) acc s(3) by (simp add: past_def ae_accept_def)
  have "holds G U i P" using chosen_holds [OF safeD(3) [OF S] u(2) s(1) U order_refl] .
  from holds_term [OF _ this] u(2) have i: "i < length P" "leTerm (P ! i) = U" by (auto simp: chosen_def)
  have "T \<le> U" using sorted_term [OF sorted _ i(1), of j] e(2) k u(3) T i(2) by simp
  then show ?thesis using U u(2,3) k by (intro exI [of _ i]) auto
qed

lemma core_append:
  assumes S: "safe n cl V G A"
    and req: "AppendRequest i p t args \<in> net cl" and ae: "AppendEntries args now (nodes cl p) = Some (rf', reply)"
    and acc: "ae_accept args (nodes cl p)"
    and cl': "cl' = transmit {AppendReply p i t args reply} (update_node p rf' cl)"
    and s: "aeTerm args = t" "t \<le> T1" "past T1 (nodes cl i)" "G T1 = Some P1" "segment P1 args" and k: "accepts args (V p) P1 k"
    and new: "new \<longleftrightarrow> T1 = t \<and> (\<forall>j \<le> k. entry G t j \<longrightarrow> t \<le> leTerm (last (merged args (V p))))"
  shows "core_inv n cl' (V(p := merged args (V p))) G (\<lambda>v T m. A v T m \<or> new \<and> v = p \<and> T = t \<and> m \<le> k)"
proof -
  let ?V = "V(p := merged args (V p))" and ?A = "\<lambda>v T m. A v T m \<or> new \<and> v = p \<and> T = t \<and> m \<le> k"
  note inv = safeD [OF S] and d = core_invD [OF safeD(3) [OF S]]
  have sorted: "sorted (map leTerm P1)" using d(4) [OF s(4)] by (simp add: terms_ok_def)
  note m = merged_holds [of G T1 P1 args "V p" k, OF s(4) sorted s(5) k]
  have kP: "k < length P1" using k s(5) by (auto simp: accepts_def segment_def)
  have r: "currentTerm rf' = t" "role rf' = Follower" "Success reply" "aerTerm reply = t"
    using AppendEntries_accept [OF acc, of now] ae s(1) by auto
  have t: "currentTerm (nodes cl p) \<le> t" using acc s(1) by (simp add: ae_accept_def)
  have sel: "nodes cl' = (nodes cl)(p := rf')" "net cl' = insert (AppendReply p i t args reply) (net cl)"
    "rounds cl' = rounds cl" by (auto simp: cl')
  have more: "A \<le> ?A" by (auto simp: le_fun_def)
  have past_i: "past s (nodes cl p) \<Longrightarrow> past s rf'" for s using vote_safe_past [OF AppendEntries_vote_safe [OF ae]] .
  have past_t: "past t rf'" using stored_encode [of rf' rf'] AppendEntries_accept [OF acc, of now] ae r(1) by (auto simp: past_def)
  have late: "\<not> voted cl p T' c" if "t < T'" for T' c
    using cluster_invD(4) [OF inv(1), of p T' c] that t by (auto simp: keeps_vote_def keeps_def)
  have kept: "kept G T j (merged args (V p))" if a: "?A p T j" "entry G T j" for T j
    using a(1)
  proof
    assume o: "A p T j"
    then have "T \<le> T1" using d(12) [OF o] t s(2) by (simp add: past_def)
    then show ?thesis using m(2) [OF a(2) d(1) [OF o a(2)]] by simp
  next
    assume "new \<and> p = p \<and> T = t \<and> j \<le> k"
    then show ?thesis using m(1) [of j] a(2) new by (auto simp: kept_def)
  qed
  have ack: "?A p t k \<or> (\<exists>m. k \<le> m \<and> chosen n G ?A t m)" if own: "T1 = t"
  proof (cases new)
    case False
    then obtain j where "j \<le> k" "entry G t j" "leTerm (last (merged args (V p))) < t" using new own by auto
    then show ?thesis
      using accept_weak [OF S _ s(5) _ acc k, of t j] s(1,4) own chosen_mono [OF _ extends_refl more] by blast
  qed simp
  have "past T1 (nodes cl' i)" using s(3) past_i by (auto simp: sel)
  moreover have "k = nat (PrevLogIndex args + int (length (Entries args)))" "0 \<le> PrevLogIndex args + int (length (Entries args))"
    using k s(5) by (auto simp: accepts_def segment_def)
  ultimately have reply: "reply_ok n cl' G ?A p i t args reply"
    unfolding reply_ok_def using s(2,4,5) r(4) ack by (fastforce simp: nat_le_iff)
  show ?thesis
  proof (rule core_change [OF safeD(3) [OF S] sel(1) _ sel(3) extends_refl more])
    show "kept G T j (?V v)" if "?A v T j" "entry G T j" for v T j
      using that kept d(1) [of v T j] by (cases "v = p") auto
    show "barred_ack n cl ?A T j" if "entry G T j" "lost G T j" for T j
      by (rule barred_ack_mono [OF d(2) [OF that]]) (use late in auto)
    show "kept G T j (V c)"
      if "role (nodes cl c) = Candidate" "voted cl v (currentTerm (nodes cl c)) c" "T < currentTerm (nodes cl c)"
        "?A v T j" "entry G T j" for v c T j
      using that d(3) [of c v T j] late by auto
    show "A v T j \<or> v = p \<and> past T rf' \<and> (\<exists>P. G T = Some P \<and> j < length P)" if "?A v T j" for v T j
      using that past_t new s(4) kP by auto
    show "?A v T h" if "?A v T j" "h \<le> j" for v T j h using that d(14) [of v T j h] by auto
  qed (use r t past_i reply d(4) in \<open>auto simp: cl' voted_def fun_eq_iff\<close>)
qed

text \<open>A step in which a follower gets another log.\<close>

lemma log_change:
  assumes S: "safe n cl V G A" and step: "cluster_step n cl cl'" and nodes: "nodes cl' = (nodes cl)(p := rf')"
    and rf': "role rf' = Follower" "cut_log rf' L" "stored_log rf' = log_state rf'" "sound n G A rf' L" and A: "A \<le> A'"
  shows "log_inv n cl' (V(p := L)) G A'"
proof (rule log_invI)
  note d = log_invD [OF safeD(2) [OF S]]
  show "cut_log (nodes cl' j) ((V(p := L)) j)" "stored_log (nodes cl' j) = log_state (nodes cl' j)" for j
    using rf' d(1,2) by (auto simp: nodes)
  show "sound n G A' (nodes cl' j) ((V(p := L)) j)" for j
    by (rule sound_mono [of n G A "nodes cl' j", OF _ extends_refl chosen_mono [OF _ extends_refl A]])
      (use rf' d(3) [of j] in \<open>auto simp: nodes\<close>)
  show "G (currentTerm (nodes cl' j)) = Some ((V(p := L)) j)" if "role (nodes cl' j) = Leader" for j
    using that rf'(1) d(4) by (auto simp: nodes split: if_splits)
  show "grows G P" if "G T = Some P" for T P using d(5) [OF that] .
  show "led n cl' T" if "G T = Some P" for T P
    using led_step [OF safeD(1) [OF S] d(6) [OF that] nodes step_grows(2) [OF step]] rf'(1) by (simp add: no_candidate_def)
qed

lemma merged_sound:
  assumes "sound n G A rf L" and "grows G P" and "accepts args L P m" and "lastIncludedIndex rf' = lastIncludedIndex rf"
    and "\<And>t. past t rf \<Longrightarrow> past t rf'"
  shows "sound n G A rf' (merged args L)"
proof -
  consider "merged args L = L" | "merged args L = take (Suc m) P" using assms(3) unfolding accepts_def by blast
  then show ?thesis
  proof cases
    case 1
    then show ?thesis using sound_mono [OF assms(1) extends_refl, of A rf'] assms(4,5) by simp
  next
    case 2
    then show ?thesis using grows_take [OF assms(2), of "Suc m"] by (simp add: sound_def)
  qed
qed

lemma backed_merged:
  assumes C: "core_inv n cl V G A" and P: "G T1 = Some P" "segment P args" "accepts args L P m"
    and b: "backed n G A Q k L" and Q: "\<And>T. Q T \<Longrightarrow> T \<le> T1"
  shows "backed n G A Q k (merged args L)"
proof (cases "k = 0")
  case False
  then obtain T j where c: "Q T" "chosen n G A T j" "k \<le> int j" "holds G T (nat k) L" using b by (auto simp: backed_def)
  have "sorted (map leTerm P)" using core_invD(4) [OF C P(1)] by (simp add: terms_ok_def)
  moreover have "holds G T (nat k) P" using chosen_holds [OF C c(2) P(1) Q [OF c(1)]] c(3) by simp
  ultimately have "holds G T (nat k) (merged args L)" using merged_holds(3) [of G T1 P args L m T "nat k"] P c(4) by blast
  with c show ?thesis unfolding backed_def by blast
qed (simp add: backed_def)

lemma append_commit:
  assumes S: "safe n cl V G A"
    and req: "AppendRequest i p t args \<in> net cl" and ae: "AppendEntries args now (nodes cl p) = Some (rf', reply)"
    and acc: "ae_accept args (nodes cl p)" and s: "aeTerm args = t" "t \<le> T1" "G T1 = Some P1" "segment P1 args"
    and k: "accepts args (V p) P1 k"
  shows "commit_ok n G A rf' (merged args (V p))"
proof -
  let ?rf = "nodes cl p" and ?L = "merged args (V p)"
  note C = safeD(3) [OF S] and i = commit_invD [OF safeD(4) [OF S]]
  have r: "commitIndex rf' = ae_commit args ?rf" "currentTerm rf' = t" "lastApplied rf' = lastApplied ?rf"
    "lastIncludedIndex rf' = lastIncludedIndex ?rf" "pendingSnapshot rf' = pendingSnapshot ?rf"
    using AppendEntries_pending [OF ae] AppendEntries_accept [OF acc, of now] ae s(1) by auto
  have t: "currentTerm ?rf \<le> t" using acc s(1) by (simp add: ae_accept_def)
  have past: "past u ?rf \<Longrightarrow> past u rf'" for u using vote_safe_past [OF AppendEntries_vote_safe [OF ae]] .
  have ok: "lastIncludedIndex ?rf \<le> lastApplied ?rf" "lastApplied ?rf \<le> commitIndex ?rf"
    "\<And>m. pendingSnapshot ?rf = Some m \<Longrightarrow> \<not> CommandValid m"
    "backed n G A (\<lambda>T. T \<le> currentTerm ?rf) (commitIndex ?rf) (V p)" "backed n G A (\<lambda>T. past T ?rf) (lastIncludedIndex ?rf) (V p)"
    using i(1) [of p] by (simp_all add: commit_ok_def)
  have "backed n G A (\<lambda>T. past T ?rf) (lastIncludedIndex ?rf) ?L"
    by (rule backed_merged [OF C s(3,4) k ok(5)]) (use t s(2) in \<open>auto simp: past_def\<close>)
  then have l: "backed n G A (\<lambda>T. past T rf') (lastIncludedIndex ?rf) ?L" using past by (rule backed_weaken)
  have "backed n G A (\<lambda>T. T \<le> currentTerm ?rf) (commitIndex ?rf) ?L"
    by (rule backed_merged [OF C s(3,4) k ok(4)]) (use t s(2) in simp)
  then have c: "backed n G A (\<lambda>T. T \<le> t) (commitIndex ?rf) ?L" by (rule backed_weaken) (use t in simp)
  have "commitIndex ?rf \<le> commitIndex rf' \<and> backed n G A (\<lambda>T. T \<le> t) (commitIndex rf') ?L"
  proof (cases "LeaderCommit args > commitIndex ?rf")
    case True
    have pos: "0 < LeaderCommit args" using True ok(1,2) cutD(2) [OF log_invD(1) [OF safeD(2) [OF S], of p]] by linarith
    have cov: "LeaderCommit args \<le> PrevLogIndex args + int (length (Entries args))"
      using i(5) [OF req] by (simp add: covers_commit_def)
    obtain T m where m: "T \<le> t" "chosen n G A T m" "LeaderCommit args \<le> int m"
      using i(4) [OF req] pos by (auto simp: covered_def)
    let ?k = "nat (LeaderCommit args)"
    have sorted: "sorted (map leTerm P1)" using core_invD(4) [OF C s(3)] by (simp add: terms_ok_def)
    have "?k \<le> k" using k cov by (auto simp: accepts_def)
    then have "holds G T1 ?k ?L" using merged_holds(1) [of G T1 P1 args "V p" k ?k] s(3,4) sorted k by blast
    moreover have "holds G T ?k P1" using chosen_holds [OF C m(2) s(3)] m s(2) by simp
    ultimately have "holds G T ?k ?L" using s(3) by (auto simp: holds_def)
    then show ?thesis using m True cov r(1) unfolding backed_def by (auto simp: ae_commit_def)
  qed (use c r(1) in \<open>simp add: ae_commit_def\<close>)
  then show ?thesis using l ok r by (simp add: commit_ok_def)
qed

lemma safe_append:
  assumes S: "safe n cl V G A" and step: "cluster_step n cl cl'"
    and req: "AppendRequest i p t args \<in> net cl" and ae: "AppendEntries args now (nodes cl p) = Some (rf', reply)"
    and acc: "ae_accept args (nodes cl p)"
    and cl': "cl' = transmit {AppendReply p i t args reply} (update_node p rf' cl)"
  shows "\<exists>V' G' A'. safe n cl' V' G' A' \<and> extends G G' \<and> A \<le> A'"
proof -
  note l = log_invD [OF safeD(2) [OF S]] and C = safeD(3) [OF S]
  obtain T1 P1 where s: "aeTerm args = t" "t \<le> T1" "past T1 (nodes cl i)" "G T1 = Some P1" "segment P1 args"
    using core_invD(8) [OF C req] by (auto simp: sent_from_def)
  define k where "k = nat (PrevLogIndex args + int (length (Entries args)))"
  have k: "accepts args (V p) P1 k" using accept_merged [OF S s(4,5) _ acc] s(1,2) by (simp add: k_def)
  define new where "new \<longleftrightarrow> T1 = t \<and> (\<forall>j \<le> k. entry G t j \<longrightarrow> t \<le> leTerm (last (merged args (V p))))"
  let ?V = "V(p := merged args (V p))" and ?A = "\<lambda>v T m. A v T m \<or> new \<and> v = p \<and> T = t \<and> m \<le> k"
  have r: "rlog rf' = ae_log args (nodes cl p)" "role rf' = Follower" "raftstate (persister rf') = encode_state rf'"
    "lastIncludedIndex rf' = lastIncludedIndex (nodes cl p)" "lastIncludedTerm rf' = lastIncludedTerm (nodes cl p)"
    using AppendEntries_accept [OF acc, of now] ae by auto
  have nodes: "nodes cl' = (nodes cl)(p := rf')" by (simp add: cl')
  have more: "A \<le> ?A" by (auto simp: le_fun_def)
  have past: "past u (nodes cl p) \<Longrightarrow> past u rf'" for u using vote_safe_past [OF AppendEntries_vote_safe [OF ae]] .
  have "log_inv n cl' ?V G ?A"
    by (rule log_change [OF S step nodes r(2) cut_merged [OF l(1) acc r(1,4,5)] stored_log_encode [OF r(3)]
          merged_sound [OF l(3) l(5) [OF s(4)] k r(4) past] more])
  moreover have "core_inv n cl' ?V G ?A" by (rule core_append [OF S req ae acc cl' s k new_def])
  moreover have "commit_inv n cl' ?V G ?A"
  proof (rule commit_keep [OF safeD(4) [OF S] extends_refl more nodes refl append_commit [OF S req ae acc s(1,2,4,5) k]])
    show "lead_ok n G A p rf'" using r(2) by (simp add: lead_ok_def)
  qed (use r(2) in \<open>auto simp: cl'\<close>)
  ultimately have "safe n cl' ?V G ?A" using inv_step [OF step safeD(1) [OF S]] by (simp add: safe_def)
  then show ?thesis using extends_refl more by blast
qed

end
