(* ===== verification/Raft_Snapshots.thy ===== *)
theory Raft_Snapshots
  imports Raft_Changes
begin

text \<open>
  Snapshots keep the invariant: those that the service of a peer takes of what it has applied, and those
  that a leader sends. A peer that installs a snapshot has the leader's log up to its index.
\<close>

section \<open>A peer installs a snapshot\<close>

lemma InstallSnapshot_role: "InstallSnapshot args now rf = Some (rf', reply) \<Longrightarrow> rf' = rf \<or> role rf' = Follower"
  by (auto simp: InstallSnapshot_def Let_def persistWithSnapshot_def split: if_splits bind_splits)

lemma installed_sound:
  assumes L: "sound n G A rf L" and below: "lastIncludedIndex rf < int k" and P: "grows G P" "k < length P"
    and c: "chosen n G A T m" "k \<le> m" "holds G T k P" and rf': "int k \<le> lastIncludedIndex rf'" "past T rf'"
  shows "sound n G A rf' (installed k P L)"
proof -
  obtain W where W: "grows G W" "length W = length L" "drop (Suc k) L = drop (Suc k) W"
    using L unfolding sound_def
  proof
    assume "\<exists>W j U i. mended G L W j U \<and> int j \<le> lastIncludedIndex rf \<and> chosen n G A U i \<and> j \<le> i \<and> past U rf"
    then obtain W j U where m: "mended G L W j U" "int j \<le> lastIncludedIndex rf" by blast
    note d = mendedD [OF m(1)]
    have "Suc j + (k - j) = Suc k" using m(2) below by simp
    then have "drop (Suc k) L = drop (k - j) (drop (Suc j) L)" "drop (Suc k) W = drop (k - j) (drop (Suc j) W)"
      by (simp_all add: add.commute)
    then show thesis using that [OF d(1,2)] d(4) by simp
  qed blast
  from installed_mends [OF W P c(3)] show ?thesis using c(1,2) rf' unfolding sound_def by blast
qed

lemma core_install:
  assumes C: "core_inv n cl V G A" and nodes: "nodes cl' = (nodes cl)(p := rf')" and rounds: "rounds cl' = rounds cl"
    and net: "net cl' = insert (SnapshotReply p i args reply) (net cl)" and voted: "voted cl' = voted cl"
    and rf': "role rf' = Follower" "vote_safe (nodes cl p) rf'"
    and P: "G U = Some P" "k < length P" and c: "chosen n G A T m" "k \<le> m" "holds G T k P"
  shows "core_inv n cl' (V(p := installed k P (V p))) G A"
proof -
  let ?V = "V(p := installed k P (V p))"
  note d = core_invD [OF C]
  have sorted: "sorted (map leTerm P)" using d(4) [OF P(1)] by (simp add: terms_ok_def)
  show ?thesis
  proof (rule core_change [OF C nodes voted rounds extends_refl order_refl])
    show "kept G S j (?V v)" if "A v S j" "entry G S j" for v S j
      using d(1) [OF that] installed_kept [OF that(2) _ chosen_lasting [OF C c(1)] c(2,3) sorted P(2)] by (cases "v = p") auto
    show "past s (nodes cl p) \<Longrightarrow> past s rf'" for s using vote_safe_past [OF rf'(2)] .
  qed (use d(2-4,14) rf' net in \<open>auto simp: vote_safe_def\<close>)
qed

lemma holds_installed: "holds G T k P \<Longrightarrow> holds G T k (installed k P L)"
  by (auto simp: holds_def installed_def)

lemma installed_backed:
  assumes C: "core_inv n cl V G A" and P: "G U = Some P" and b: "backed n G A Q c L" and Q: "\<And>S. Q S \<Longrightarrow> S \<le> U"
    and k: "0 < k" "k < length P" and c: "Q T" "chosen n G A T m" "k \<le> m" "holds G T k P"
  shows "backed n G A Q (max c (int k)) (installed k P L)"
proof (cases "c < int k")
  case True
  then show ?thesis using c holds_installed [OF c(4)] unfolding backed_def by fastforce
next
  case False
  then obtain S j where s: "Q S" "chosen n G A S j" "c \<le> int j" "holds G S (nat c) L" using b k(1) by (auto simp: backed_def)
  have "holds G S (nat c) P" using chosen_holds [OF C s(2) P Q [OF s(1)]] s(3) by simp
  from holds_agree [OF this s(4)] have "take (Suc k) P = take (Suc k) L" using take_le False by (metis le_nat_iff linorder_not_le nat_int order_trans of_nat_0_le_iff)
  then have "installed k P L = L" by (rule installed_same)
  then show ?thesis using b False by simp
qed

lemma safe_install:
  assumes S: "safe n cl V G A" and step: "cluster_step n cl cl'"
    and req: "SnapshotRequest i p args \<in> net cl" and ins: "InstallSnapshot args now (nodes cl p) = Some (rf', reply)"
    and cl': "cl' = transmit {SnapshotReply p i args reply} (update_node p rf' cl)"
  shows "\<exists>V' G' A'. safe n cl' V' G' A' \<and> extends G G' \<and> A \<le> A'"
  using ins
proof (cases rule: InstallSnapshot_result)
  case none
  have "log_same (nodes cl p) rf'"
    using none stored_log_cong [of rf' "nodes cl p"] InstallSnapshot_vote_safe [OF ins] by (auto simp: log_same_def log_state_def vote_safe_def)
  moreover have "no_candidate (nodes cl p) rf'" using InstallSnapshot_role [OF ins] by (auto simp: no_candidate_def)
  moreover have "idle (nodes cl p) rf'" using none by (simp add: idle_def)
  moreover have "quiet cl {SnapshotReply p i args reply}" using req by (simp add: quiet_def no_votes_def)
  ultimately have "safe n cl' V G A" using safe_idle [OF S step cl'] InstallSnapshot_vote_safe [OF ins] by blast
  then show ?thesis using extends_refl by blast
next
  case (installs l)
  let ?rf = "nodes cl p"
  define k where "k = nat (isLastIncludedIndex args)"
  note lg = log_invD [OF safeD(2) [OF S]] and C = safeD(3) [OF S] and i = commit_invD [OF safeD(4) [OF S]]
  note safe = InstallSnapshot_vote_safe [OF ins]
  have k: "isLastIncludedIndex args = int k" "0 < k" using cutD(2) [OF lg(1) [of p]] installs(2) by (simp_all add: k_def)
  obtain P T m where P: "G (isTerm args) = Some P" "k < length P" "isLastIncludedTerm args = leTerm (P ! k)"
    "T \<le> isTerm args" "chosen n G A T m" "k \<le> m"
    using i(6) [OF req] k unfolding snap_ok_def by auto
  note c = P(5,6) chosen_holds [OF C P(5,1,4,6)]
  have past_T: "past T rf'" using stored_encode [OF installs(10)] installs(3) P(4) by (simp add: past_def)
  let ?L = "installed k P (V p)"
  let ?V = "V(p := ?L)"
  have nodes: "nodes cl' = (nodes cl)(p := rf')" by (simp add: cl')
  have cut: "cut_log rf' ?L"
    using cut_installed [OF lg(1) installs(2,12), of P rf'] installs(5-7) P(2,3) k by simp
  have snd: "sound n G A rf' ?L"
    by (rule installed_sound [OF lg(3) _ lg(5) [OF P(1)] P(2) c]) (use installs(2,6) k past_T in auto)
  have "log_inv n cl' ?V G A"
    by (rule log_change [OF S step nodes installs(4) cut stored_log_encode [OF installs(10)] snd order_refl])
  moreover have "core_inv n cl' ?V G A"
    by (rule core_install [OF C nodes _ _ _ installs(4) safe P(1,2) c]) (auto simp: cl' voted_def fun_eq_iff)
  moreover have "commit_inv n cl' ?V G A"
  proof (rule commit_keep [OF safeD(4) [OF S] extends_refl order_refl nodes refl])
    have ok: "lastApplied ?rf \<le> commitIndex ?rf" "backed n G A (\<lambda>T. T \<le> currentTerm ?rf) (commitIndex ?rf) (V p)"
      using i(1) [of p] by (simp_all add: commit_ok_def)
    have "backed n G A (\<lambda>T. T \<le> isTerm args) (commitIndex ?rf) (V p)"
      by (rule backed_weaken [OF ok(2)]) (use installs(1) in simp)
    from installed_backed [OF C P(1) this _ k(2) P(2,4) c]
    have "backed n G A (\<lambda>T. T \<le> currentTerm rf') (commitIndex rf') ?L" by (simp add: installs(3,8) k(1))
    moreover have "backed n G A (\<lambda>T. past T rf') (int k) ?L"
      using past_T c holds_installed [OF c(3)] unfolding backed_def by fastforce
    ultimately show "commit_ok n G A rf' ?L" using ok(1) installs(6,8,9,11) k(1) by (auto simp: commit_ok_def)
    show "lead_ok n G A p rf'" using installs(4) by (simp add: lead_ok_def)
  qed (use installs(4) req in \<open>auto simp: cl'\<close>)
  ultimately have "safe n cl' ?V G A" using inv_step [OF step safeD(1) [OF S]] by (simp add: safe_def)
  then show ?thesis using extends_refl by blast
qed

end
