(* ===== verification/Raft_Steps.thy ===== *)
theory Raft_Steps
  imports Raft_Snapshots
begin

text \<open>
  The remaining steps of a cluster, and the invariant along every run in which a service takes
  snapshots only of what its peer has applied (\<open>served\<close>).
\<close>

section \<open>A leader sends\<close>

lemma leader_past:
  assumes "safe n cl V G A" and "role (nodes cl i) = Leader"
  shows "past (currentTerm (nodes cl i)) (nodes cl i)"
proof -
  have "0 < length (V i)" using sound_length [OF log_invD(3) [OF safeD(2) [OF assms(1)]]] .
  then show ?thesis using core_invD(12,15) [OF safeD(3) [OF assms(1)]] assms(2) by blast
qed

lemma heartbeat_append:
  assumes S: "safe n cl V G A" and r: "(i, t, k) \<in> rounds cl"
    and h: "heartbeatRequest t k p (nodes cl i) = Some (SendAppend args)"
  shows "sent_from cl G i t args \<and> covered n G A t (LeaderCommit args) \<and> covers_commit args"
proof -
  note l = log_invD [OF safeD(2) [OF S]] and C = safeD(3) [OF S] and e = cut_request [OF log_invD(1) [OF safeD(2) [OF S]] h]
  have lead: "role (nodes cl i) = Leader" using h by (auto simp: heartbeatRequest_def split: if_splits)
  note G = l(4) [OF lead] and t = core_invD(10) [OF C r] and cov = commit_invD(3) [OF safeD(4) [OF S] r]
  have "k \<le> int (length (V i)) - 1"
    using cov unfolding covered_def
  proof
    assume "k \<le> 0"
    then show ?thesis using sound_length [OF l(3), of i] by linarith
  next
    assume "\<exists>T m. T \<le> t \<and> chosen n G A T m \<and> k \<le> int m"
    then obtain T m where "T \<le> t" "chosen n G A T m" "k \<le> int m" by blast
    then have "holds G T m (V i)" using chosen_holds [OF C _ G] t by fastforce
    with \<open>k \<le> int m\<close> show ?thesis by (auto simp: holds_def)
  qed
  then show ?thesis
    using e cov G t leader_past [OF S lead] unfolding covers_commit_def sent_from_def by auto
qed

lemma heartbeat_snapshot:
  assumes S: "safe n cl V G A" and h: "heartbeatRequest t k p (nodes cl i) = Some (SendSnapshot args)"
  shows "snap_ok n G A (nodes cl i) args"
proof -
  let ?rf = "nodes cl i"
  have lead: "role ?rf = Leader" and args: "args = snapshotArgs ?rf"
    using h by (auto simp: heartbeatRequest_def Let_def split: if_splits bind_splits)
  note d = cutD [OF log_invD(1) [OF safeD(2) [OF S], of i]] and G = log_invD(4) [OF safeD(2) [OF S] lead]
  have ok: "lastIncludedIndex ?rf \<le> commitIndex ?rf" "backed n G A (\<lambda>T. past T ?rf) (lastIncludedIndex ?rf) (V i)"
    using commit_invD(1) [OF safeD(4) [OF S], of i] by (simp_all add: commit_ok_def)
  have "\<exists>T m. T \<le> currentTerm ?rf \<and> chosen n G A T m \<and> lastIncludedIndex ?rf \<le> int m" if "0 < lastIncludedIndex ?rf"
    using ok(2) that by (auto simp: backed_def past_def)
  then show ?thesis using d G ok(1) by (auto simp: snap_ok_def args snapshotArgs_def)
qed

lemma safe_heartbeat:
  assumes S: "safe n cl V G A" and step: "cluster_step n cl cl'" and r: "(i, t, k) \<in> rounds cl"
    and h: "heartbeatRequest t k p (nodes cl i) = Some out" and cl': "cl' = transmit (send i p t out) cl"
  shows "safe n cl' V G A"
proof (rule safe_keep [OF S step, of i "nodes cl i"])
  note d = commit_invD [OF safeD(4) [OF S]]
  show "commit_ok n G A (nodes cl i) (V i)" "lead_ok n G A i (nodes cl i)" using d(1,2) by simp_all
  show "AppendRequest j q u args \<in> net cl \<or> sent_from cl G j u args \<and> covered n G A u (LeaderCommit args) \<and> covers_commit args"
    if "AppendRequest j q u args \<in> net cl'" for j q u args
    using that heartbeat_append [OF S r] h by (cases out) (auto simp: cl')
  show "SnapshotRequest j q args \<in> net cl \<or> snap_ok n G A (nodes cl j) args" if "SnapshotRequest j q args \<in> net cl'" for j q args
    using that heartbeat_snapshot [OF S, of t k p i] h by (cases out) (auto simp: cl')
  show "u \<le> currentTerm (nodes cl' j)" if "(j, u, h) \<in> rounds cl'" for j u h
    using that core_invD(10) [OF safeD(3) [OF S]] by (simp add: cl')
qed (cases out; auto simp: cl' voted_def)+

lemma safe_round:
  assumes S: "safe n cl V G A" and step: "cluster_step n cl cl'" and r: "sendHeartbeats (nodes cl i) = (t, k)"
    and cl': "cl' = cl\<lparr>rounds := insert (i, t, k) (rounds cl)\<rparr>"
  shows "safe n cl' V G A"
proof (rule safe_keep [OF S step, of i "nodes cl i"])
  note d = commit_invD [OF safeD(4) [OF S]]
  show "commit_ok n G A (nodes cl i) (V i)" "lead_ok n G A i (nodes cl i)" using d(1,2) by simp_all
  show "u \<le> currentTerm (nodes cl' j)" if "(j, u, h) \<in> rounds cl'" for j u h
    using that core_invD(10) [OF safeD(3) [OF S], of j u h] r by (auto simp: cl' sendHeartbeats_def)
  have "covered n G A t k" using r d(1) [of i] by (auto simp: sendHeartbeats_def commit_ok_def backed_def covered_def)
  then show "(j, u, h) \<in> rounds cl \<or> covered n G A u h" if "(j, u, h) \<in> rounds cl'" for j u h
    using that by (auto simp: cl')
qed (auto simp: cl' voted_def)

section \<open>A leader hears from its peers\<close>

lemma lead_ok_match:
  assumes "lead_ok n G A i rf"
    and "x = matchIndex rf ! p \<or> x \<le> commitIndex rf \<or> A p (currentTerm rf) (nat x)
      \<or> (\<exists>m. x \<le> int m \<and> chosen n G A (currentTerm rf) m)"
  shows "lead_ok n G A i (rf\<lparr>matchIndex := (matchIndex rf)[p := x], nextIndex := ni\<rparr>)"
proof -
  let ?m = "(matchIndex rf)[p := x]"
  have "?m ! q \<le> commitIndex rf \<or> A q (currentTerm rf) (nat (?m ! q)) \<or> (\<exists>m. ?m ! q \<le> int m \<and> chosen n G A (currentTerm rf) m)"
    if "role rf = Leader" "q < n" "q \<noteq> i" for q
    using assms that by (cases "q = p") (auto simp: lead_ok_def)
  then show ?thesis using assms(1) by (simp add: lead_ok_def)
qed

lemma lead_ok_commit:
  assumes "lead_ok n G A i rf" and "commitIndex rf \<le> c"
  shows "lead_ok n G A i (rf\<lparr>commitIndex := c\<rparr>)"
proof -
  have "matchIndex rf ! p \<le> c \<or> A p (currentTerm rf) (nat (matchIndex rf ! p))
      \<or> (\<exists>m. matchIndex rf ! p \<le> int m \<and> chosen n G A (currentTerm rf) m)"
    if "role rf = Leader" "p < n" "p \<noteq> i" for p
  proof -
    have "matchIndex rf ! p \<le> commitIndex rf \<or> A p (currentTerm rf) (nat (matchIndex rf ! p))
        \<or> (\<exists>m. matchIndex rf ! p \<le> int m \<and> chosen n G A (currentTerm rf) m)"
      using assms(1) that by (auto simp: lead_ok_def)
    then show ?thesis using assms(2) by auto
  qed
  then show ?thesis using assms(1) by (simp add: lead_ok_def)
qed

text \<open>An index of its own term that a leader finds on a majority of the peers is chosen.\<close>

lemma committable_chosen:
  assumes S: "safe n cl V G A" and lead: "role (nodes cl i) = Leader" "role rf = Leader" "currentTerm rf = currentTerm (nodes cl i)"
    and cut: "cut_log rf (V i)" and me: "me rf = i" "npeers rf = n" and ok: "lead_ok n G A i rf"
    and c: "commitIndex rf < c" "0 < c" "lastIncludedIndex rf \<le> c" "c \<le> lastLogIndex rf" "committable rf c"
  shows "\<exists>m. c \<le> int m \<and> chosen n G A (currentTerm rf) m"
proof (cases "\<exists>p m. p \<in> replicas rf c \<and> p \<noteq> i \<and> matchIndex rf ! p \<le> int m \<and> chosen n G A (currentTerm rf) m")
  case True
  then obtain p m where "p \<in> replicas rf c" "p \<noteq> i" "matchIndex rf ! p \<le> int m" "chosen n G A (currentTerm rf) m" by blast
  moreover from this have "c \<le> matchIndex rf ! p" using me by (simp add: replicas_def)
  ultimately show ?thesis by (intro exI [of _ m]) simp
next
  case False
  let ?T = "currentTerm rf"
  note d = core_invD [OF safeD(3) [OF S]]
  have at: "nat c < length (V i)" "leTerm (V i ! nat c) = ?T"
    using cut_last [OF cut] cut_term [OF cut c(3)] c(2,4,5) by (auto simp: committable_def)
  have "A v ?T (nat c)" if v: "v \<in> replicas rf c" for v
  proof (cases "v = i")
    case True
    then show ?thesis using d(15) [OF lead(1) at(1)] lead(3) by simp
  next
    case f: False
    then have m: "v < n" "c \<le> matchIndex rf ! v" using v me by (auto simp: replicas_def)
    have "A v ?T (nat (matchIndex rf ! v))" using ok lead(2) m f False v c(1) unfolding lead_ok_def by fastforce
    then show ?thesis by (rule d(14)) (use m(2) in simp)
  qed
  moreover have "peer_quorum n (replicas rf c)" using c(5) me by (simp add: committable_def)
  moreover have "entry G ?T (nat c)" using log_invD(4) [OF safeD(2) [OF S] lead(1)] at lead(3) by (simp add: entry_def)
  ultimately have "chosen n G A ?T (nat c)" unfolding chosen_def by blast
  then show ?thesis using c(2) by (intro exI [of _ "nat c"]) simp
qed

lemma advance_commit:
  assumes S: "safe n cl V G A" and lead: "role (nodes cl i) = Leader" "role rf = Leader" "currentTerm rf = currentTerm (nodes cl i)"
    and cut: "cut_log rf (V i)" and me: "me rf = i" "npeers rf = n" and ok: "lead_ok n G A i rf" "commit_ok n G A rf (V i)"
    and adv: "maybeAdvanceCommitIndex rf = Some rf'"
  shows "commit_ok n G A rf' (V i) \<and> lead_ok n G A i rf' \<and> commitIndex rf \<le> commitIndex rf'"
proof -
  let ?T = "currentTerm rf"
  have m: "length (matchIndex rf) = npeers rf" "me rf < npeers rf" using ok(1) lead me by (simp_all add: lead_ok_def)
  have low: "0 \<le> lastIncludedIndex rf" "lastIncludedIndex rf \<le> commitIndex rf"
    using cutD(2) [OF cut] ok(2) by (simp_all add: commit_ok_def)
  then have "lastIncludedIndex rf \<le> commitIndex rf + 1" by simp
  from advance_loop_greatest [OF m this] obtain c where c: "rf' = rf\<lparr>commitIndex := c\<rparr>"
    "greatest_commit rf (commitIndex rf + 1) (commitIndex rf) c"
    using adv by (auto simp: maybeAdvanceCommitIndex_def)
  show ?thesis
  proof (cases "c = commitIndex rf")
    case True
    then show ?thesis using ok c(1) by simp
  next
    case False
    then have k: "commitIndex rf < c" "c \<le> lastLogIndex rf" "committable rf c"
      using c(2) by (auto simp: greatest_commit_def split: if_splits)
    obtain j where j: "c \<le> int j" "chosen n G A ?T j"
      using committable_chosen [OF S lead cut me ok(1) k(1) _ _ k(2,3)] k(1) low by auto
    have G: "G ?T = Some (V i)" using log_invD(4) [OF safeD(2) [OF S] lead(1)] lead(3) by simp
    have "holds G ?T (nat c) (V i)" using G k(2) cut_last [OF cut] k(1) low by (auto simp: holds_def)
    then have "backed n G A (\<lambda>T. T \<le> currentTerm rf') c (V i)"
      using j unfolding backed_def by (intro disjI2 exI [of _ ?T] exI [of _ j]) (simp add: c(1))
    moreover have "past t rf' = past t rf" for t by (simp add: c(1) past_def)
    ultimately have "commit_ok n G A rf' (V i)" using ok(2) k(1) by (auto simp: commit_ok_def c(1))
    moreover have "lead_ok n G A i rf'" unfolding c(1) by (rule lead_ok_commit [OF ok(1)]) (use k(1) in simp)
    ultimately show ?thesis using k(1) by (simp add: c(1))
  qed
qed

lemma append_reply_commit:
  assumes S: "safe n cl V G A" and rep: "AppendReply p i t args reply \<in> net cl"
    and h: "handleAppendReply t p args reply (nodes cl i) = Some rf'"
  shows "commit_ok n G A rf' (V i) \<and> lead_ok n G A i rf' \<and> commitIndex (nodes cl i) \<le> commitIndex rf'"
proof (cases "role (nodes cl i) = Leader \<and> currentTerm (nodes cl i) = t \<and> Success reply")
  case True
  let ?rf = "nodes cl i" and ?new = "PrevLogIndex args + int (length (Entries args))"
  note d = commit_invD [OF safeD(4) [OF S]]
  define x where "x = (if ?new > matchIndex ?rf ! p then ?new else matchIndex ?rf ! p)"
  obtain T where T: "aerTerm reply = t" "t \<le> T" "past T ?rf"
    "T = t \<longrightarrow> A p t (nat ?new) \<or> (\<exists>m. ?new \<le> int m \<and> chosen n G A t m)"
    using core_invD(9) [OF safeD(3) [OF S] rep] True unfolding reply_ok_def by blast
  then have ack: "A p t (nat ?new) \<or> (\<exists>m. ?new \<le> int m \<and> chosen n G A t m)" using True by (simp add: past_def)
  obtain ni where a: "maybeAdvanceCommitIndex (?rf\<lparr>matchIndex := (matchIndex ?rf)[p := x], nextIndex := ni\<rparr>) = Some rf'"
    using h True T(1) by (auto simp: handleAppendReply_def Let_def go_nth_def go_set_def x_def bind_eq_Some_conv split: if_splits)
  let ?r = "?rf\<lparr>matchIndex := (matchIndex ?rf)[p := x], nextIndex := ni\<rparr>"
  have "lead_ok n G A i ?r" using ack True by (intro lead_ok_match [OF d(2)]) (auto simp: x_def)
  moreover have "commit_ok n G A ?r (V i)" using d(1) [of i] by (simp add: commit_ok_def past_def)
  moreover have "cut_log ?r (V i)" by (rule cut_cong [OF log_invD(1) [OF safeD(2) [OF S]]]) simp_all
  ultimately show ?thesis
    using advance_commit [OF S _ _ _ _ _ _ _ _ a] True cluster_invD(1,2) [OF safeD(1) [OF S], of i] by (simp add: past_def)
next
  case False
  note d = commit_invD [OF safeD(4) [OF S]] and same = handleAppendReply_log_same(1) [OF h] and vs = handleAppendReply_vote_safe [OF h]
  have idle: "idle (nodes cl i) rf'"
    using False h by (auto simp: handleAppendReply_def Let_def idle_def raft_ops split: if_splits bind_splits)
  have "commit_ok n G A rf' (V i)"
    by (rule idle_commit [OF idle _ _ vote_safe_past [OF vs] d(1)]) (use same vs in \<open>auto simp: log_same_def log_state_def vote_safe_def\<close>)
  moreover have "lead_ok n G A i rf'" by (rule idle_lead [OF idle _ d(2)]) (use same in \<open>auto simp: log_same_def\<close>)
  ultimately show ?thesis using idle by (simp add: idle_def)
qed

lemma install_reply_commit:
  assumes S: "safe n cl V G A" and rep: "SnapshotReply p i args reply \<in> net cl"
    and h: "handleSnapshotReply p args reply (nodes cl i) = Some rf'"
  shows "commit_ok n G A rf' (V i) \<and> lead_ok n G A i rf' \<and> commitIndex (nodes cl i) \<le> commitIndex rf'"
proof -
  let ?rf = "nodes cl i"
  note d = commit_invD [OF safeD(4) [OF S]] and vs = handleSnapshotReply_vote_safe [OF h] and same = handleSnapshotReply_log_same(1) [OF h]
  define x where "x = (if isLastIncludedIndex args > matchIndex ?rf ! p then isLastIncludedIndex args else matchIndex ?rf ! p)"
  consider (idle) "idle ?rf rf'"
    | (match) ni where "role ?rf = Leader" "currentTerm ?rf = isTerm args"
        "rf' = ?rf\<lparr>matchIndex := (matchIndex ?rf)[p := x], nextIndex := ni\<rparr>"
    using h by (auto simp: handleSnapshotReply_def go_nth_def go_set_def x_def split: if_splits)
  then show ?thesis
  proof cases
    case idle
    have "commit_ok n G A rf' (V i)"
      by (rule idle_commit [OF idle _ _ vote_safe_past [OF vs] d(1)]) (use same vs in \<open>auto simp: log_same_def log_state_def vote_safe_def\<close>)
    moreover have "lead_ok n G A i rf'" by (rule idle_lead [OF idle _ d(2)]) (use same in \<open>auto simp: log_same_def\<close>)
    ultimately show ?thesis using idle by (simp add: idle_def)
  next
    case match
    have "0 \<le> commitIndex ?rf" using d(1) [of i] cutD(2) [OF log_invD(1) [OF safeD(2) [OF S], of i]] by (simp add: commit_ok_def)
    then have "isLastIncludedIndex args \<le> commitIndex ?rf" using d(7) [OF rep] match(1,2) unfolding snap_ok_def by force
    then have "lead_ok n G A i rf'" unfolding match(3) by (intro lead_ok_match [OF d(2)]) (auto simp: x_def)
    then show ?thesis using d(1) [of i] by (simp add: match(3) commit_ok_def past_def)
  qed
qed

section \<open>A peer applies, compacts and restarts\<close>

lemma applyStep_commit:
  assumes "applyStep inner rf = Some (inner', rf', m)" and "commit_ok n G A rf L" and "lead_ok n G A i rf"
  shows "commit_ok n G A rf' L \<and> lead_ok n G A i rf' \<and> commitIndex rf' = commitIndex rf"
  using assms by (auto simp: applyStep_def Let_def commit_ok_def lead_ok_def past_def split: if_splits bind_splits)

lemma Snapshot_commit:
  assumes sn: "Snapshot index snap rf = Some rf'" and served: "lastIncludedIndex rf' \<le> lastApplied rf'"
    and low: "0 \<le> lastIncludedIndex rf" and ok: "commit_ok n G A rf L" "lead_ok n G A i rf"
  shows "commit_ok n G A rf' L \<and> lead_ok n G A i rf' \<and> commitIndex rf' = commitIndex rf"
proof -
  have idle: "idle rf rf'" "currentTerm rf' = currentTerm rf" using Snapshot_idle [OF sn] by simp_all
  have "backed n G A (\<lambda>T. past T rf') (lastIncludedIndex rf') L"
  proof (cases "rf' = rf")
    case False
    then have s: "lastIncludedIndex rf < lastIncludedIndex rf'" "stored rf' = (currentTerm rf', votedFor rf')"
      using sn by (auto simp: Snapshot_def split: if_splits bind_splits)
    have le: "lastIncludedIndex rf' \<le> commitIndex rf" using served idle ok(1) by (simp add: idle_def commit_ok_def)
    then obtain T m where T: "T \<le> currentTerm rf" "chosen n G A T m" "commitIndex rf \<le> int m" "holds G T (nat (commitIndex rf)) L"
      using ok(1) s(1) low by (auto simp: commit_ok_def backed_def)
    have "holds G T (nat (lastIncludedIndex rf')) L" using holds_le [OF T(4)] le by simp
    moreover have "past T rf'" using T(1) s(2) idle(2) by (simp add: past_def)
    ultimately show ?thesis using T(2,3) le unfolding backed_def by force
  qed (use ok(1) in \<open>simp add: commit_ok_def\<close>)
  then have "commit_ok n G A rf' L" using ok(1) served idle by (auto simp: commit_ok_def idle_def)
  moreover have "role rf' = Leader \<Longrightarrow> role rf = Leader \<and> currentTerm rf' = currentTerm rf"
    using Snapshot_vote_safe [OF sn] by (simp add: vote_safe_def)
  then have "lead_ok n G A i rf'" by (rule idle_lead [OF idle(1) _ ok(2)])
  ultimately show ?thesis using idle(1) by (simp add: idle_def)
qed

lemma safe_crash:
  assumes S: "safe n cl V G A" and step: "cluster_step n cl cl'" and cl': "cl' = update_node i (Make n i (persister (nodes cl i)) now)
    (cl\<lparr>elections := (\<lambda>(c, t). if c = i then map_option (\<lambda>(k, w). (k, {})) (elections cl (c, t))
       else elections cl (c, t)), rounds := {r \<in> rounds cl. fst r \<noteq> i}\<rparr>)"
  shows "safe n cl' V G A"
proof -
  let ?rf = "nodes cl i" and ?rf' = "Make n i (persister (nodes cl i)) now"
  note l = log_invD [OF safeD(2) [OF S]] and d = commit_invD [OF safeD(4) [OF S]]
  have "persister ?rf' = persister ?rf" by (auto simp: Make_def Let_def readPersist_def split: bind_splits option.splits)
  then have st: "stored ?rf' = stored ?rf" by (simp add: stored_def)
  have past: "past t ?rf \<Longrightarrow> past t ?rf'" for t using st Make_vote(1) [of n i ?rf now] by (simp add: past_def)
  have pt: "past t ?rf' \<Longrightarrow> t \<le> currentTerm ?rf'" for t by (simp add: past_def)
  note keep = Make_log_kept [OF l(2), of i n i now] and f = Make_fresh [of n i "persister ?rf" now]
  have lii: "lastIncludedIndex ?rf' = lastIncludedIndex ?rf" using Make_log [of n i ?rf now] l(2) [of i] by (simp add: log_state_def)
  have b: "backed n G A (\<lambda>T. past T ?rf') (lastIncludedIndex ?rf) (V i)"
    using d(1) [of i] past by (auto simp: commit_ok_def elim!: backed_weaken)
  then have "backed n G A (\<lambda>T. T \<le> currentTerm ?rf') (lastIncludedIndex ?rf) (V i)" using pt by (rule backed_weaken)
  with b have "commit_ok n G A ?rf' (V i)" using f lii by (simp add: commit_ok_def)
  moreover have "lead_ok n G A i ?rf'" using f by (simp add: lead_ok_def)
  moreover have "stays ?rf ?rf'" using past keep(2) by (simp add: stays_def)
  moreover have "voted cl u t e" if "voted cl' u t e" for u t e
    using that by (auto simp: voted_def cl' split: if_splits)
  moreover have "t \<le> currentTerm (nodes cl' j)" if "(j, t, k) \<in> rounds cl'" for j t k
    using that core_invD(10) [OF safeD(3) [OF S], of j t k] by (auto simp: cl')
  ultimately show ?thesis
    using keep(1) f by (intro safe_keep [OF S step, of i ?rf']) (auto simp: cl')
qed

section \<open>Every step\<close>

definition served :: "('c, 's) cluster \<Rightarrow> bool" where
  "served cl \<longleftrightarrow> (\<forall>i. lastIncludedIndex (nodes cl i) \<le> lastApplied (nodes cl i))"

lemma safe_vote_reply:
  assumes S: "safe n cl V G A" and step: "cluster_step n cl cl'"
    and el: "elections cl (c, t) = Some (votes, waiting)" and h: "handleVoteReply t votes reply (nodes cl c) = (rf', votes')"
    and cl': "cl' = update_node c rf' (cl\<lparr>elections := (elections cl)((c, t) \<mapsto> (votes', waiting - {v}))\<rparr>)"
  shows "\<exists>V' G' A'. safe n cl' V' G' A' \<and> extends G G' \<and> A \<le> A'"
proof (cases "vote_safe (nodes cl c) rf'")
  case True
  note d = commit_invD [OF safeD(4) [OF S]]
  have "\<not> (rf' = becomeLeader (nodes cl c) \<and> role (nodes cl c) = Candidate)" using True by (auto simp: vote_safe_def becomeLeader_def)
  then have same: "log_same (nodes cl c) rf'" "no_candidate (nodes cl c) rf'" and idle: "idle (nodes cl c) rf'"
    using handleVoteReply_log_same [OF h] handleVoteReply_idle [OF h] by blast+
  have "commit_ok n G A rf' (V c)"
    by (rule idle_commit [OF idle _ _ vote_safe_past [OF True] d(1)]) (use same True in \<open>auto simp: log_same_def log_state_def vote_safe_def\<close>)
  moreover have "lead_ok n G A c rf'" by (rule idle_lead [OF idle _ d(2)]) (use same in \<open>auto simp: log_same_def\<close>)
  moreover have "voted cl u s e" if "voted cl' u s e" for u s e using that el by (auto simp: voted_def cl' split: if_splits)
  moreover have "s \<le> currentTerm (nodes cl' j)" if "(j, s, k) \<in> rounds cl'" for j s k
    using that core_invD(10) [OF safeD(3) [OF S], of j s k] True by (auto simp: cl' vote_safe_def)
  ultimately have "safe n cl' V G A"
    using log_sameD [OF same(1)] staysI [OF same(2) True] idle by (intro safe_keep [OF S step, of c rf']) (auto simp: cl' idle_def)
  then show ?thesis using extends_refl by blast
next
  case False
  then have b: "rf' = becomeLeader (nodes cl c)" "role (nodes cl c) = Candidate" "currentTerm (nodes cl c) = t"
    using handleVoteReply_result [OF h] by blast+
  have "voted cl' = voted cl" using el by (auto simp: voted_def cl' fun_eq_iff)
  from safe_elect [OF S step _ _ this _ _ b(2,3)] el b(1) show ?thesis by (auto simp: cl')
qed

lemma safe_same: "safe n cl' V G A \<Longrightarrow> \<exists>V' G' A'. safe n cl' V' G' A' \<and> extends G G' \<and> A \<le> A'"
  using extends_refl by blast

lemma safe_any_vote:
  assumes S: "safe n cl V G A" and step: "cluster_step n cl cl'"
    and req: "VoteRequest c v args \<in> net cl" and rv: "RequestVote args now (nodes cl v) = Some (rf', reply)"
    and cl': "cl' = transmit {VoteReply v c (rvTerm args) reply} (update_node v rf' cl)"
  shows "safe n cl' V G A"
proof (cases "VoteGranted reply")
  case False
  then have "vote_safe (nodes cl v) rf'" "quiet cl {VoteReply v c (rvTerm args) reply}"
    using RequestVote_result [OF rv] by (simp_all add: quiet_def no_votes_def)
  from safe_idle [OF S step cl' this(2) RequestVote_log_same [OF rv] this(1) RequestVote_idle [OF rv]] show ?thesis .
qed (rule safe_vote [OF S step req rv _ cl'])

lemma safe_start:
  assumes S: "safe n cl V G A" and step: "cluster_step n cl cl'" and st: "Start cmd (nodes cl i) = (rf', result)"
    and cl': "cl' = update_node i rf' cl"
  shows "\<exists>V' G' A'. safe n cl' V' G' A' \<and> extends G G' \<and> A \<le> A'"
proof (cases "role (nodes cl i) = Leader")
  case False
  then have "rf' = nodes cl i" using st by (simp add: Start_def)
  then have "cl' = cl" using cl' by (simp add: update_node_def)
  then show ?thesis using safe_same S by blast
qed (rule safe_command [OF S step st _ cl'])

lemma safe_any_append:
  assumes S: "safe n cl V G A" and step: "cluster_step n cl cl'"
    and req: "AppendRequest i p t args \<in> net cl" and ae: "AppendEntries args now (nodes cl p) = Some (rf', reply)"
    and cl': "cl' = transmit {AppendReply p i t args reply} (update_node p rf' cl)"
  shows "\<exists>V' G' A'. safe n cl' V' G' A' \<and> extends G G' \<and> A \<le> A'"
proof (cases "ae_accept args (nodes cl p)")
  case False
  note r = AppendEntries_log_same [OF ae False]
  have "quiet cl {AppendReply p i t args reply}" using r(3) by (simp add: quiet_def no_votes_def)
  from safe_idle [OF S step cl' this r(1,2) AppendEntries_vote_safe [OF ae] AppendEntries_idle [OF ae False]]
  show ?thesis by (rule safe_same)
qed (rule safe_append [OF S step req ae _ cl'])

text \<open>A step of one peer that sends nothing and touches no log but for its cut.\<close>

lemma safe_alone:
  assumes S: "safe n cl V G A" and step: "cluster_step n cl cl'" and cl': "cl' = update_node i rf' cl"
    and keep: "log_kept (nodes cl i) rf'" "no_candidate (nodes cl i) rf'" "vote_safe (nodes cl i) rf'"
    and ok: "commit_ok n G A rf' (V i) \<and> lead_ok n G A i rf' \<and> commitIndex (nodes cl i) \<le> commitIndex rf'"
  shows "\<exists>V' G' A'. safe n cl' V' G' A' \<and> extends G G' \<and> A \<le> A'"
  using safe_quiet [OF S step _ quiet_empty keep] cl' ok by (intro safe_same) simp

lemma safe_step:
  assumes step: "cluster_step n cl cl'" and S: "safe n cl V G A" and served: "served cl'"
  shows "\<exists>V' G' A'. safe n cl' V' G' A' \<and> extends G G' \<and> A \<le> A'"
proof -
  note d = commit_invD [OF safeD(4) [OF S]] and l = log_invD [OF safeD(2) [OF S]] and alone = safe_alone [OF S step]
  from step show ?thesis
  proof cases
    case (timeout i now sleep rf' reqs)
    then show ?thesis using safe_timeout [OF S step timeout(4)] safe_same by simp
  next
    case (vote c v args now rf' reply)
    from safe_same [OF safe_any_vote [OF S step vote(2,3,1)]] show ?thesis .
  next
    case (vote_reply v c t reply votes waiting rf' votes')
    from safe_vote_reply [OF S step vote_reply(3,5,1)] show ?thesis .
  next
    case (command cmd i rf' result)
    from safe_start [OF S step command(2,1)] show ?thesis .
  next
    case (round i t k)
    from safe_same [OF safe_round [OF S step round(2,1)]] show ?thesis .
  next
    case (heartbeat i t k p out)
    from safe_same [OF safe_heartbeat [OF S step heartbeat(2,5,1)]] show ?thesis .
  next
    case (append i p t args now rf' reply)
    from safe_any_append [OF S step append(2,3,1)] show ?thesis .
  next
    case (append_reply p i t args reply rf')
    note same = handleAppendReply_log_same [OF append_reply(3)]
    from alone [OF append_reply(1) log_sameD [OF same(1)] same(2) handleAppendReply_vote_safe [OF append_reply(3)]
        append_reply_commit [OF S append_reply(2,3)]] show ?thesis .
  next
    case (install i p args now rf' reply)
    from safe_install [OF S step install(2,3,1)] show ?thesis .
  next
    case (install_reply p i args reply rf')
    note same = handleSnapshotReply_log_same [OF install_reply(3)]
    from alone [OF install_reply(1) log_sameD [OF same(1)] same(2) handleSnapshotReply_vote_safe [OF install_reply(3)]
        install_reply_commit [OF S install_reply(2,3)]] show ?thesis .
  next
    case (snapshot index snap i rf')
    have "lastIncludedIndex rf' \<le> lastApplied rf'" using served snapshot(1) by (auto simp: served_def split: if_splits)
    from Snapshot_commit [OF snapshot(2) this cutD(2) [OF l(1)] d(1,2)] show ?thesis
      by (intro alone [OF snapshot(1) Snapshot_log_kept [OF snapshot(2)] Snapshot_vote_safe [OF snapshot(2)]]) simp
  next
    case (apply_msg inner i inner' rf' m)
    note same = applyStep_log_same [OF apply_msg(2)]
    from applyStep_commit [OF apply_msg(2) d(1,2)] show ?thesis
      by (intro alone [OF apply_msg(1) log_sameD [OF same(1)] same(2) applyStep_vote_safe [OF apply_msg(2)]]) simp
  next
    case (crash i now)
    from safe_same [OF safe_crash [OF S step crash]] show ?thesis .
  qed
qed

section \<open>What ends a served run\<close>

text \<open>The operations that move neither the cut of the log nor what is applied.\<close>

definition same_position :: "('c, 's) raft \<Rightarrow> ('c, 's) raft \<Rightarrow> bool" where
  "same_position rf rf' \<longleftrightarrow> lastIncludedIndex rf' = lastIncludedIndex rf \<and> lastApplied rf' = lastApplied rf"

lemma idle_position: "log_same rf rf' \<Longrightarrow> idle rf rf' \<Longrightarrow> same_position rf rf'"
  by (simp add: same_position_def log_same_def log_state_def idle_def)

lemma op_position:
  "startElection rf = Some (rf', reqs) \<Longrightarrow> same_position rf rf'"
  "RequestVote vargs now rf = Some (rf', vreply) \<Longrightarrow> same_position rf rf'"
  "handleVoteReply t votes vreply rf = (rf', votes') \<Longrightarrow> same_position rf rf'"
  "Start cmd rf = (rf', result) \<Longrightarrow> same_position rf rf'"
  "handleAppendReply t p args reply rf = Some rf' \<Longrightarrow> same_position rf rf'"
  "handleSnapshotReply p sargs sreply rf = Some rf' \<Longrightarrow> same_position rf rf'"
  by (auto simp: same_position_def startElection_def RequestVote_def handleVoteReply_def Start_def handleAppendReply_def handleSnapshotReply_def
      maybeAdvanceCommitIndex_def Let_def raft_ops split: if_splits bind_splits dest!: advance_loop_frame)

lemma AppendEntries_position:
  assumes "AppendEntries args now rf = Some (rf', reply)"
  shows "same_position rf rf'"
proof (cases "ae_accept args rf")
  case True
  from AppendEntries_accept [OF True, of now] assms show ?thesis by (auto simp: same_position_def)
qed (rule idle_position [OF AppendEntries_log_same(1) [OF assms] AppendEntries_idle [OF assms]])

lemma InstallSnapshot_served:
  "InstallSnapshot args now rf = Some (rf', reply) \<Longrightarrow> lastIncludedIndex rf \<le> lastApplied rf \<Longrightarrow> lastIncludedIndex rf' \<le> lastApplied rf'"
  by (erule InstallSnapshot_result) auto

text \<open>Only a service that takes a snapshot of what its peer has not applied ends a served run.\<close>

lemma served_step:
  assumes step: "cluster_step n cl cl'" and served: "served cl"
  shows "served cl'
    \<or> (\<exists>i index snap. lastApplied (nodes cl i) < index \<and> Snapshot index snap (nodes cl i) = Some (nodes cl' i))"
proof -
  have cur: "lastIncludedIndex (nodes cl i) \<le> lastApplied (nodes cl i)" for i using served by (simp add: served_def)
  have upd: "served cl'" if "nodes cl' = (nodes cl)(i := rf')" "lastIncludedIndex rf' \<le> lastApplied rf'" for i rf'
    using that cur by (simp add: served_def)
  have keep: "served cl'" if "nodes cl' = (nodes cl)(i := rf')" "same_position (nodes cl i) rf'" for i rf'
    by (rule upd [OF that(1)]) (use that(2) cur [of i] in \<open>simp add: same_position_def\<close>)
  from step show ?thesis
  proof cases
    case (timeout i now sleep rf' reqs)
    then show ?thesis using keep [of i rf'] op_position(1) [OF timeout(4)] by simp
  next
    case (vote c v args now rf' reply)
    then show ?thesis using keep [of v rf'] op_position(2) [OF vote(3)] by simp
  next
    case (vote_reply v c t reply votes waiting rf' votes')
    then show ?thesis using keep [of c rf'] op_position(3) [OF vote_reply(5)] by simp
  next
    case (command cmd i rf' result)
    then show ?thesis using keep [of i rf'] op_position(4) [OF command(2)] by simp
  next
    case (append_reply p i t args reply rf')
    then show ?thesis using keep [of i rf'] op_position(5) [OF append_reply(3)] by simp
  next
    case (install_reply p i args reply rf')
    then show ?thesis using keep [of i rf'] op_position(6) [OF install_reply(3)] by simp
  next
    case (install i p args now rf' reply)
    then show ?thesis using upd [of p rf'] InstallSnapshot_served [OF install(3) cur] by simp
  next
    case (append i p t args now rf' reply)
    then show ?thesis using keep [of p rf'] AppendEntries_position [OF append(3)] by simp
  next
    case (snapshot index snap i rf')
    show ?thesis
    proof (cases "index \<le> lastApplied (nodes cl i)")
      case True
      then have "lastIncludedIndex rf' \<le> lastApplied rf'"
        using snapshot(2) cur [of i] by (auto simp: Snapshot_def raft_ops split: if_splits bind_splits)
      then show ?thesis using upd [of i rf'] snapshot(1) by simp
    next
      case False
      with snapshot have "lastApplied (nodes cl i) < index \<and> Snapshot index snap (nodes cl i) = Some (nodes cl' i)" by simp
      then show ?thesis by blast
    qed
  next
    case (apply_msg inner i inner' rf' m)
    have "lastIncludedIndex rf' \<le> lastApplied rf'"
      using apply_msg(2) cur [of i] by (auto simp: applyStep_def Let_def split: if_splits bind_splits)
    then show ?thesis using upd [of i rf'] apply_msg(1) by simp
  next
    case (crash i now)
    then show ?thesis using upd [of i "Make n i (persister (nodes cl i)) now"] Make_fresh [of n i "persister (nodes cl i)" now] by simp
  qed (use cur in \<open>simp_all add: served_def\<close>)
qed

end
