(* ===== verification/Raft_Safety.thy ===== *)
theory Raft_Safety
  imports Raft_Steps
begin

text \<open>
  Log matching, leader completeness and state machine safety, in every run of a cluster whose peers
  compact their logs, restart and install snapshots, as long as a service takes snapshots only of what
  its peer has applied.
\<close>

section \<open>Runs\<close>

inductive reachable_served :: "nat \<Rightarrow> ('c, 's) cluster \<Rightarrow> bool" for n where
  start: "reachable_served n (initial n now)"
| step: "reachable_served n cl \<Longrightarrow> cluster_step n cl cl' \<Longrightarrow> served cl' \<Longrightarrow> reachable_served n cl'"

inductive served_steps :: "nat \<Rightarrow> ('c, 's) cluster \<Rightarrow> ('c, 's) cluster \<Rightarrow> bool" for n cl where
  here: "served_steps n cl cl"
| later: "served_steps n cl cl1 \<Longrightarrow> cluster_step n cl1 cl2 \<Longrightarrow> served cl2 \<Longrightarrow> served_steps n cl cl2"

lemma safe_initial: "safe n (initial n now :: ('c, 's) cluster) (\<lambda>i. [first_entry]) Map.empty (\<lambda>v T m. False)"
proof -
  let ?cl = "initial n now :: ('c, 's) cluster"
  note defs = initial_def Make_def Let_def readPersist_def MakePersister_def ReadRaftState_def
  have "log_inv n ?cl (\<lambda>i. [first_entry]) Map.empty (\<lambda>v T m. False)"
    by (rule log_invI) (auto simp: defs sound_def grows_def cut_log_def stored_log_def log_state_def)
  moreover have "core_inv n ?cl (\<lambda>i. [first_entry]) Map.empty (\<lambda>v T m. False)"
    by (rule core_invI) (auto simp: defs entry_def voted_def past_def stored_def)
  moreover have "commit_inv n ?cl (\<lambda>i. [first_entry]) Map.empty (\<lambda>v T m. False)"
    by (auto simp: defs commit_inv_def commit_ok_def backed_def lead_ok_def)
  ultimately show ?thesis using inv_initial [of n now] by (simp add: safe_def)
qed

lemma reachable_safe: "reachable_served n cl \<Longrightarrow> \<exists>V G A. safe n cl V G A"
  by (induction rule: reachable_served.induct) (blast intro: safe_initial dest: safe_step)+

lemma extends_trans: "extends G G1 \<Longrightarrow> extends G1 G2 \<Longrightarrow> extends G G2"
  unfolding extends_def by (metis append_assoc)

lemma safe_later:
  assumes "served_steps n cl cl'" and "safe n cl V G A"
  shows "\<exists>V' G' A'. safe n cl' V' G' A' \<and> extends G G' \<and> A \<le> A'"
  using assms
proof induction
  case here
  then show ?case using extends_refl by blast
next
  case (later cl1 cl2)
  then obtain V1 G1 A1 where s: "safe n cl1 V1 G1 A1" "extends G G1" "A \<le> A1" by blast
  obtain V2 G2 A2 where "safe n cl2 V2 G2 A2" "extends G1 G2" "A1 \<le> A2" using safe_step [OF later(2) s(1) later(3)] by blast
  then show ?case using extends_trans [OF s(2)] order_trans [OF s(3)] by blast
qed

section \<open>The entries that a peer still has\<close>

definition log_at :: "('c, 's) raft \<Rightarrow> int \<Rightarrow> 'c LogEntry option" where
  "log_at rf k =
     (if lastIncludedIndex rf < k \<and> k \<le> lastLogIndex rf then Some (rlog rf ! nat (logIndex rf k)) else None)"

lemma log_at_cut:
  assumes "cut_log rf L"
  shows "log_at rf k = (if lastIncludedIndex rf < k \<and> k < int (length L) then Some (L ! nat k) else None)"
  using cut_last [OF assms] cut_entry [OF assms, of k] by (auto simp: log_at_def)

text \<open>Behind its cut a log is that of a leader, stale end or not.\<close>

lemma sound_visible:
  assumes "sound n G A rf L"
  obtains W where "grows G W" "length W = length L" "\<And>k. lastIncludedIndex rf < int k \<Longrightarrow> k < length L \<Longrightarrow> W ! k = L ! k"
  using assms unfolding sound_def
proof
  assume "\<exists>W k T m. mended G L W k T \<and> int k \<le> lastIncludedIndex rf \<and> chosen n G A T m \<and> k \<le> m \<and> past T rf"
  then obtain W j T where m: "mended G L W j T" "int j \<le> lastIncludedIndex rf" by blast
  note d = mendedD [OF m(1)]
  have "W ! k = L ! k" if "lastIncludedIndex rf < int k" "k < length L" for k
  proof -
    have "k = Suc j + (k - Suc j)" using that(1) m(2) by simp
    then show ?thesis using d(2,4) that(2) by (metis less_or_eq_imp_le linorder_not_less nth_drop add_leD1)
  qed
  with that d(1,2) show thesis by blast
qed (rule that; simp)

section \<open>A run that replicates and commits an entry\<close>

text \<open>
  After \<open>demo_c3\<close> the leader, peer 0 of three, takes the command \<open>x\<close> and sends it to peer 1, whose
  reply commits it; the next heartbeat tells peer 1.
\<close>

definition demo_l0 :: "('c :: equal, 's :: equal) raft" where "demo_l0 = becomeLeader demo_candidate"
definition demo_l1 :: "'c :: equal \<Rightarrow> ('c, 's :: equal) raft" where "demo_l1 x = fst (Start x demo_l0)"

definition demo_ae1 :: "'c :: equal \<Rightarrow> 'c AppendEntriesArgs" where
  "demo_ae1 x = \<lparr>aeTerm = 1, aeLeaderId = 0, PrevLogIndex = 0, PrevLogTerm = 0,
     Entries = [\<lparr>leTerm = 1, leCommand = Some x\<rparr>], LeaderCommit = 0\<rparr>"

definition demo_ok :: AppendEntriesReply where
  "demo_ok = \<lparr>aerTerm = 1, Success = True, ConflictTerm = -1, ConflictIndex = 0\<rparr>"

definition demo_f1 :: "'c :: equal \<Rightarrow> ('c, 's :: equal) raft" where
  "demo_f1 x = fst (the (AppendEntries (demo_ae1 x) 6 demo_voter))"

definition demo_l2 :: "'c :: equal \<Rightarrow> ('c, 's :: equal) raft" where
  "demo_l2 x = the (handleAppendReply 1 1 (demo_ae1 x) demo_ok (demo_l1 x))"

definition demo_ae2 :: "'c :: equal AppendEntriesArgs" where
  "demo_ae2 = \<lparr>aeTerm = 1, aeLeaderId = 0, PrevLogIndex = 1, PrevLogTerm = 1, Entries = [], LeaderCommit = 1\<rparr>"

definition demo_f2 :: "'c :: equal \<Rightarrow> ('c, 's :: equal) raft" where
  "demo_f2 x = fst (the (AppendEntries demo_ae2 7 (demo_f1 x)))"

lemmas demo_run_defs = demo_l0_def demo_l1_def demo_ae1_def demo_ok_def demo_f1_def demo_l2_def demo_ae2_def
  demo_f2_def demo_candidate_def demo_voter_def

lemma demo_calls:
  "Start x demo_l0 = (demo_l1 x, 1, 1, True)"
  "sendHeartbeats (demo_l1 x) = (1, 0)" "sendHeartbeats (demo_l2 x) = (1, 1)"
  "heartbeatRequest 1 0 1 (demo_l1 x) = Some (SendAppend (demo_ae1 x))"
  "AppendEntries (demo_ae1 x) 6 demo_voter = Some (demo_f1 x, demo_ok)"
  "handleAppendReply 1 1 (demo_ae1 x) demo_ok (demo_l1 x) = Some (demo_l2 x)"
  "heartbeatRequest 1 1 1 (demo_l2 x) = Some (SendAppend demo_ae2)"
  "AppendEntries demo_ae2 7 (demo_f1 x) = Some (demo_f2 x, demo_ok)"
  by code_simp+

definition demo_c4 :: "'c :: equal \<Rightarrow> ('c, 's :: equal) cluster" where "demo_c4 x = update_node 0 (demo_l1 x) demo_c3"
definition demo_c5 :: "'c :: equal \<Rightarrow> ('c, 's :: equal) cluster" where "demo_c5 x = (demo_c4 x)\<lparr>rounds := insert (0, 1, 0) (rounds (demo_c4 x :: ('c, 's) cluster))\<rparr>"
definition demo_c6 :: "'c :: equal \<Rightarrow> ('c, 's :: equal) cluster" where "demo_c6 x = transmit (send 0 1 1 (SendAppend (demo_ae1 x))) (demo_c5 x)"
definition demo_c7 :: "'c :: equal \<Rightarrow> ('c, 's :: equal) cluster" where
  "demo_c7 x = transmit {AppendReply 1 0 1 (demo_ae1 x) demo_ok} (update_node 1 (demo_f1 x) (demo_c6 x))"
definition demo_c8 :: "'c :: equal \<Rightarrow> ('c, 's :: equal) cluster" where "demo_c8 x = update_node 0 (demo_l2 x) (demo_c7 x)"
definition demo_c9 :: "'c :: equal \<Rightarrow> ('c, 's :: equal) cluster" where "demo_c9 x = (demo_c8 x)\<lparr>rounds := insert (0, 1, 1) (rounds (demo_c8 x :: ('c, 's) cluster))\<rparr>"
definition demo_c10 :: "'c :: equal \<Rightarrow> ('c, 's :: equal) cluster" where "demo_c10 x = transmit (send 0 1 1 (SendAppend demo_ae2)) (demo_c9 x)"
definition demo_c11 :: "'c :: equal \<Rightarrow> ('c, 's :: equal) cluster" where
  "demo_c11 x = transmit {AppendReply 1 0 1 demo_ae2 demo_ok} (update_node 1 (demo_f2 x) (demo_c10 x))"

lemmas demo_cluster_defs = demo_c1_def demo_c2_def demo_c3_def demo_c4_def demo_c5_def demo_c6_def demo_c7_def
  demo_c8_def demo_c9_def demo_c10_def demo_c11_def

lemma demo_nodes:
  "nodes demo_c3 0 = demo_l0" "nodes (demo_c4 x) 0 = (demo_l1 x)" "nodes (demo_c5 x) 0 = (demo_l1 x)" "nodes (demo_c6 x) 1 = demo_voter"
  "nodes (demo_c7 x) 0 = (demo_l1 x)" "nodes (demo_c8 x) 0 = (demo_l2 x)" "nodes (demo_c9 x) 0 = (demo_l2 x)" "nodes (demo_c10 x) 1 = (demo_f1 x)"
  "nodes (demo_c11 x) 0 = (demo_l2 x)" "nodes (demo_c11 x) 1 = (demo_f2 x)"
  by (simp_all add: demo_cluster_defs demo_l0_def)

lemma demo_steps:
  "cluster_step 3 demo_c3 (demo_c4 x)" "cluster_step 3 (demo_c4 x) (demo_c5 x)" "cluster_step 3 (demo_c5 x) (demo_c6 x)"
  "cluster_step 3 (demo_c6 x) (demo_c7 x)" "cluster_step 3 (demo_c7 x) (demo_c8 x)" "cluster_step 3 (demo_c8 x) (demo_c9 x)"
  "cluster_step 3 (demo_c9 x) (demo_c10 x)" "cluster_step 3 (demo_c10 x) (demo_c11 x)"
proof -
  show "cluster_step 3 demo_c3 (demo_c4 x)"
    unfolding demo_c4_def by (rule cluster_step.command [where cmd = x]) (simp add: demo_nodes demo_calls)
  show "cluster_step 3 (demo_c4 x) (demo_c5 x)" "cluster_step 3 (demo_c8 x) (demo_c9 x)"
    unfolding demo_c5_def demo_c9_def by (rule cluster_step.round; simp add: demo_nodes demo_calls)+
  show "cluster_step 3 (demo_c5 x) (demo_c6 x)"
    unfolding demo_c6_def
    by (rule cluster_step.heartbeat [where k = 0]) (simp_all add: demo_nodes demo_calls del: One_nat_def, simp add: demo_c5_def)
  show "cluster_step 3 (demo_c9 x) (demo_c10 x)"
    unfolding demo_c10_def
    by (rule cluster_step.heartbeat [where k = 1]) (simp_all add: demo_nodes demo_calls del: One_nat_def, simp add: demo_c9_def)
  show "cluster_step 3 (demo_c6 x) (demo_c7 x)"
    unfolding demo_c7_def by (rule cluster_step.append [where now = 6]) (simp_all add: demo_nodes demo_calls del: One_nat_def, simp add: demo_c6_def)
  show "cluster_step 3 (demo_c10 x) (demo_c11 x)"
    unfolding demo_c11_def by (rule cluster_step.append [where now = 7]) (simp_all add: demo_nodes demo_calls del: One_nat_def, simp add: demo_c10_def)
  show "cluster_step 3 (demo_c7 x) (demo_c8 x)"
    unfolding demo_c8_def
    by (rule cluster_step.append_reply [where p = 1 and t = 1 and args = "demo_ae1 x" and reply = demo_ok])
      (simp_all add: demo_nodes demo_calls del: One_nat_def, simp add: demo_c7_def)
qed


text \<open>
  Then the leader applies the entry, its service takes a snapshot, and peer 2 installs it. The leader
  takes another command, which peer 1 accepts.
\<close>

abbreviation demo_early :: "(nat, nat) cluster" where "demo_early \<equiv> demo_c11 7"

definition demo_l3 :: "(nat, nat) raft" where "demo_l3 = (demo_l2 7)\<lparr>lastApplied := 1\<rparr>"
definition demo_l4 :: "(nat, nat) raft" where "demo_l4 = the (Snapshot 1 (Some 9) demo_l3)"
definition demo_is :: "nat InstallSnapshotArgs" where
  "demo_is = \<lparr>isTerm = 1, isLeaderId = 0, isLastIncludedIndex = 1, isLastIncludedTerm = 1, isData = Some 9\<rparr>"
definition demo_g1 :: "(nat, nat) raft" where "demo_g1 = fst (the (InstallSnapshot demo_is 8 (Make 3 2 MakePersister 0)))"
definition demo_l5 :: "(nat, nat) raft" where "demo_l5 = fst (Start 8 demo_l4)"
definition demo_ae3 :: "nat AppendEntriesArgs" where
  "demo_ae3 = \<lparr>aeTerm = 1, aeLeaderId = 0, PrevLogIndex = 1, PrevLogTerm = 1,
     Entries = [\<lparr>leTerm = 1, leCommand = Some 8\<rparr>], LeaderCommit = 1\<rparr>"
definition demo_f3 :: "(nat, nat) raft" where "demo_f3 = fst (the (AppendEntries demo_ae3 9 (demo_f2 7)))"

definition demo_seven :: "(nat, nat) ApplyMsg" where
  "demo_seven = \<lparr>CommandValid = True, amCommand = Some 7, CommandIndex = 1, SnapshotValid = False, amSnapshot = None,
     SnapshotTerm = 0, SnapshotIndex = 0\<rparr>"

lemma demo_more_calls:
  "applyStep True (demo_l2 7) = Some (True, demo_l3, Some demo_seven)"
  "applyStep True demo_f3 = Some (True, demo_f3\<lparr>lastApplied := 1\<rparr>, Some demo_seven)"
  "Snapshot 1 (Some 9) demo_l3 = Some demo_l4"
  "heartbeatRequest 1 1 2 demo_l4 = Some (SendSnapshot demo_is)"
  "InstallSnapshot demo_is 8 (Make 3 2 MakePersister 0) = Some (demo_g1, \<lparr>isrTerm = 0\<rparr>)"
  "Start 8 demo_l4 = (demo_l5, 2, 1, True)"
  "heartbeatRequest 1 1 1 demo_l5 = Some (SendAppend demo_ae3)"
  "AppendEntries demo_ae3 9 (demo_f2 7) = Some (demo_f3, demo_ok)"
  by code_simp+

definition demo_c12 :: "(nat, nat) cluster" where "demo_c12 = update_node 0 demo_l3 demo_early"
definition demo_c13 :: "(nat, nat) cluster" where "demo_c13 = update_node 0 demo_l4 demo_c12"
definition demo_c14 :: "(nat, nat) cluster" where "demo_c14 = transmit (send 0 2 1 (SendSnapshot demo_is)) demo_c13"
definition demo_c15 :: "(nat, nat) cluster" where
  "demo_c15 = transmit {SnapshotReply 2 0 demo_is \<lparr>isrTerm = 0\<rparr>} (update_node 2 demo_g1 demo_c14)"
definition demo_c16 :: "(nat, nat) cluster" where "demo_c16 = update_node 0 demo_l5 demo_c15"
definition demo_c17 :: "(nat, nat) cluster" where "demo_c17 = transmit (send 0 1 1 (SendAppend demo_ae3)) demo_c16"
definition demo_c18 :: "(nat, nat) cluster" where
  "demo_c18 = transmit {AppendReply 1 0 1 demo_ae3 demo_ok} (update_node 1 demo_f3 demo_c17)"

lemmas demo_more_defs = demo_c12_def demo_c13_def demo_c14_def demo_c15_def demo_c16_def demo_c17_def demo_c18_def

lemma demo_more_nodes:
  "nodes demo_c12 0 = demo_l3" "nodes demo_c13 0 = demo_l4" "nodes demo_c14 2 = Make 3 2 MakePersister 0" "nodes demo_c15 0 = demo_l4"
  "nodes demo_c16 0 = demo_l5" "nodes demo_c17 1 = demo_f2 7" "nodes demo_c18 0 = demo_l5" "nodes demo_c18 1 = demo_f3"
  "nodes demo_c18 2 = demo_g1"
  by (simp_all add: demo_more_defs demo_cluster_defs initial_def)

lemma demo_more_steps:
  "cluster_step 3 demo_early demo_c12" "cluster_step 3 demo_c12 demo_c13" "cluster_step 3 demo_c13 demo_c14"
  "cluster_step 3 demo_c14 demo_c15" "cluster_step 3 demo_c15 demo_c16" "cluster_step 3 demo_c16 demo_c17"
  "cluster_step 3 demo_c17 demo_c18"
proof -
  have r: "(0, 1, 1) \<in> rounds demo_c13" "(0, 1, 1) \<in> rounds demo_c16" by (simp_all add: demo_more_defs demo_cluster_defs)
  show "cluster_step 3 demo_early demo_c12"
    unfolding demo_c12_def by (rule cluster_step.apply_msg [where inner = True]) (simp add: demo_nodes demo_more_calls)
  show "cluster_step 3 demo_c12 demo_c13"
    unfolding demo_c13_def by (rule cluster_step.snapshot [where index = 1 and snap = "Some 9"]) (simp add: demo_more_nodes demo_more_calls)
  show "cluster_step 3 demo_c13 demo_c14"
    unfolding demo_c14_def by (rule cluster_step.heartbeat [OF r(1)]) (simp_all add: demo_more_nodes demo_more_calls)
  show "cluster_step 3 demo_c14 demo_c15"
    unfolding demo_c15_def
    by (rule cluster_step.install [where now = 8]) (simp_all add: demo_more_nodes demo_more_calls, simp add: demo_c14_def)
  show "cluster_step 3 demo_c15 demo_c16"
    unfolding demo_c16_def by (rule cluster_step.command [where cmd = 8]) (simp add: demo_more_nodes demo_more_calls)
  show "cluster_step 3 demo_c16 demo_c17"
    unfolding demo_c17_def by (rule cluster_step.heartbeat [OF r(2)]) (simp_all add: demo_more_nodes demo_more_calls del: One_nat_def)
  show "cluster_step 3 demo_c17 demo_c18"
    unfolding demo_c18_def
    by (rule cluster_step.append [where now = 9]) (simp_all add: demo_more_nodes demo_more_calls del: One_nat_def, simp add: demo_c17_def)
qed

lemma demo_applied:
  "lastIncludedIndex demo_candidate \<le> lastApplied demo_candidate" "lastIncludedIndex demo_voter \<le> lastApplied demo_voter"
  "lastIncludedIndex demo_l0 \<le> lastApplied demo_l0" "lastIncludedIndex (demo_l1 x) \<le> lastApplied (demo_l1 x)"
  "lastIncludedIndex (demo_l2 x) \<le> lastApplied (demo_l2 x)" "lastIncludedIndex (demo_f1 x) \<le> lastApplied (demo_f1 x)"
  "lastIncludedIndex (demo_f2 x) \<le> lastApplied (demo_f2 x)" "lastIncludedIndex demo_l3 \<le> lastApplied demo_l3"
  "lastIncludedIndex demo_l4 \<le> lastApplied demo_l4" "lastIncludedIndex demo_g1 \<le> lastApplied demo_g1"
  "lastIncludedIndex demo_l5 \<le> lastApplied demo_l5" "lastIncludedIndex demo_f3 \<le> lastApplied demo_f3"
  by code_simp+

lemma demo_served:
  "served cl"
  if "cl \<in> {demo_c1, demo_c2, demo_c3, demo_c4 x, demo_c5 x, demo_c6 x, demo_c7 x, demo_c8 x, demo_c9 x, demo_c10 x, demo_c11 x}"
  for cl :: "('c :: equal, 's :: equal) cluster"
proof -
  have "lastIncludedIndex (nodes (initial 3 0 :: ('c, 's) cluster) i) \<le> lastApplied (nodes (initial 3 0 :: ('c, 's) cluster) i)" for i
    by (simp add: initial_def demo_defs)
  with that show ?thesis
    by (elim insertE emptyE) (simp_all add: served_def demo_cluster_defs demo_applied demo_l0_def [symmetric])
qed

lemma demo_more_served:
  "served cl" if "cl \<in> {demo_c12, demo_c13, demo_c14, demo_c15, demo_c16, demo_c17, demo_c18}" for cl
  using that demo_served [of demo_early 7]
  by (elim insertE emptyE) (simp_all add: served_def demo_more_defs demo_applied)

lemma demo_c11_reachable: "reachable_served 3 (demo_c11 x)"
proof -
  note step = reachable_served.step [OF _ _ demo_served [where x = x]]
  show ?thesis
    by (intro step [OF _ demo_steps(8)] step [OF _ demo_steps(7)] step [OF _ demo_steps(6)] step [OF _ demo_steps(5)]
        step [OF _ demo_steps(4)] step [OF _ demo_steps(3)] step [OF _ demo_steps(2)] step [OF _ demo_steps(1)]
        step [OF _ demo_step3] step [OF _ demo_step2] step [OF _ demo_step1] reachable_served.start) simp_all
qed

lemma served_steps_reachable: "served_steps n cl cl' \<Longrightarrow> reachable_served n cl \<Longrightarrow> reachable_served n cl'"
  by (induction rule: served_steps.induct) (blast intro: reachable_served.intros)+

lemma demo_later: "served_steps 3 demo_early demo_c18"
proof -
  note later = served_steps.later [OF _ _ demo_more_served]
  show ?thesis
    by (intro later [OF _ demo_more_steps(7)] later [OF _ demo_more_steps(6)] later [OF _ demo_more_steps(5)]
        later [OF _ demo_more_steps(4)] later [OF _ demo_more_steps(3)] later [OF _ demo_more_steps(2)]
        later [OF _ demo_more_steps(1)] served_steps.here) simp_all
qed

lemmas demo_c18_reachable = served_steps_reachable [OF demo_later demo_c11_reachable]

section \<open>Log matching\<close>

text \<open>
  C13. Log matching: in every reachable state of a run in which the services take snapshots only of
  what was applied, whatever was lost, delayed, repeated, compacted or crashed, two peers that have
  entries of the same term at an index agree on every entry up to that index that both still have.
\<close>

theorem log_matching:
  assumes "reachable_served n cl" and "log_at (nodes cl i) k = Some e" and "log_at (nodes cl j) k = Some f"
    and "leTerm e = leTerm f" and "m \<le> k" and "log_at (nodes cl i) m = Some a" and "log_at (nodes cl j) m = Some b"
  shows "a = b"
proof -
  obtain V G A where S: "safe n cl V G A" using reachable_safe [OF assms(1)] by blast
  note l = log_invD [OF safeD(2) [OF S]]
  obtain W where W: "grows G W" "length W = length (V i)"
    "\<And>k. lastIncludedIndex (nodes cl i) < int k \<Longrightarrow> k < length (V i) \<Longrightarrow> W ! k = V i ! k" using sound_visible [OF l(3)] by blast
  obtain X where X: "grows G X" "length X = length (V j)"
    "\<And>k. lastIncludedIndex (nodes cl j) < int k \<Longrightarrow> k < length (V j) \<Longrightarrow> X ! k = V j ! k" using sound_visible [OF l(3)] by blast
  have at: "nat h < length (V i)" "lastIncludedIndex (nodes cl i) < int (nat h)" "c = V i ! nat h" if "log_at (nodes cl i) h = Some c" for h c
    using that cutD(2) [OF l(1), of i] by (auto simp: log_at_cut [OF l(1)] split: if_splits)
  have bt: "nat h < length (V j)" "lastIncludedIndex (nodes cl j) < int (nat h)" "c = V j ! nat h" if "log_at (nodes cl j) h = Some c" for h c
    using that cutD(2) [OF l(1), of j] by (auto simp: log_at_cut [OF l(1)] split: if_splits)
  have "leTerm (W ! nat k) = leTerm (X ! nat k)"
    using W(3) [OF at(2,1) [OF assms(2)]] X(3) [OF bt(2,1) [OF assms(3)]] at(3) [OF assms(2)] bt(3) [OF assms(3)] assms(4) by simp
  from grows_agree [OF W(1) X(1) _ _ this] have "take (Suc (nat k)) W = take (Suc (nat k)) X"
    using at(1) [OF assms(2)] bt(1) [OF assms(3)] W(2) X(2) by simp
  then have "take (Suc (nat m)) W = take (Suc (nat m)) X" by (rule take_le) (use assms(5) in simp)
  then have "W ! nat m = X ! nat m" by (metis lessI nth_take)
  then show ?thesis using W(3) [OF at(2,1) [OF assms(6)]] X(3) [OF bt(2,1) [OF assms(7)]] at(3) [OF assms(6)] bt(3) [OF assms(7)] by simp
qed

theorem log_matching_witness:
  "reachable_served 3 demo_c18 \<and> lastIncludedIndex (nodes demo_c18 0) = 1 \<and> lastIncludedIndex (nodes demo_c18 1) = 0
   \<and> log_at (nodes demo_c18 0) 2 \<noteq> None \<and> log_at (nodes demo_c18 0) 2 = log_at (nodes demo_c18 1) 2"
proof -
  have a: "log_at demo_l5 2 = Some \<lparr>leTerm = 1, leCommand = Some 8\<rparr>" "lastIncludedIndex demo_l5 = 1" "lastIncludedIndex demo_f3 = 0"
    by code_simp+
  have "log_at demo_f3 2 \<noteq> None" by code_simp
  then obtain f where f: "log_at demo_f3 2 = Some f" by blast
  have "leTerm (the (log_at demo_f3 2)) = 1" by code_simp
  then have "log_at (nodes demo_c18 0) 2 = Some \<lparr>leTerm = 1, leCommand = Some 8\<rparr>" "log_at (nodes demo_c18 1) 2 = Some f" "leTerm f = 1"
    using a(1) f by (simp_all add: demo_more_nodes del: One_nat_def)
  with log_matching [OF demo_c18_reachable this(1,2) _ order_refl this(1,2)] demo_c18_reachable a(2,3)
  show ?thesis by (simp add: demo_more_nodes del: One_nat_def)
qed

section \<open>What is committed\<close>

lemma committed_chosen:
  assumes S: "safe n cl V G A" and k: "0 < k" "k \<le> commitIndex (nodes cl i)"
  obtains T m where "T \<le> currentTerm (nodes cl i)" "chosen n G A T m" "nat k \<le> m" "holds G T (nat k) (V i)"
proof -
  obtain T m where c: "T \<le> currentTerm (nodes cl i)" "chosen n G A T m" "commitIndex (nodes cl i) \<le> int m"
    "holds G T (nat (commitIndex (nodes cl i))) (V i)"
    using commit_invD(1) [OF safeD(4) [OF S], of i] k by (auto simp: commit_ok_def backed_def)
  have "holds G T (nat k) (V i)" using holds_le [OF c(4)] k(2) by simp
  then show thesis using that [OF c(1,2)] c(3) k(2) by simp
qed

lemma log_at_holds:
  assumes S: "safe n cl V G A" and e: "log_at (nodes cl i) k = Some e" and h: "holds G T (nat k) (V i)" "G T = Some P"
  shows "e = P ! nat k" "0 < k"
proof -
  note l = log_invD [OF safeD(2) [OF S]]
  show "0 < k" using e cutD(2) [OF l(1), of i] by (auto simp: log_at_def split: if_splits)
  have "V i ! nat k = P ! nat k" using h by (metis holds_def lessI nth_take option.inject)
  then show "e = P ! nat k" using e by (simp add: log_at_cut [OF l(1)] split: if_splits)
qed

text \<open>Two entries chosen, or held as part of what was chosen, are the same at the same index.\<close>

lemma chosen_agree:
  assumes C: "core_inv n cl V G A" and c: "chosen n G A T m" "chosen n G A T' m'" and k: "k \<le> m" "k \<le> m'"
    and P: "G T = Some P" "G T' = Some P'"
  shows "take (Suc k) P = take (Suc k) P'"
proof (cases "T \<le> T'")
  case True
  from chosen_holds [OF C c(1) P(2) True k(1)] P(1) show ?thesis by (simp add: holds_def)
next
  case False
  then have "T' \<le> T" by simp
  from chosen_holds [OF C c(2) P(1) this k(2)] P(2) show ?thesis by (simp add: holds_def)
qed

lemma committed_agree:
  assumes "reachable_served n cl" and "served_steps n cl cl'"
    and k: "k \<le> commitIndex (nodes cl i)" "k \<le> commitIndex (nodes cl' j)"
    and at: "log_at (nodes cl i) k = Some e" "log_at (nodes cl' j) k = Some f"
  shows "e = f"
proof -
  obtain V G A where S: "safe n cl V G A" using reachable_safe [OF assms(1)] by blast
  obtain V' G' A' where S': "safe n cl' V' G' A'" "extends G G'" "A \<le> A'" using safe_later [OF assms(2) S] by blast
  have pos: "0 < k" using at(1) cutD(2) [OF log_invD(1) [OF safeD(2) [OF S]], of i] by (auto simp: log_at_def split: if_splits)
  obtain T m where c: "chosen n G A T m" "nat k \<le> m" "holds G T (nat k) (V i)" using committed_chosen [OF S pos k(1)] by blast
  obtain T' m' where c': "chosen n G' A' T' m'" "nat k \<le> m'" "holds G' T' (nat k) (V' j)" using committed_chosen [OF S'(1) pos k(2)] by blast
  obtain P where P: "G T = Some P" "nat k < length P" using c(3) by (auto simp: holds_def)
  obtain es where es: "G' T = Some (P @ es)" using S'(2) P(1) by (auto simp: extends_def)
  obtain P' where P': "G' T' = Some P'" using c'(3) by (auto simp: holds_def)
  have "take (Suc (nat k)) (P @ es) = take (Suc (nat k)) P'"
    by (rule chosen_agree [OF safeD(3) [OF S'(1)] chosen_mono [OF c(1) S'(2,3)] c'(1) c(2) c'(2) es P'])
  then have "(P @ es) ! nat k = P' ! nat k" by (metis lessI nth_take)
  then show ?thesis
    using log_at_holds(1) [OF S at(1) c(3) P(1)] log_at_holds(1) [OF S'(1) at(2) c'(3) P'] P(2) by (simp add: nth_append)
qed

section \<open>State machine safety\<close>

lemma applyStep_message:
  assumes "applyStep inner rf = Some (inner', rf', Some m)" and "CommandValid m" and "cut_log rf L"
    and "\<And>m. pendingSnapshot rf = Some m \<Longrightarrow> \<not> CommandValid m"
  shows "CommandIndex m \<le> commitIndex rf \<and> (\<exists>e. log_at rf (CommandIndex m) = Some e \<and> amCommand m = leCommand e)"
proof -
  have "\<not> (\<not> inner \<and> pendingSnapshot rf \<noteq> None)" using assms(1,2,4) by (auto simp: applyStep_def split: if_splits)
  then show ?thesis
    using assms(1,3)
    by (auto simp: applyStep_def Let_def bind_eq_Some_conv go_nth_def log_at_def logIndex_def lastLogIndex_def split: if_splits)
qed

text \<open>
  C11. State machine safety: in a run in which the services take snapshots only of what was applied,
  two commands that the apply loops of two peers hand to their services, at the same time or one much
  later than the other, with crashes, elections, snapshots and lost messages between them, are the
  same if they have the same index.
\<close>

theorem state_machine_safety:
  assumes "reachable_served n cl" and "served_steps n cl cl'"
    and "applyStep b (nodes cl i) = Some (b1, rf, Some m)" and "applyStep b' (nodes cl' j) = Some (b1', rf', Some m')"
    and "CommandValid m" and "CommandValid m'" and "CommandIndex m = CommandIndex m'"
  shows "amCommand m = amCommand m'"
proof -
  obtain V G A where S: "safe n cl V G A" using reachable_safe [OF assms(1)] by blast
  obtain V' G' A' where S': "safe n cl' V' G' A'" using safe_later [OF assms(2) S] by blast
  have ok: "\<not> CommandValid x" if "safe n c V G A" "pendingSnapshot (nodes c v) = Some x" for c V G A v x
    using commit_invD(1) [OF safeD(4) [OF that(1)], of v] that(2) by (simp add: commit_ok_def)
  obtain e where e: "CommandIndex m \<le> commitIndex (nodes cl i)" "log_at (nodes cl i) (CommandIndex m) = Some e" "amCommand m = leCommand e"
    using applyStep_message [OF assms(3,5) log_invD(1) [OF safeD(2) [OF S]] ok [OF S, of i]] by blast
  obtain f where f: "CommandIndex m' \<le> commitIndex (nodes cl' j)" "log_at (nodes cl' j) (CommandIndex m') = Some f" "amCommand m' = leCommand f"
    using applyStep_message [OF assms(4,6) log_invD(1) [OF safeD(2) [OF S']] ok [OF S', of j]] by blast
  from committed_agree [OF assms(1,2) e(1) _ e(2)] f e(3) assms(7) show ?thesis by simp
qed

theorem state_machine_safety_witness:
  "reachable_served 3 demo_early \<and> served_steps 3 demo_early demo_c18
   \<and> (\<exists>rf m rf' m'. applyStep True (nodes demo_early 0) = Some (True, rf, Some m)
        \<and> applyStep True (nodes demo_c18 1) = Some (True, rf', Some m')
        \<and> CommandIndex m = 1 \<and> CommandIndex m' = 1 \<and> amCommand m = amCommand m')"
proof -
  have a: "applyStep True (nodes demo_early 0) = Some (True, demo_l3, Some demo_seven)"
    and b: "applyStep True (nodes demo_c18 1) = Some (True, demo_f3\<lparr>lastApplied := 1\<rparr>, Some demo_seven)"
    unfolding demo_nodes demo_more_nodes by (rule demo_more_calls(1), rule demo_more_calls(2))
  have "CommandValid demo_seven" "CommandIndex demo_seven = 1" by (simp_all add: demo_seven_def)
  with state_machine_safety [OF demo_c11_reachable demo_later a b] a b demo_c11_reachable [of 7] demo_later show ?thesis by blast
qed

text \<open>
  C12. Leader completeness: in such a run whatever a peer has committed is in the log of every peer
  that leads, then or later, in the term of that peer or a later one, or is part of the snapshot that
  the leader has cut it off for.
\<close>

theorem leader_completeness:
  assumes "reachable_served n cl" and "served_steps n cl cl'" and "k \<le> commitIndex (nodes cl i)"
    and "role (nodes cl' j) = Leader" and "currentTerm (nodes cl i) \<le> currentTerm (nodes cl' j)"
  shows "k \<le> lastLogIndex (nodes cl' j)
    \<and> (\<forall>e. log_at (nodes cl i) k = Some e \<longrightarrow> k \<le> lastIncludedIndex (nodes cl' j) \<or> log_at (nodes cl' j) k = Some e)"
proof -
  obtain V G A where S: "safe n cl V G A" using reachable_safe [OF assms(1)] by blast
  obtain V' G' A' where S': "safe n cl' V' G' A'" "extends G G'" "A \<le> A'" using safe_later [OF assms(2) S] by blast
  note l = log_invD [OF safeD(2) [OF S]] and l' = log_invD [OF safeD(2) [OF S'(1)]]
  note stop = cut_last [OF l'(1) [of j]]
  show ?thesis
  proof (cases "0 < k")
    case False
    then have "log_at (nodes cl i) k = None" using cutD(2) [OF l(1), of i] by (simp add: log_at_def)
    moreover have "0 \<le> lastLogIndex (nodes cl' j)" using cutD(2,3) [OF l'(1), of j] stop by linarith
    ultimately show ?thesis using False by simp
  next
    case True
    obtain T m where c: "T \<le> currentTerm (nodes cl i)" "chosen n G A T m" "nat k \<le> m" "holds G T (nat k) (V i)"
      using committed_chosen [OF S True assms(3)] by blast
    have h: "holds G' T (nat k) (V' j)"
      using chosen_holds [OF safeD(3) [OF S'(1)] chosen_mono [OF c(2) S'(2,3)] l'(4) [OF assms(4)] _ c(3)] c(1) assms(5) by simp
    from holds_agree [OF this holds_extends [OF c(4) S'(2)]] have same: "V' j ! nat k = V i ! nat k" by (metis lessI nth_take)
    have "nat k < length (V' j)" using h by (auto simp: holds_def)
    then have "k \<le> lastLogIndex (nodes cl' j)" using stop True by simp
    then show ?thesis using same stop by (auto simp: log_at_cut [OF l(1)] log_at_cut [OF l'(1)] split: if_splits)
  qed
qed

theorem leader_completeness_witness:
  "reachable_served 3 demo_early \<and> served_steps 3 demo_early demo_c18 \<and> commitIndex (nodes demo_early 1) = 1
   \<and> role (nodes demo_c18 0) = Leader \<and> 1 \<le> lastLogIndex (nodes demo_c18 0)"
proof -
  have r: "commitIndex (nodes demo_early 1) = 1" "role (nodes demo_c18 0) = Leader"
    "currentTerm (nodes demo_early 1) \<le> currentTerm (nodes demo_c18 0)"
    unfolding demo_nodes demo_more_nodes by code_simp+
  from leader_completeness [OF demo_c11_reachable demo_later, of 1 1 0] r demo_c11_reachable [of 7] demo_later show ?thesis by simp
qed

end
