(* ===== verification/Raft_Total.thy ===== *)
theory Raft_Total
  imports Raft_Safety
begin

text \<open>
  No panic: in every run of a cluster in which a service takes snapshots only of what its peer has
  applied, every peer is well-formed (\<open>raft_wf\<close>), so that no handler and no loop body reads outside its
  slices. What the lemmas on single operations ask of a request or a reply (\<open>agrees_committed\<close>,
  \<open>append_reply_ok\<close>) holds of every message of such a run.
\<close>

section \<open>Requests and replies\<close>

text \<open>A request of a leader never contradicts what its receiver has committed.\<close>

lemma request_agrees:
  assumes S: "safe n cl V G A" and req: "AppendRequest i p t args \<in> net cl" and t: "currentTerm (nodes cl p) \<le> aeTerm args"
  shows "agrees_committed args (nodes cl p)"
proof -
  let ?rf = "nodes cl p"
  note C = safeD(3) [OF S] and l = log_invD [OF safeD(2) [OF S]]
  obtain T1 P1 where s: "aeTerm args = t" "t \<le> T1" "G T1 = Some P1" "segment P1 args"
    using core_invD(8) [OF C req] by (auto simp: sent_from_def)
  have "leTerm (rlog ?rf ! nat (logIndex ?rf k)) = leTerm (Entries args ! j)"
    if j: "j < length (Entries args)" "k = PrevLogIndex args + 1 + int j" "lastIncludedIndex ?rf < k" "k \<le> commitIndex ?rf" for j k
  proof -
    have k: "0 < k" "nat k = Suc (nat (PrevLogIndex args)) + j" using s(4) j(2) by (auto simp: segment_def)
    obtain T m where c: "T \<le> currentTerm ?rf" "chosen n G A T m" "nat k \<le> m" "holds G T (nat k) (V p)"
      using committed_chosen [OF S k(1) j(4)] by blast
    then have "holds G T (nat k) P1" using chosen_holds [OF C c(2) s(3)] t s(1,2) by auto
    from holds_agree [OF c(4) this] have "V p ! nat k = P1 ! nat k" by (metis lessI nth_take)
    moreover have "Entries args ! j = P1 ! nat k" unfolding k(2) by (rule segment_nth [OF s(4) j(1)])
    moreover have "k < int (length (V p))" using c(4) k(1) by (auto simp: holds_def)
    then have "rlog ?rf ! nat (logIndex ?rf k) = V p ! nat k" using cut_entry [OF l(1) j(3)] by simp
    ultimately show ?thesis by simp
  qed
  then show ?thesis by (simp add: agrees_committed_def)
qed

text \<open>Where a leader goes on after a refusal: not behind the request, or within what is chosen.\<close>

definition conflict_ok :: "nat \<Rightarrow> (int \<rightharpoonup> 'c LogEntry list) \<Rightarrow> acks \<Rightarrow> int \<Rightarrow> 'c AppendEntriesArgs \<Rightarrow> AppendEntriesReply \<Rightarrow> bool" where
  "conflict_ok n G A t args reply \<longleftrightarrow>
     Success reply \<or> ConflictIndex reply \<le> PrevLogIndex args + int (length (Entries args)) + 1
     \<or> covered n G A t (ConflictIndex reply - 1)"

lemma conflict_ok_mono:
  "conflict_ok n G A t args reply \<Longrightarrow> extends G G' \<Longrightarrow> A \<le> A' \<Longrightarrow> conflict_ok n G' A' t args reply"
  unfolding conflict_ok_def covered_def using chosen_mono by blast

lemma reject_conflict:
  assumes S: "safe n cl V G A" and wf: "raft_wf (nodes cl p)"
    and req: "AppendRequest i p t args \<in> net cl" and ae: "AppendEntries args now (nodes cl p) = Some (rf', reply)"
  shows "conflict_ok n G A t args reply"
proof -
  let ?rf = "nodes cl p" and ?m = "PrevLogIndex args + int (length (Entries args))"
  define M where "M = max ?m (lastIncludedIndex ?rf)"
  define ld where "ld = ?rf\<lparr>rlog := replicate (nat M + 1) undefined, lastIncludedIndex := 0\<rparr>"
  obtain P where s: "aeTerm args = t" "segment P args" using core_invD(8) [OF safeD(3) [OF S] req] by (auto simp: sent_from_def)
  have p: "0 \<le> PrevLogIndex args" using s(2) by (simp add: segment_def)
  then have M: "0 \<le> M" by (simp add: M_def le_max_iff_disj)
  then have "lastLogIndex ld = M" by (simp add: ld_def lastLogIndex_def)
  then have c: "Success reply \<or> ConflictIndex reply \<le> M + 1"
    using AppendEntries_reply_ok [OF wf ae p, of ld] M by (auto simp: append_reply_ok_def M_def split: if_splits)
  show ?thesis
  proof (cases "aeTerm args < currentTerm ?rf")
    case True
    then have "ConflictIndex reply = 0" using ae by (auto simp: AppendEntries_def)
    then show ?thesis using p by (simp add: conflict_ok_def)
  next
    case False
    have "backed n G A (\<lambda>T. past T ?rf) (lastIncludedIndex ?rf) (V p)"
      using commit_invD(1) [OF safeD(4) [OF S], of p] by (simp add: commit_ok_def)
    then have "lastIncludedIndex ?rf \<le> 0 \<or> (\<exists>T m. past T ?rf \<and> chosen n G A T m \<and> lastIncludedIndex ?rf \<le> int m)"
      by (auto simp: backed_def)
    moreover have "T \<le> t" if "past T ?rf" for T using that False s(1) by (simp add: past_def)
    ultimately have cov: "covered n G A t (lastIncludedIndex ?rf)" unfolding covered_def by blast
    have "covered n G A t (ConflictIndex reply - 1)" if "ConflictIndex reply \<le> lastIncludedIndex ?rf + 1"
    proof -
      have le: "ConflictIndex reply - 1 \<le> lastIncludedIndex ?rf" using that by simp
      then show ?thesis using cov order_trans [OF le] unfolding covered_def by blast
    qed
    moreover have "ConflictIndex reply \<le> ?m + 1 \<or> ConflictIndex reply \<le> lastIncludedIndex ?rf + 1" if "\<not> Success reply"
      using c that by (auto simp: M_def max_def split: if_splits)
    ultimately show ?thesis unfolding conflict_ok_def by blast
  qed
qed

section \<open>The invariant\<close>

definition wf_inv :: "nat \<Rightarrow> ('c, 's) cluster \<Rightarrow> (int \<rightharpoonup> 'c LogEntry list) \<Rightarrow> acks \<Rightarrow> bool" where
  "wf_inv n cl G A \<longleftrightarrow>
     (\<forall>i < n. raft_wf (nodes cl i))
     \<and> (\<forall>p i t args reply. AppendReply p i t args reply \<in> net cl \<longrightarrow>
          AppendRequest i p t args \<in> net cl \<and> conflict_ok n G A t args reply)
     \<and> (\<forall>i p t args. AppendRequest i p t args \<in> net cl \<longrightarrow> p < n)
     \<and> (\<forall>i p args. SnapshotRequest i p args \<in> net cl \<longrightarrow> p < n)
     \<and> (\<forall>p i args reply. SnapshotReply p i args reply \<in> net cl \<longrightarrow> p < n)"

lemma wf_invD:
  assumes "wf_inv n cl G A"
  shows "i < n \<Longrightarrow> raft_wf (nodes cl i)"
    "AppendReply p i t args reply \<in> net cl \<Longrightarrow> AppendRequest i p t args \<in> net cl"
    "AppendReply p i t args reply \<in> net cl \<Longrightarrow> conflict_ok n G A t args reply"
    "AppendRequest i p t args \<in> net cl \<Longrightarrow> p < n"
    "SnapshotRequest i p sargs \<in> net cl \<Longrightarrow> p < n" "SnapshotReply p i sargs sreply \<in> net cl \<Longrightarrow> p < n"
  using assms unfolding wf_inv_def by blast+

lemma wf_keep:
  assumes W: "wf_inv n cl G A" and ext: "extends G G'" "A \<le> A'" and net: "net cl \<subseteq> net cl'"
    and nodes: "nodes cl' = (nodes cl)(i := rf')" and rf': "i < n \<Longrightarrow> raft_wf rf'"
    and areplies: "\<And>p j t args r. AppendReply p j t args r \<in> net cl' \<Longrightarrow> AppendReply p j t args r \<in> net cl
      \<or> AppendRequest j p t args \<in> net cl \<and> conflict_ok n G A t args r"
    and areqs: "\<And>j p t args. AppendRequest j p t args \<in> net cl' \<Longrightarrow> AppendRequest j p t args \<in> net cl \<or> p < n"
    and sreqs: "\<And>j p args. SnapshotRequest j p args \<in> net cl' \<Longrightarrow> SnapshotRequest j p args \<in> net cl \<or> p < n"
    and sreplies: "\<And>p j args r. SnapshotReply p j args r \<in> net cl' \<Longrightarrow> SnapshotReply p j args r \<in> net cl \<or> p < n"
  shows "wf_inv n cl' G' A'"
proof -
  note d = wf_invD [OF W]
  have "raft_wf (nodes cl' j)" if "j < n" for j using that d(1) rf' by (simp add: nodes)
  moreover have "AppendRequest j p t args \<in> net cl' \<and> conflict_ok n G' A' t args r"
    if "AppendReply p j t args r \<in> net cl'" for p j t args r
    using areplies [OF that] d(2,3) [of p j t args r] net conflict_ok_mono [OF _ ext] by blast
  ultimately show ?thesis
    using areqs sreqs sreplies d(4-6) unfolding wf_inv_def by meson
qed

lemma wf_initial: "wf_inv n (initial n now) G A"
  using Make_fresh_wf by (auto simp: wf_inv_def initial_def)

section \<open>Every step keeps it\<close>

lemma append_wf:
  assumes S: "safe n cl V G A" and W: "raft_wf (nodes cl p)"
    and req: "AppendRequest i p t args \<in> net cl" and ae: "AppendEntries args now (nodes cl p) = Some (rf', reply)"
  shows "raft_wf rf'"
proof (cases "ae_accept args (nodes cl p)")
  case True
  then have "agrees_committed args (nodes cl p)" using request_agrees [OF S req] by (simp add: ae_accept_def)
  with AppendEntries_step [OF W, of args now] commit_invD(5) [OF safeD(4) [OF S] req] ae show ?thesis by auto
next
  case False
  from AppendEntries_reject [OF W False, of now] ae show ?thesis by (intro raft_wf_follower [OF W]) auto
qed

lemma append_reply_wf:
  assumes S: "safe n cl V G A" and W: "wf_inv n cl G A" and i: "i < n" and rep: "AppendReply p i t args reply \<in> net cl"
  shows "\<exists>rf'. handleAppendReply t p args reply (nodes cl i) = Some rf' \<and> raft_wf rf'"
proof (cases "role (nodes cl i) = Leader \<and> currentTerm (nodes cl i) = t")
  case True
  note d = wf_invD [OF W] and C = safeD(3) [OF S] and l = log_invD [OF safeD(2) [OF S]]
  obtain T P where T: "t \<le> T" "past T (nodes cl i)" "G T = Some P" "segment P args"
    using core_invD(8) [OF C d(2) [OF rep]] by (auto simp: sent_from_def)
  have G: "G t = Some (V i)" using True l(4) [of i] by simp
  then have "P = V i" using T True by (simp add: past_def)
  then have m: "PrevLogIndex args + int (length (Entries args)) \<le> lastLogIndex (nodes cl i)" "0 \<le> PrevLogIndex args"
    using T(4) cut_last [OF l(1), of i] by (simp_all add: segment_def)
  have "k \<le> lastLogIndex (nodes cl i)" if cov: "covered n G A t k" for k
  proof (cases "k \<le> 0")
    case False
    then obtain U j where "U \<le> t" "chosen n G A U j" "k \<le> int j" using cov by (auto simp: covered_def)
    then have "holds G U j (V i)" using chosen_holds [OF C _ G] by simp
    with \<open>k \<le> int j\<close> show ?thesis using cut_last [OF l(1), of i] by (auto simp: holds_def)
  qed (use m in simp)
  from this [of "ConflictIndex reply - 1"] m d(3) [OF rep] have "append_reply_ok args reply (nodes cl i)"
    by (auto simp: append_reply_ok_def conflict_ok_def)
  then show ?thesis
    using handleAppendReply_wf [OF d(1) [OF i], of p args reply t] d(4) [OF d(2) [OF rep]] cluster_invD(2) [OF safeD(1) [OF S]] by auto
next
  case False
  then show ?thesis using wf_invD(1) [OF W i] by (auto simp: handleAppendReply_def)
qed

lemma install_reply_wf:
  assumes S: "safe n cl V G A" and W: "wf_inv n cl G A" and i: "i < n" and rep: "SnapshotReply p i args reply \<in> net cl"
  shows "\<exists>rf'. handleSnapshotReply p args reply (nodes cl i) = Some rf' \<and> raft_wf rf'"
proof (cases "role (nodes cl i) = Leader \<and> currentTerm (nodes cl i) = isTerm args")
  case True
  note w = wf_invD(1) [OF W i]
  have s: "snap_ok n G A (nodes cl i) args" using commit_invD(7) [OF safeD(4) [OF S] rep] .
  then have "isLastIncludedIndex args \<le> lastLogIndex (nodes cl i)"
    using True raft_wfD(2-5) [OF w] by (cases "0 < isLastIncludedIndex args") (auto simp: snap_ok_def)
  then show ?thesis
    using handleSnapshotReply_wf [OF w, of p args reply] s wf_invD(6) [OF W rep] cluster_invD(2) [OF safeD(1) [OF S], of i]
    by (simp add: snap_ok_def)
next
  case False
  then show ?thesis using wf_invD(1) [OF W i] by (auto simp: handleSnapshotReply_def)
qed

lemma Make_wf:
  assumes S: "safe n cl V G A" and "i < n"
  shows "raft_wf (Make n i (persister (nodes cl i)) now)"
proof -
  let ?rf = "Make n i (persister (nodes cl i)) now"
  note l = log_invD [OF safeD(2) [OF S]]
  have "cut_log ?rf (V i)" using Make_log_kept(1) [OF l(2)] l(1) [of i] by (simp add: log_kept_def)
  note d = cutD [OF this] and stop = cut_last [OF this]
  have "me ?rf = i" "npeers ?rf = n"
    by (auto simp: Make_def Let_def readPersist_def split: bind_splits option.splits)
  then show ?thesis
    using d(1-3) stop Make_fresh [of n i "persister (nodes cl i)" now] assms(2) by (auto simp: raft_wf_def)
qed

lemma Snapshot_wf:
  assumes "raft_wf rf" and "Snapshot index snap rf = Some rf'" and "lastIncludedIndex rf' \<le> lastApplied rf'"
  shows "raft_wf rf'"
proof (cases "index \<le> lastApplied rf")
  case True
  from Snapshot_step [OF assms(1) True, of snap] assms(2) show ?thesis by auto
next
  case False
  then have "lastIncludedIndex rf' = index" "lastApplied rf' = lastApplied rf"
    using assms(2) raft_wfD(3) [OF assms(1)] by (auto simp: Snapshot_def persistWithSnapshot_def split: if_splits bind_splits)
  then show ?thesis using False assms(3) by simp
qed

lemma op_wf:
  "startElection rf = Some (rf', reqs) \<Longrightarrow> raft_wf rf \<Longrightarrow> raft_wf rf'"
  "RequestVote vargs now rf = Some (rf', vreply) \<Longrightarrow> raft_wf rf \<Longrightarrow> raft_wf rf'"
  "handleVoteReply t votes vreply rf = (rf', votes') \<Longrightarrow> raft_wf rf \<Longrightarrow> raft_wf rf'"
  "Start cmd rf = (rf', result) \<Longrightarrow> raft_wf rf \<Longrightarrow> raft_wf rf'"
  "InstallSnapshot sargs now rf = Some (rf', sreply) \<Longrightarrow> raft_wf rf \<Longrightarrow> raft_wf rf'"
  "applyStep inner rf = Some (inner', rf', m) \<Longrightarrow> raft_wf rf \<Longrightarrow> raft_wf rf'"
  using startElection_correct [of rf] RequestVote_step [of rf vargs now] handleVoteReply_wf [of rf t votes vreply]
    Start_wf [of rf cmd] InstallSnapshot_wf [of rf sargs now] applyStep_next [of rf inner] by auto

lemma wf_step:
  assumes step: "cluster_step n cl cl'" and S: "safe n cl V G A" and W: "wf_inv n cl G A" and served: "served cl'"
    and ext: "extends G G'" "A \<le> A'"
  shows "wf_inv n cl' G' A'"
proof -
  note d = wf_invD [OF W] and keep = wf_keep [OF W ext step_grows(1) [OF step]]
  have update: "wf_inv n cl' G' A'" if "cl' = update_node i rf' cl" "i < n \<Longrightarrow> raft_wf rf'" for i rf'
    by (rule keep [of i rf']) (use that in auto)
  from step show ?thesis
  proof cases
    case (timeout i now sleep rf' reqs)
    then show ?thesis using op_wf(1) [OF timeout(4)] d(1) by (intro keep [of i rf']) auto
  next
    case (vote c v args now rf' reply)
    then show ?thesis using op_wf(2) [OF vote(3)] d(1) by (intro keep [of v rf']) auto
  next
    case (vote_reply v c t reply votes waiting rf' votes')
    then show ?thesis using op_wf(3) [OF vote_reply(5)] d(1) by (intro keep [of c rf']) auto
  next
    case (round i t k)
    then show ?thesis using d(1) by (intro keep [of i "nodes cl i"]) auto
  next
    case (heartbeat i t k p out)
    then show ?thesis using d(1) by (intro keep [of i "nodes cl i"]; cases out) auto
  next
    case (append i p t args now rf' reply)
    note wf = d(1) [OF d(4) [OF append(2)]]
    from reject_conflict [OF S wf append(2,3)] append_wf [OF S wf append(2,3)] append
    show ?thesis by (intro keep [of p rf']) auto
  next
    case (install i p args now rf' reply)
    then show ?thesis using op_wf(5) [OF install(3)] d(1,5) by (intro keep [of p rf']) auto
  next
    case (snapshot index snap i rf')
    have "lastIncludedIndex rf' \<le> lastApplied rf'" using served snapshot(1) by (auto simp: served_def split: if_splits)
    then show ?thesis using update [OF snapshot(1)] Snapshot_wf [OF d(1) snapshot(2)] by simp
  next
    case (crash i now)
    then show ?thesis using Make_wf [OF S] by (intro keep [of i "Make n i (persister (nodes cl i)) now"]) auto
  next
    case (command cmd i rf' result)
    then show ?thesis using update op_wf(4) [OF command(2)] d(1) by simp
  next
    case (apply_msg inner i inner' rf' m)
    then show ?thesis using update op_wf(6) [OF apply_msg(2)] d(1) by simp
  next
    case (append_reply p i t args reply rf')
    then show ?thesis using update append_reply_wf [OF S W _ append_reply(2)] by fastforce
  next
    case (install_reply p i args reply rf')
    then show ?thesis using update install_reply_wf [OF S W _ install_reply(2)] by fastforce
  qed
qed

lemma reachable_wf: "reachable_served n cl \<Longrightarrow> \<exists>V G A. safe n cl V G A \<and> wf_inv n cl G A"
proof (induction rule: reachable_served.induct)
  case (start now)
  then show ?case using safe_initial wf_initial by blast
next
  case (step cl cl')
  then obtain V G A where S: "safe n cl V G A" "wf_inv n cl G A" by blast
  with safe_step [OF step(2) S(1) step(3)] wf_step [OF step(2) S step(3)] show ?case by blast
qed

section \<open>No operation panics\<close>

lemma heartbeatRequest_returns:
  assumes "raft_wf rf" and "p < npeers rf"
  shows "heartbeatRequest t k p rf \<noteq> None"
proof -
  consider (follower) "role rf \<noteq> Leader" | (behind) "role rf = Leader" "nextIndex rf ! p \<le> lastIncludedIndex rf"
    | (append) "role rf = Leader" "lastIncludedIndex rf < nextIndex rf ! p" by linarith
  then show ?thesis
  proof cases
    case behind
    then show ?thesis using heartbeatRequest_snapshot [OF assms(1) _ assms(2)] by simp
  next
    case append
    from heartbeatRequest_append [OF assms(1) append(1) assms(2) append(2), of t k] show ?thesis by auto
  qed (simp add: heartbeatRequest_def)
qed

text \<open>
  C14. No panic: in every reachable state of a run in which the services take snapshots only of what
  was applied, every peer of the cluster is well-formed, every handler returns whatever the request
  is, and so do the election, the building of a heartbeat, the handling of every reply under way, the
  apply loop, the next such snapshot, and the restart.
\<close>

theorem no_panic:
  assumes "reachable_served n cl" and "i < n"
  shows "raft_wf (nodes cl i) \<and> startElection (nodes cl i) \<noteq> None
    \<and> (\<forall>args now. RequestVote args now (nodes cl i) \<noteq> None) \<and> (\<forall>args now. AppendEntries args now (nodes cl i) \<noteq> None)
    \<and> (\<forall>args now. InstallSnapshot args now (nodes cl i) \<noteq> None)
    \<and> (\<forall>t k. \<forall>p < n. heartbeatRequest t k p (nodes cl i) \<noteq> None)
    \<and> (\<forall>p t args reply. AppendReply p i t args reply \<in> net cl \<longrightarrow> handleAppendReply t p args reply (nodes cl i) \<noteq> None)
    \<and> (\<forall>p args reply. SnapshotReply p i args reply \<in> net cl \<longrightarrow> handleSnapshotReply p args reply (nodes cl i) \<noteq> None)
    \<and> (\<forall>inner. applyStep inner (nodes cl i) \<noteq> None)
    \<and> (\<forall>index snap. index \<le> lastApplied (nodes cl i) \<longrightarrow> Snapshot index snap (nodes cl i) \<noteq> None)
    \<and> (\<forall>now. raft_wf (Make n i (persister (nodes cl i)) now))"
proof -
  obtain V G A where S: "safe n cl V G A" and W: "wf_inv n cl G A" using reachable_wf [OF assms(1)] by blast
  note w = wf_invD(1) [OF W assms(2)]
  have "startElection (nodes cl i) \<noteq> None" using startElection_correct [OF w] by auto
  moreover have "RequestVote args now (nodes cl i) \<noteq> None" for args now using RequestVote_step [OF w, of args now] by auto
  moreover have "AppendEntries args now (nodes cl i) \<noteq> None" for args now using AppendEntries_step [OF w, of args now] by auto
  moreover have "InstallSnapshot args now (nodes cl i) \<noteq> None" for args now using InstallSnapshot_wf [OF w, of args now] by auto
  moreover have "heartbeatRequest t k p (nodes cl i) \<noteq> None" if "p < n" for t k p
    using heartbeatRequest_returns [OF w] that cluster_invD(2) [OF safeD(1) [OF S]] by simp
  moreover have "handleAppendReply t p args reply (nodes cl i) \<noteq> None" if "AppendReply p i t args reply \<in> net cl" for p t args reply
    using append_reply_wf [OF S W assms(2) that] by auto
  moreover have "handleSnapshotReply p args reply (nodes cl i) \<noteq> None" if "SnapshotReply p i args reply \<in> net cl" for p args reply
    using install_reply_wf [OF S W assms(2) that] by auto
  moreover have "applyStep inner (nodes cl i) \<noteq> None" for inner using applyStep_next [OF w, of inner] by auto
  moreover have "Snapshot index snap (nodes cl i) \<noteq> None" if "index \<le> lastApplied (nodes cl i)" for index snap
    using Snapshot_step [OF w that, of snap] by auto
  ultimately show ?thesis using w Make_wf [OF S assms(2)] by blast
qed

theorem no_panic_witness:
  "reachable_served 3 demo_c18 \<and> lastIncludedIndex (nodes demo_c18 0) = 1 \<and> raft_wf (nodes demo_c18 0)
   \<and> applyStep True (nodes demo_c18 0) \<noteq> None \<and> handleAppendReply 1 1 demo_ae3 demo_ok (nodes demo_c18 0) \<noteq> None
   \<and> handleSnapshotReply 2 demo_is \<lparr>isrTerm = 0\<rparr> (nodes demo_c18 0) \<noteq> None"
proof -
  have "AppendReply 1 0 1 demo_ae3 demo_ok \<in> net demo_c18" by (simp add: demo_c18_def)
  moreover have "SnapshotReply 2 0 demo_is \<lparr>isrTerm = 0\<rparr> \<in> net demo_c18"
    by (simp add: demo_c18_def demo_c17_def demo_c16_def demo_c15_def)
  moreover have "lastIncludedIndex (nodes demo_c18 0) = 1" unfolding demo_more_nodes by code_simp
  ultimately show ?thesis using no_panic [OF demo_c18_reachable, of 0] demo_c18_reachable by simp
qed

end
