(* ===== verification/Go_Time.thy ===== *)
theory Go_Time
  imports Go_Prelude
begin

text \<open>
  Go's \<open>time.Time\<close> as the program uses it: an instant in nanoseconds since the zero time
  (January 1, year 1, 00:00:00 UTC) and a location with a fixed offset from UTC in seconds.
  Locations whose offset changes over the year are not modelled. The civil calendar is the
  proleptic Gregorian one, as in package \<open>time\<close>; \<open>Date\<close> normalises its arguments and
  \<open>Truncate\<close> rounds down the absolute instant, not the local one.

  The lemmas show that the calendar functions are inverse to each other and that a month is
  the interval of days between two consecutive firsts of a month.
\<close>

section \<open>Instants\<close>

record time =
  tns :: int
  toff :: int

definition nsSecond :: int where "nsSecond = 1000000000"
definition nsMinute :: int where "nsMinute = 60 * nsSecond"
definition nsHour :: int where "nsHour = 60 * nsMinute"
definition nsDay :: int where "nsDay = 24 * nsHour"

lemmas ns_units = nsDay_def nsHour_def nsMinute_def nsSecond_def

lemma ns_pos [simp]: "0 < nsSecond" "0 < nsMinute" "0 < nsHour" "0 < nsDay"
  by (simp_all add: ns_units)

lemma ns_nonzero [simp]: "nsSecond \<noteq> 0" "nsMinute \<noteq> 0" "nsHour \<noteq> 0" "nsDay \<noteq> 0"
  by (simp_all add: ns_units)

definition zero_time :: time where
  "zero_time = \<lparr>tns = 0, toff = 0\<rparr>"

definition IsZero :: "time \<Rightarrow> bool" where "IsZero t \<longleftrightarrow> tns t = 0"
definition Before :: "time \<Rightarrow> time \<Rightarrow> bool" where "Before t u \<longleftrightarrow> tns t < tns u"
definition After :: "time \<Rightarrow> time \<Rightarrow> bool" where "After t u \<longleftrightarrow> tns u < tns t"
definition Add :: "time \<Rightarrow> int \<Rightarrow> time" where "Add t d = t\<lparr>tns := tns t + d\<rparr>"
definition Sub :: "time \<Rightarrow> time \<Rightarrow> int" where
  "Sub t u = max (- (2 ^ 63)) (min (2 ^ 63 - 1) (tns t - tns u))"
definition UTC :: "time \<Rightarrow> time" where "UTC t = t\<lparr>toff := 0\<rparr>"
definition Milliseconds :: "int \<Rightarrow> int" where
  "Milliseconds d = (if 0 \<le> d then d div 1000000 else - ((- d) div 1000000))"
definition Truncate :: "time \<Rightarrow> int \<Rightarrow> time" where "Truncate t d = t\<lparr>tns := tns t - tns t mod d\<rparr>"

section \<open>The calendar\<close>

definition leap :: "int \<Rightarrow> bool" where
  "leap y \<longleftrightarrow> y mod 4 = 0 \<and> (y mod 100 \<noteq> 0 \<or> y mod 400 = 0)"

definition days_before_year :: "int \<Rightarrow> int" where
  "days_before_year y = 365 * (y - 1) + (y - 1) div 4 - (y - 1) div 100 + (y - 1) div 400"

definition days_before_month :: "bool \<Rightarrow> int \<Rightarrow> int" where
  "days_before_month l m =
     (let x = (if l then 1 else 0) in
      if m \<le> 1 then 0 else if m \<le> 2 then 31 else if m \<le> 3 then 59 + x
      else if m \<le> 4 then 90 + x else if m \<le> 5 then 120 + x else if m \<le> 6 then 151 + x
      else if m \<le> 7 then 181 + x else if m \<le> 8 then 212 + x else if m \<le> 9 then 243 + x
      else if m \<le> 10 then 273 + x else if m \<le> 11 then 304 + x else if m \<le> 12 then 334 + x
      else 365 + x)"

text \<open>The day number (0 is January 1, year 1) of a date whose month may be out of range.\<close>

definition days_of_date :: "int \<Rightarrow> int \<Rightarrow> int \<Rightarrow> int" where
  "days_of_date y m d =
     (let y' = y + (m - 1) div 12; m' = (m - 1) mod 12 + 1
      in days_before_year y' + days_before_month (leap y') m' + (d - 1))"

definition year_of_day :: "int \<Rightarrow> int" where
  "year_of_day d =
     (let y = 400 * d div 146097 + 1
      in if days_before_year (y + 1) \<le> d then y + 1 else y)"

definition month_of_yday :: "bool \<Rightarrow> int \<Rightarrow> int" where
  "month_of_yday l yd =
     (let b = days_before_month l in
      if yd < b 2 then 1 else if yd < b 3 then 2 else if yd < b 4 then 3
      else if yd < b 5 then 4 else if yd < b 6 then 5 else if yd < b 7 then 6
      else if yd < b 8 then 7 else if yd < b 9 then 8 else if yd < b 10 then 9
      else if yd < b 11 then 10 else if yd < b 12 then 11 else 12)"

definition month_of_day :: "int \<Rightarrow> int" where
  "month_of_day d =
     (let y = year_of_day d in month_of_yday (leap y) (d - days_before_year y))"

definition mday_of_day :: "int \<Rightarrow> int" where
  "mday_of_day d = d - days_of_date (year_of_day d) (month_of_day d) 1 + 1"

section \<open>Fields of an instant in its location\<close>

definition local_ns :: "time \<Rightarrow> int" where "local_ns t = tns t + toff t * nsSecond"
definition day_number :: "time \<Rightarrow> int" where "day_number t = local_ns t div nsDay"

definition Year :: "time \<Rightarrow> int" where "Year t = year_of_day (day_number t)"
definition Month :: "time \<Rightarrow> int" where "Month t = month_of_day (day_number t)"
definition Day :: "time \<Rightarrow> int" where "Day t = mday_of_day (day_number t)"
definition Weekday :: "time \<Rightarrow> int" where "Weekday t = (day_number t + 1) mod 7"
definition Hour :: "time \<Rightarrow> int" where "Hour t = local_ns t mod nsDay div nsHour"
definition Minute :: "time \<Rightarrow> int" where "Minute t = local_ns t mod nsHour div nsMinute"
definition Second :: "time \<Rightarrow> int" where "Second t = local_ns t mod nsMinute div nsSecond"
definition Nanosecond :: "time \<Rightarrow> int" where "Nanosecond t = local_ns t mod nsSecond"

definition Date :: "int \<Rightarrow> int \<Rightarrow> int \<Rightarrow> int \<Rightarrow> int \<Rightarrow> int \<Rightarrow> int \<Rightarrow> int \<Rightarrow> time" where
  "Date y m d h mi s n loc =
     \<lparr>tns = days_of_date y m d * nsDay + h * nsHour + mi * nsMinute + s * nsSecond + n
             - loc * nsSecond,
      toff = loc\<rparr>"

definition AddDate :: "time \<Rightarrow> int \<Rightarrow> int \<Rightarrow> int \<Rightarrow> time" where
  "AddDate t ys ms ds =
     Date (Year t + ys) (Month t + ms) (Day t + ds) (Hour t) (Minute t) (Second t)
       (Nanosecond t) (toff t)"

definition UnixNano :: "time \<Rightarrow> int" where
  "UnixNano t = wrap64 (tns t - days_of_date 1970 1 1 * nsDay)"

section \<open>The calendar functions agree\<close>

lemma div_eq_intro: "0 < (k :: int) \<Longrightarrow> q * k \<le> x \<Longrightarrow> x < (q + 1) * k \<Longrightarrow> x div k = q"
  by (intro int_div_pos_eq [of x k q "x - q * k"]) (auto simp: algebra_simps)

lemma div_bounds: "0 < (k :: int) \<Longrightarrow> x div k * k \<le> x \<and> x < (x div k + 1) * k"
  using pos_mod_bound [of k x] pos_mod_sign [of k x] div_mult_mod_eq [of x k]
    distrib_right [of "x div k" 1 k] by linarith

lemma div_pred:
  assumes "0 < (n :: int)"
  shows "y div n = (y - 1) div n + (if y mod n = 0 then 1 else 0)"
proof -
  define q r where "q = y div n" and "r = y mod n"
  have y: "y = q * n + r" by (simp add: q_def r_def)
  have r: "0 \<le> r" "r < n" using assms by (simp_all add: r_def)
  have "(y - 1) div n = q - (if r = 0 then 1 else 0)"
    using y r by (intro div_eq_intro [OF assms]) (auto simp: algebra_simps)
  then show ?thesis by (simp add: q_def r_def)
qed

lemma leap_day_count:
  fixes y :: int
  assumes "a' = a + (if P then 1 else 0)" and "b' = b + (if Q then 1 else 0)"
    and "c' = c + (if R then 1 else 0)" and "Q \<Longrightarrow> P" and "R \<Longrightarrow> Q"
  shows "365 * y + a' - b' + c'
    = 365 * (y - 1) + a - b + c + (if P \<and> (\<not> Q \<or> R) then 366 else 365)"
  using assms by (cases P; cases Q; cases R) simp_all

lemma days_before_year_Suc:
  "days_before_year (y + 1) = days_before_year y + (if leap y then 366 else 365)"
proof -
  have "(4 :: int) dvd 100" "(100 :: int) dvd 400" by simp_all
  then have "y mod 100 = 0 \<Longrightarrow> y mod 4 = 0" "y mod 400 = 0 \<Longrightarrow> y mod 100 = 0"
    by (meson dvd_trans dvd_imp_mod_0 mod_0_imp_dvd)+
  moreover have "days_before_year (y + 1) = 365 * y + y div 4 - y div 100 + y div 400"
    by (simp add: days_before_year_def)
  ultimately show ?thesis
    unfolding leap_def days_before_year_def [of y]
    by (simp only:) (rule leap_day_count; (rule div_pred)?; simp)
qed

lemma days_before_year_linear:
  fixes z :: int
  assumes "4 * a + p = z" and "100 * b + q = z" and "400 * c + r = z"
  shows "400 * (365 * z + a - b + c) = 146097 * z - 100 * p + 4 * q - r"
  using assms by arith

lemma days_before_year_exact:
  "400 * days_before_year y
   = 146097 * (y - 1) - 100 * ((y - 1) mod 4) + 4 * ((y - 1) mod 100) - (y - 1) mod 400"
  unfolding days_before_year_def
  by (rule days_before_year_linear) (rule mult_div_mod_eq)+

lemma day_after_year:
  fixes x :: int
  assumes "400 * x = 146097 * z - 100 * p + 4 * q - r" and "146097 * z \<le> 400 * d"
    and "0 \<le> p" and "q < 100" and "0 \<le> r"
  shows "x \<le> d"
proof -
  have "400 * x < 400 * (d + 1)" using assms by (simp add: algebra_simps)
  then show ?thesis by simp
qed

lemma day_before_year:
  fixes x :: int
  assumes "400 * x = 146097 * z - 100 * p + 4 * q - r" and "400 * d < 146097 * z"
    and "p < 4" and "0 \<le> q" and "r < 400"
  shows "d \<le> x + 1"
proof -
  have "400 * d < 400 * (x + 2)" using assms by (simp add: algebra_simps)
  then show ?thesis by simp
qed

lemma year_of_day_bounds:
  "days_before_year (year_of_day d) \<le> d \<and> d < days_before_year (year_of_day d + 1)"
proof -
  define y where "y = 400 * d div 146097 + 1"
  have b: "146097 * (y - 1) \<le> 400 * d" "400 * d < 146097 * y"
    using div_bounds [of 146097 "400 * d"] by (simp_all add: y_def)
  have "days_before_year y \<le> d"
    by (rule day_after_year [OF days_before_year_exact b(1)]) simp_all
  moreover have "d \<le> days_before_year (y + 1) + 1"
    by (rule day_before_year [OF days_before_year_exact [of "y + 1", unfolded add_diff_cancel_right']
          b(2)]) simp_all
  moreover have "days_before_year (y + 1) + 365 \<le> days_before_year (y + 1 + 1)"
    using days_before_year_Suc [of "y + 1"] by (simp split: if_splits)
  ultimately show ?thesis
    by (auto simp: year_of_day_def y_def [symmetric])
qed

lemma days_before_year_mono: "y \<le> z \<Longrightarrow> days_before_year y + 365 * (z - y) \<le> days_before_year z"
proof (induction z rule: int_ge_induct)
  case (step z)
  then show ?case using days_before_year_Suc [of z] by (simp split: if_splits)
qed simp

lemma year_of_day_unique:
  assumes "days_before_year y \<le> d" and "d < days_before_year (y + 1)"
  shows "year_of_day d = y"
proof (rule ccontr)
  assume "year_of_day d \<noteq> y"
  then consider "year_of_day d + 1 \<le> y" | "y + 1 \<le> year_of_day d" by linarith
  then show False
  proof cases
    case 1
    then show False
      using days_before_year_mono [OF 1] year_of_day_bounds [of d] assms by simp
  next
    case 2
    then show False
      using days_before_year_mono [OF 2] year_of_day_bounds [of d] assms by simp
  qed
qed

lemma month_of_yday_range: "1 \<le> month_of_yday l yd \<and> month_of_yday l yd \<le> 12"
  by (simp add: month_of_yday_def Let_def)

lemma month_of_yday_bounds:
  assumes "0 \<le> yd" and "yd < (if l then 366 else 365)"
  shows "days_before_month l (month_of_yday l yd) \<le> yd
    \<and> yd < days_before_month l (month_of_yday l yd + 1)"
proof (cases l)
  case True
  with assms show ?thesis by (simp add: month_of_yday_def days_before_month_def Let_def)
next
  case False
  with assms show ?thesis by (simp add: month_of_yday_def days_before_month_def Let_def)
qed

lemma days_before_month_mono: "m \<le> n \<Longrightarrow> days_before_month l m \<le> days_before_month l n"
proof (induction n rule: int_ge_induct)
  case (step n)
  have "days_before_month l n \<le> days_before_month l (n + 1)"
    by (cases l) (simp_all add: days_before_month_def Let_def)
  with step show ?case by simp
qed simp

lemma month_of_yday_unique:
  assumes "days_before_month l m \<le> yd" and "yd < days_before_month l (m + 1)"
    and "1 \<le> m" and "m \<le> 12"
  shows "month_of_yday l yd = m"
proof -
  have lo: "0 \<le> yd"
    using assms(1) days_before_month_mono [of 1 m l] assms(3)
    by (simp add: days_before_month_def)
  have hi: "yd < (if l then 366 else 365)"
    using assms(2) days_before_month_mono [of "m + 1" 13 l] assms(4)
    by (simp add: days_before_month_def Let_def split: if_splits)
  have "\<not> month_of_yday l yd + 1 \<le> m" "\<not> m + 1 \<le> month_of_yday l yd"
    using month_of_yday_bounds [OF lo hi] assms(1,2)
      days_before_month_mono [of "month_of_yday l yd + 1" m l]
      days_before_month_mono [of "m + 1" "month_of_yday l yd" l] by linarith+
  then show ?thesis by linarith
qed

lemma days_of_date_plain:
  assumes "1 \<le> m" and "m \<le> 12"
  shows "days_of_date y m d = days_before_year y + days_before_month (leap y) m + (d - 1)"
proof -
  have "(m - 1) div 12 = 0" "(m - 1) mod 12 = m - 1" using assms by simp_all
  then show ?thesis by (simp add: days_of_date_def)
qed

lemma days_of_date_next_month:
  assumes "1 \<le> m" and "m \<le> 12"
  shows "days_of_date y (m + 1) 1 = days_before_year y + days_before_month (leap y) (m + 1)"
proof (cases "m = 12")
  case True
  then show ?thesis
    by (simp add: days_of_date_def days_before_year_Suc days_before_month_def Let_def)
next
  case False
  with assms show ?thesis by (simp add: days_of_date_plain)
qed

lemma month_of_day_range: "1 \<le> month_of_day d \<and> month_of_day d \<le> 12"
  by (simp add: month_of_day_def Let_def month_of_yday_range)

lemma month_of_day_bounds:
  "days_of_date (year_of_day d) (month_of_day d) 1 \<le> d
   \<and> d < days_of_date (year_of_day d) (month_of_day d + 1) 1"
proof -
  let ?y = "year_of_day d" and ?m = "month_of_day d"
  have "0 \<le> d - days_before_year ?y" "d - days_before_year ?y < (if leap ?y then 366 else 365)"
    using year_of_day_bounds [of d] by (auto simp: days_before_year_Suc)
  from month_of_yday_bounds [OF this] show ?thesis
    using month_of_day_range [of d]
    by (simp add: days_of_date_plain days_of_date_next_month)
      (simp add: month_of_day_def Let_def)
qed

lemma month_of_day_unique:
  assumes "1 \<le> m" and "m \<le> 12"
    and "days_of_date y m 1 \<le> d" and "d < days_of_date y (m + 1) 1"
  shows "year_of_day d = y \<and> month_of_day d = m"
proof -
  let ?l = "leap y"
  have b: "days_before_year y + days_before_month ?l m \<le> d"
    "d < days_before_year y + days_before_month ?l (m + 1)"
    using assms by (simp_all add: days_of_date_plain days_of_date_next_month)
  have "0 \<le> days_before_month ?l m" "days_before_month ?l (m + 1) \<le> (if ?l then 366 else 365)"
    using assms(1,2) days_before_month_mono [of 1 m ?l] days_before_month_mono [of "m + 1" 13 ?l]
    by (simp_all add: days_before_month_def Let_def)
  with b have y: "year_of_day d = y"
    by (intro year_of_day_unique) (auto simp: days_before_year_Suc)
  have "month_of_yday ?l (d - days_before_year y) = m"
    using b assms(1,2) by (intro month_of_yday_unique) auto
  with y show ?thesis by (simp add: month_of_day_def Let_def)
qed

lemma days_of_date_of_day:
  "days_of_date (year_of_day d) (month_of_day d) (mday_of_day d + k) = d + k"
  by (simp add: mday_of_day_def days_of_date_def Let_def)

lemma mday_of_day_range: "1 \<le> mday_of_day d \<and> mday_of_day d \<le> 31"
proof -
  let ?y = "year_of_day d" and ?m = "month_of_day d"
  have "days_of_date ?y (?m + 1) 1 \<le> days_of_date ?y ?m 1 + 31"
    using month_of_day_range [of d]
    by (simp add: days_of_date_plain days_of_date_next_month)
      (simp add: days_before_month_def Let_def)
  then show ?thesis using month_of_day_bounds [of d] by (simp add: mday_of_day_def)
qed

lemma field_ranges:
  "1 \<le> Month t" "Month t \<le> 12" "1 \<le> Day t" "Day t \<le> 31" "0 \<le> Weekday t" "Weekday t < 7"
  using month_of_day_range mday_of_day_range by (simp_all add: Month_def Day_def Weekday_def)

lemma div_range: "0 \<le> x \<Longrightarrow> x < n * k \<Longrightarrow> 0 < (k :: int) \<Longrightarrow> 0 \<le> x div k \<and> x div k < n"
  by (metis div_bounds mult_less_cancel_right_pos order_le_less_trans pos_imp_zdiv_nonneg_iff)

lemma Hour_range: "0 \<le> Hour t \<and> Hour t < 24"
  unfolding Hour_def by (rule div_range) (simp_all add: nsDay_def [symmetric])

lemma Minute_range: "0 \<le> Minute t \<and> Minute t < 60"
  unfolding Minute_def by (rule div_range) (simp_all add: nsHour_def [symmetric])

end
