(* ===== verification/Go_Strings.thy ===== *)
theory Go_Strings
  imports Go_Prelude
begin

text \<open>
  The functions of Go's \<open>strings\<close> and \<open>strconv\<close> packages that the program calls, on ASCII
  strings (\<open>string\<close>, one \<open>char\<close> per byte): \<open>strings.Fields\<close>, \<open>strings.Split\<close> and
  \<open>strings.Index\<close> with a one-byte separator, \<open>strings.TrimSpace\<close>, \<open>strings.SplitN(s, sep, 2)\<close>
  and \<open>strconv.Atoi\<close>. Separators and digits are ASCII in every call of the code.
  The last part is the decimal printer that the round-trip lemmas use.
\<close>

section \<open>Splitting\<close>

fun is_space :: "char \<Rightarrow> bool" where
  "is_space c \<longleftrightarrow> c \<in> {CHR 0x09, CHR 0x0A, CHR 0x0B, CHR 0x0C, CHR 0x0D, CHR '' ''}"

declare is_space.simps [simp del]

text \<open>\<open>strings.Index(s, sep)\<close>; \<open>None\<close> stands for \<open>-1\<close>.\<close>

fun str_index :: "char \<Rightarrow> string \<Rightarrow> nat option" where
  "str_index c [] = None"
| "str_index c (x # xs) = (if x = c then Some 0 else map_option Suc (str_index c xs))"

text \<open>\<open>strings.Split(s, sep)\<close>: the pieces between separators, empty ones included.\<close>

fun str_split :: "char \<Rightarrow> string \<Rightarrow> string list" where
  "str_split c [] = [[]]"
| "str_split c (x # xs) =
     (if x = c then [] # str_split c xs
      else case str_split c xs of [] \<Rightarrow> [[x]] | p # ps \<Rightarrow> (x # p) # ps)"

text \<open>\<open>strings.Fields(s)\<close>: the maximal runs of non-space characters.\<close>

function str_fields :: "string \<Rightarrow> string list" where
  "str_fields [] = []"
| "str_fields (c # cs) =
     (if is_space c then str_fields cs
      else (c # takeWhile (\<lambda>x. \<not> is_space x) cs) # str_fields (dropWhile (\<lambda>x. \<not> is_space x) cs))"
  by pat_completeness auto
termination
  by (relation "measure length") (auto simp: le_imp_less_Suc length_dropWhile_le)

definition trim_space :: "string \<Rightarrow> string" where
  "trim_space s = rev (dropWhile is_space (rev (dropWhile is_space s)))"

text \<open>\<open>strings.SplitN(s, sep, 2)\<close>: \<open>Inl\<close> the one piece, or \<open>Inr\<close> the two pieces.\<close>

definition str_splitn2 :: "char \<Rightarrow> string \<Rightarrow> string + string \<times> string" where
  "str_splitn2 c s =
     (case str_index c s of None \<Rightarrow> Inl s | Some i \<Rightarrow> Inr (take i s, drop (Suc i) s))"

lemma str_index_None: "str_index c s = None \<longleftrightarrow> c \<notin> set s"
  by (induction s) auto

lemma str_index_append: "c \<notin> set p \<Longrightarrow> str_index c (p @ c # q) = Some (length p)"
  by (induction p) auto

lemma str_index_Some:
  "str_index c s = Some i \<Longrightarrow> i < length s \<and> s ! i = c \<and> c \<notin> set (take i s)"
proof (induction s arbitrary: i)
  case (Cons x xs)
  then show ?case by (cases i) (auto split: if_splits)
qed simp

lemma str_split_not_Nil [simp]: "str_split c s \<noteq> []"
  by (induction s) (auto split: list.splits)

lemma str_split_no_sep: "p \<in> set (str_split c s) \<Longrightarrow> c \<notin> set p"
  by (induction s arbitrary: p) (auto split: list.splits if_splits)

lemma str_split_single: "c \<notin> set s \<Longrightarrow> str_split c s = [s]"
  by (induction s) auto

lemma str_split_append: "c \<notin> set p \<Longrightarrow> str_split c (p @ c # q) = p # str_split c q"
  by (induction p) auto

lemma str_splitn2_append: "c \<notin> set p \<Longrightarrow> str_splitn2 c (p @ c # q) = Inr (p, q)"
  by (simp add: str_splitn2_def str_index_append)

text \<open>A word without spaces followed by a space is the first field.\<close>

lemma str_fields_word:
  assumes "w \<noteq> []" and "\<forall>x \<in> set w. \<not> is_space x" and "is_space b"
  shows "str_fields (w @ b # s) = w # str_fields s"
proof (cases w)
  case (Cons c cs)
  have "takeWhile (\<lambda>x. \<not> is_space x) (cs @ b # s) = cs"
    "dropWhile (\<lambda>x. \<not> is_space x) (cs @ b # s) = b # s"
    using assms Cons by (auto simp: takeWhile_append2 dropWhile_append2)
  with assms Cons show ?thesis by simp
qed (use assms in simp)

lemma str_fields_last:
  assumes "w \<noteq> []" and "\<forall>x \<in> set w. \<not> is_space x"
  shows "str_fields w = [w]"
proof (cases w)
  case (Cons c cs)
  have tw: "takeWhile (\<lambda>x. \<not> is_space x) cs = cs"
    using assms Cons by (simp add: takeWhile_eq_all_conv)
  have dw: "dropWhile (\<lambda>x. \<not> is_space x) cs = []"
    using assms Cons by (simp add: dropWhile_eq_Nil_conv)
  show ?thesis using assms Cons by (simp add: tw dw)
qed (use assms in simp)

section \<open>Numbers\<close>

definition digit_val :: "char \<Rightarrow> nat option" where
  "digit_val c = (let n = of_char c :: nat in if 48 \<le> n \<and> n \<le> 57 then Some (n - 48) else None)"

fun digits_val :: "nat \<Rightarrow> string \<Rightarrow> nat option" where
  "digits_val acc [] = Some acc"
| "digits_val acc (c # cs) =
     (case digit_val c of None \<Rightarrow> None | Some d \<Rightarrow> digits_val (10 * acc + d) cs)"

text \<open>\<open>strconv.Atoi\<close>: an optional sign, at least one digit, a value that fits 64 bits.\<close>

definition atoi :: "string \<Rightarrow> int option" where
  "atoi s =
     (let neg = (s \<noteq> [] \<and> hd s = CHR ''-'');
          ds = (if s \<noteq> [] \<and> (hd s = CHR ''-'' \<or> hd s = CHR ''+'') then tl s else s)
      in if ds = [] then None
         else case digits_val 0 ds of
           None \<Rightarrow> None
         | Some n \<Rightarrow>
             (if neg then (if int n \<le> 2 ^ 63 then Some (- int n) else None)
              else (if int n < 2 ^ 63 then Some (int n) else None)))"

lemma atoi_range: "atoi s = Some v \<Longrightarrow> - (2 ^ 63) \<le> v \<and> v < 2 ^ 63"
  by (auto simp: atoi_def Let_def split: if_splits option.splits)

text \<open>The decimal printer, the inverse of \<open>atoi\<close> on what \<open>int\<close> can hold.\<close>

definition digit_char :: "nat \<Rightarrow> char" where
  "digit_char d = char_of (d + 48)"

fun show_nat :: "nat \<Rightarrow> string" where
  "show_nat n = (if n < 10 then [digit_char n] else show_nat (n div 10) @ [digit_char (n mod 10)])"

declare show_nat.simps [simp del]

lemma digit_val_char [simp]: "d < 10 \<Longrightarrow> digit_val (digit_char d) = Some d"
  by (simp add: digit_val_def digit_char_def)

lemma digits_val_append:
  "digits_val acc (xs @ ys) = Option.bind (digits_val acc xs) (\<lambda>a. digits_val a ys)"
  by (induction xs arbitrary: acc) (auto split: option.splits)

lemma digits_val_show_nat: "digits_val 0 (show_nat n) = Some n"
proof (induction n rule: show_nat.induct)
  case (1 n)
  show ?case
  proof (cases "n < 10")
    case False
    with 1 show ?thesis by (subst show_nat.simps) (simp add: digits_val_append)
  qed (subst show_nat.simps, simp)
qed

lemma show_nat_not_Nil [simp]: "show_nat n \<noteq> []"
  by (subst show_nat.simps) simp

lemma show_nat_digits: "c \<in> set (show_nat n) \<Longrightarrow> \<exists>d < 10. c = digit_char d"
proof (induction n arbitrary: c rule: show_nat.induct)
  case (1 n)
  have "n mod 10 < 10" by simp
  with 1 show ?case
    by (cases "n < 10") (auto simp: show_nat.simps [of n] intro: exI [of _ "n mod 10"])
qed

lemma digit_char_inj: "d < 10 \<Longrightarrow> (of_char (digit_char d) :: nat) = d + 48"
  by (simp add: digit_char_def)

lemma digit_char_neq:
  assumes "d < 10" and "(of_char c :: nat) < 48 \<or> 57 < (of_char c :: nat)"
  shows "digit_char d \<noteq> c"
  using assms digit_char_inj [of d] by auto

lemma show_nat_no:
  assumes "(of_char c :: nat) < 48 \<or> 57 < (of_char c :: nat)"
  shows "c \<notin> set (show_nat n)"
  using assms digit_char_neq show_nat_digits by blast

lemma show_nat_no_sep [simp]:
  "CHR ''/'' \<notin> set (show_nat n)" "CHR ''-'' \<notin> set (show_nat n)"
  "CHR '','' \<notin> set (show_nat n)" "CHR ''*'' \<notin> set (show_nat n)"
  "CHR ''+'' \<notin> set (show_nat n)"
  by (simp_all add: show_nat_no)

lemma show_nat_no_space: "x \<in> set (show_nat n) \<Longrightarrow> \<not> is_space x"
  by (auto dest!: show_nat_digits simp: is_space.simps digit_char_neq)

lemma hd_show_nat: "hd (show_nat n) \<noteq> CHR ''-''" "hd (show_nat n) \<noteq> CHR ''+''"
  using hd_in_set [OF show_nat_not_Nil, of n] show_nat_no_sep [of n] by metis+

lemma atoi_show_nat: "int n < 2 ^ 63 \<Longrightarrow> atoi (show_nat n) = Some (int n)"
  by (simp add: atoi_def Let_def hd_show_nat digits_val_show_nat)

end
