(* ===== verification/Go_Json.thy ===== *)
theory Go_Json
  imports Go_Time Go_Strings "HOL-Library.Finite_Map" "HOL-Library.List_Lexorder" "HOL-Library.Char_ord"
begin

text \<open>
  \<open>encoding/json\<close> as the program uses it, on documents instead of their texts: a \<open>json\<close> value
  stands for the text that prints it. \<open>JTime t\<close> is the string that holds the RFC 3339 text of
  \<open>t\<close>, \<open>JBytes d\<close> the base64 string of the text of \<open>d\<close>; both occur only where the Go type is
  \<open>time.Time\<close> or \<open>[]byte\<close>. Strings are valid UTF-8, which \<open>Marshal\<close> and \<open>Unmarshal\<close> keep.

  A Go map is a finite map, printed with its keys in order. A struct is decoded key by key into
  the value that is there: unknown keys are skipped, a key matches a field without regard to
  the case of ASCII letters, a later key wins, \<open>null\<close> leaves a field as it is, and a value of
  another kind is an error, \<open>None\<close>.
\<close>

section \<open>Documents\<close>

datatype json =
    JNull
  | JBool bool
  | JNum int
  | JStr string
  | JTime time
  | JBytes json
  | JArr "json list"
  | JObj "(string \<times> json) list"

text \<open>
  What the RFC 3339 text of a time denotes: the local clock reading with the offset cut to whole
  minutes. \<open>MarshalJSON\<close> refuses a year outside of 0..9999 and an offset of a day or more.
\<close>

definition minute_offset :: "int \<Rightarrow> int" where
  "minute_offset off = (if 0 \<le> off then 60 * (off div 60) else - (60 * ((- off) div 60)))"

definition rfc3339 :: "time \<Rightarrow> time" where
  "rfc3339 t = \<lparr>tns = local_ns t - minute_offset (toff t) * nsSecond, toff = minute_offset (toff t)\<rparr>"

definition time_json :: "time \<Rightarrow> json option" where
  "time_json t =
     (if 0 \<le> Year t \<and> Year t \<le> 9999 \<and> \<bar>toff t\<bar> < 86400 then Some (JTime (rfc3339 t)) else None)"

definition whole_minutes :: "time \<Rightarrow> bool" where
  "whole_minutes t \<longleftrightarrow> toff t mod 60 = 0"

lemma rfc3339_id: "whole_minutes t \<Longrightarrow> rfc3339 t = t"
proof -
  assume "whole_minutes t"
  then obtain k where k: "toff t = 60 * k" by (auto simp: whole_minutes_def mod_eq_0_iff_dvd elim: dvdE)
  then have "minute_offset (toff t) = toff t" by (auto simp: minute_offset_def)
  then show ?thesis by (simp add: rfc3339_def local_ns_def)
qed

section \<open>Reading values\<close>

definition lower_char :: "char \<Rightarrow> char" where
  "lower_char c = (let n = of_char c :: nat in if 65 \<le> n \<and> n \<le> 90 then char_of (n + 32) else c)"

definition fold_name :: "string \<Rightarrow> string" where
  "fold_name = map lower_char"

fun get_string :: "json \<Rightarrow> string \<Rightarrow> string option" where
  "get_string JNull old = Some old"
| "get_string (JStr s) old = Some s"
| "get_string _ old = None"

fun get_bool :: "json \<Rightarrow> bool \<Rightarrow> bool option" where
  "get_bool JNull old = Some old"
| "get_bool (JBool b) old = Some b"
| "get_bool _ old = None"

fun get_int :: "json \<Rightarrow> int \<Rightarrow> int option" where
  "get_int JNull old = Some old"
| "get_int (JNum n) old = (if - (2 ^ 63) \<le> n \<and> n < 2 ^ 63 then Some n else None)"
| "get_int _ old = None"

fun get_time :: "json \<Rightarrow> time \<Rightarrow> time option" where
  "get_time JNull old = Some old"
| "get_time (JTime t) old = Some t"
| "get_time _ old = None"

text \<open>A pointer: \<open>null\<close> makes it \<open>nil\<close>.\<close>

definition get_pointer :: "(json \<Rightarrow> 'a \<Rightarrow> 'a option) \<Rightarrow> 'a \<Rightarrow> json \<Rightarrow> 'a option \<Rightarrow> 'a option option" where
  "get_pointer get zero d old =
     (if d = JNull then Some None
      else map_option Some (get d (case old of None \<Rightarrow> zero | Some x \<Rightarrow> x)))"

fun fold_fields :: "(string \<Rightarrow> json \<Rightarrow> 'r \<Rightarrow> 'r option) \<Rightarrow> (string \<times> json) list \<Rightarrow> 'r \<Rightarrow> 'r option" where
  "fold_fields upd [] r = Some r"
| "fold_fields upd ((k, d) # kds) r =
     (case upd (fold_name k) d r of None \<Rightarrow> None | Some r' \<Rightarrow> fold_fields upd kds r')"

fun get_struct :: "(string \<Rightarrow> json \<Rightarrow> 'r \<Rightarrow> 'r option) \<Rightarrow> json \<Rightarrow> 'r \<Rightarrow> 'r option" where
  "get_struct upd JNull r = Some r"
| "get_struct upd (JObj kds) r = fold_fields upd kds r"
| "get_struct upd _ r = None"

text \<open>Maps and slices: the elements start from the zero value.\<close>

fun fold_elems :: "(json \<Rightarrow> 'a \<Rightarrow> 'a option) \<Rightarrow> 'a \<Rightarrow> json list \<Rightarrow> 'a list option" where
  "fold_elems get zero [] = Some []"
| "fold_elems get zero (d # ds) =
     (case get d zero of
        None \<Rightarrow> None
      | Some x \<Rightarrow> (case fold_elems get zero ds of None \<Rightarrow> None | Some xs \<Rightarrow> Some (x # xs)))"

fun get_slice :: "(json \<Rightarrow> 'a \<Rightarrow> 'a option) \<Rightarrow> 'a \<Rightarrow> json \<Rightarrow> 'a list option \<Rightarrow> 'a list option option" where
  "get_slice get zero JNull old = Some None"
| "get_slice get zero (JArr ds) old = map_option Some (fold_elems get zero ds)"
| "get_slice get zero _ old = None"

fun fold_map :: "(json \<Rightarrow> 'a \<Rightarrow> 'a option) \<Rightarrow> 'a \<Rightarrow> (string \<times> json) list \<Rightarrow> (string, 'a) fmap \<Rightarrow> (string, 'a) fmap option" where
  "fold_map get zero [] m = Some m"
| "fold_map get zero ((k, d) # kds) m =
     (case get d zero of None \<Rightarrow> None | Some x \<Rightarrow> fold_map get zero kds (fmupd k x m))"

fun get_map ::
  "(json \<Rightarrow> 'a \<Rightarrow> 'a option) \<Rightarrow> 'a \<Rightarrow> json \<Rightarrow> (string, 'a) fmap option \<Rightarrow> (string, 'a) fmap option option" where
  "get_map get zero JNull old = Some None"
| "get_map get zero (JObj kds) old =
     map_option Some (fold_map get zero kds (case old of None \<Rightarrow> fmempty | Some m \<Rightarrow> m))"
| "get_map get zero _ old = None"

section \<open>Printing maps and slices\<close>

fun elems_json :: "('a \<Rightarrow> json option) \<Rightarrow> 'a list \<Rightarrow> json list option" where
  "elems_json enc [] = Some []"
| "elems_json enc (x # xs) =
     (case enc x of
        None \<Rightarrow> None
      | Some d \<Rightarrow> (case elems_json enc xs of None \<Rightarrow> None | Some ds \<Rightarrow> Some (d # ds)))"

definition slice_json :: "('a \<Rightarrow> json option) \<Rightarrow> 'a list option \<Rightarrow> json option" where
  "slice_json enc xs =
     (case xs of None \<Rightarrow> Some JNull | Some xs \<Rightarrow> map_option JArr (elems_json enc xs))"

fun entries_json :: "('a \<Rightarrow> json option) \<Rightarrow> (string \<times> 'a) list \<Rightarrow> (string \<times> json) list option" where
  "entries_json enc [] = Some []"
| "entries_json enc ((k, x) # kxs) =
     (case enc x of
        None \<Rightarrow> None
      | Some d \<Rightarrow> (case entries_json enc kxs of None \<Rightarrow> None | Some kds \<Rightarrow> Some ((k, d) # kds)))"

definition map_json :: "('a \<Rightarrow> json option) \<Rightarrow> (string, 'a) fmap option \<Rightarrow> json option" where
  "map_json enc m =
     (case m of
        None \<Rightarrow> Some JNull
      | Some m \<Rightarrow> map_option JObj (entries_json enc (sorted_list_of_fmap m)))"

section \<open>Round trips\<close>

lemma elems_json_get:
  assumes "elems_json enc xs = Some ds" and "\<forall>x \<in> set xs. \<forall>d. enc x = Some d \<longrightarrow> get d zero = Some (f x)"
  shows "fold_elems get zero ds = Some (map f xs)"
  using assms by (induction xs arbitrary: ds) (auto split: option.splits)

lemma slice_json_get:
  assumes "slice_json enc xs = Some d"
    and "\<forall>ys. xs = Some ys \<longrightarrow> (\<forall>x \<in> set ys. \<forall>d. enc x = Some d \<longrightarrow> get d zero = Some (f x))"
  shows "get_slice get zero d old = Some (map_option (map f) xs)"
  using assms elems_json_get [of enc _ _ get zero f]
  by (auto simp: slice_json_def split: option.splits)

lemma entries_json_get:
  assumes "entries_json enc kxs = Some kds"
    and "\<forall>(k, x) \<in> set kxs. \<forall>d. enc x = Some d \<longrightarrow> get d zero = Some (f x)"
    and "distinct (map fst kxs)"
  shows "\<exists>m'. fold_map get zero kds m = Some m'
    \<and> fmlookup m' = fmlookup m ++ map_of (map (apsnd f) kxs)"
  using assms
proof (induction kxs arbitrary: kds m)
  case (Cons kx kxs)
  obtain k x where kx: "kx = (k, x)" by (cases kx)
  obtain d kds' where e: "enc x = Some d" "entries_json enc kxs = Some kds'" "kds = (k, d) # kds'"
    using Cons.prems(1) kx by (auto split: option.splits)
  have "get d zero = Some (f x)" using Cons.prems(2) kx e(1) by auto
  moreover have "\<exists>m'. fold_map get zero kds' (fmupd k (f x) m) = Some m'
      \<and> fmlookup m' = fmlookup (fmupd k (f x) m) ++ map_of (map (apsnd f) kxs)"
    by (rule Cons.IH [OF e(2)]) (use Cons.prems(2,3) in auto)
  moreover have "map_of (map (apsnd f) kxs) k = None"
    using Cons.prems(3) kx by (auto simp: map_of_eq_None_iff image_image)
  then have "fmlookup (fmupd k (f x) m) ++ map_of (map (apsnd f) kxs)
      = fmlookup m ++ map_of (map (apsnd f) (kx # kxs))"
    by (intro ext) (simp add: kx map_add_def split: option.splits)
  moreover have "fold_map get zero kds m = fold_map get zero kds' (fmupd k (f x) m)"
    using e calculation(1) by simp
  ultimately show ?case by (simp only:)
qed simp

lemma distinct_sorted_list_of_fmap: "distinct (map fst (sorted_list_of_fmap m))"
  by (simp add: sorted_list_of_fmap_def comp_def sorted_list_of_fset.rep_eq)

lemma map_json_get:
  assumes "map_json enc m = Some d"
    and "\<forall>mm k x d. m = Some mm \<longrightarrow> fmlookup mm k = Some x \<longrightarrow> enc x = Some d \<longrightarrow> get d zero = Some (f x)"
  shows "get_map get zero d None = Some (map_option (fmmap f) m)"
proof (cases m)
  case None
  with assms(1) show ?thesis by (simp add: map_json_def)
next
  case (Some mm)
  let ?l = "sorted_list_of_fmap mm"
  obtain kds where kds: "entries_json enc ?l = Some kds" "d = JObj kds"
    using assms(1) Some by (auto simp: map_json_def)
  have "fmlookup mm k = Some x" if "(k, x) \<in> set ?l" for k x
    using map_of_is_SomeI [OF distinct_sorted_list_of_fmap that] by simp
  then have "\<forall>(k, x) \<in> set ?l. \<forall>d. enc x = Some d \<longrightarrow> get d zero = Some (f x)"
    using assms(2) Some by blast
  from entries_json_get [of enc ?l kds get zero f fmempty, OF kds(1) this distinct_sorted_list_of_fmap]
  obtain m' where m': "fold_map get zero kds fmempty = Some m'"
    "fmlookup m' = fmlookup fmempty ++ map_of (map (apsnd f) ?l)" by blast
  have "map_of (map (apsnd f) ?l) = map_option f \<circ> map_of ?l"
    by (simp add: map_of_map apsnd_def map_prod_def id_def)
  then have "m' = fmmap f mm"
    by (intro fmap_ext) (simp add: m'(2) map_add_def split: option.splits)
  with m'(1) kds(2) Some show ?thesis by simp
qed

end
