(* ===== verification/Go_Format.thy ===== *)
theory Go_Format
  imports Go_Time Go_Strings
begin

text \<open>
  The texts of numbers and times that the program builds: \<open>%d\<close> of \<open>fmt.Sprintf\<close> and
  \<open>t.Format("2006-01-02T15:04")\<close>. The text of a minute determines the minute.
\<close>

definition show_int :: "int \<Rightarrow> string" where
  "show_int i = (if i < 0 then CHR ''-'' # show_nat (nat (- i)) else show_nat (nat i))"

text \<open>\<open>appendInt\<close> of package \<open>time\<close>: at least \<open>w\<close> digits.\<close>

definition pad_nat :: "nat \<Rightarrow> nat \<Rightarrow> string" where
  "pad_nat w n = replicate (w - length (show_nat n)) CHR ''0'' @ show_nat n"

definition append_int :: "nat \<Rightarrow> int \<Rightarrow> string" where
  "append_int w i = (if i < 0 then CHR ''-'' # pad_nat w (nat (- i)) else pad_nat w (nat i))"

definition format_minute :: "time \<Rightarrow> string" where
  "format_minute t =
     append_int 4 (Year t) @ CHR ''-'' # append_int 2 (Month t) @ CHR ''-'' # append_int 2 (Day t)
     @ CHR ''T'' # append_int 2 (Hour t) @ CHR '':'' # append_int 2 (Minute t)"

section \<open>The text determines the minute\<close>

lemma digits_val_zeros: "digits_val acc (replicate k CHR ''0'' @ s) = digits_val (10 ^ k * acc) s"
  by (induction k arbitrary: acc) (simp_all add: digit_val_def algebra_simps)

lemma digits_val_pad: "digits_val 0 (pad_nat w n) = Some n"
  by (simp add: pad_nat_def digits_val_zeros digits_val_show_nat)

lemma pad_nat_inj: "pad_nat w m = pad_nat w n \<longleftrightarrow> m = n"
  by (metis digits_val_pad option.inject)

lemma pad_nat_no:
  assumes "(of_char c :: nat) < 48 \<or> 57 < (of_char c :: nat)"
  shows "c \<notin> set (pad_nat w n)"
proof -
  have "c \<noteq> CHR ''0''" using assms by auto
  with show_nat_no [OF assms, of n] show ?thesis by (simp add: pad_nat_def)
qed

lemma append_sep_eq:
  assumes "c \<notin> set xs" and "c \<notin> set ys"
  shows "xs @ c # us = ys @ c # vs \<longleftrightarrow> xs = ys \<and> us = vs"
  using assms
proof (induction xs arbitrary: ys)
  case Nil
  then show ?case by (cases ys) auto
next
  case (Cons x xs)
  then show ?case by (cases ys) auto
qed

lemma local_ns_split:
  "local_ns t = day_number t * nsDay + Hour t * nsHour + Minute t * nsMinute + local_ns t mod nsMinute"
proof -
  have h: "a mod nsDay mod nsHour = a mod nsHour" "a mod nsHour mod nsMinute = a mod nsMinute" for a
    by (rule mod_mod_cancel; simp add: ns_units)+
  have "local_ns t = day_number t * nsDay + local_ns t mod nsDay"
    by (simp add: day_number_def)
  also have "local_ns t mod nsDay = Hour t * nsHour + local_ns t mod nsHour"
    using div_mult_mod_eq [of "local_ns t mod nsDay" nsHour] by (simp add: Hour_def h)
  also have "local_ns t mod nsHour = Minute t * nsMinute + local_ns t mod nsMinute"
    using div_mult_mod_eq [of "local_ns t mod nsHour" nsMinute] by (simp add: Minute_def h)
  finally show ?thesis by simp
qed

lemma day_of_fields:
  assumes "Year t = Year u" and "Month t = Month u" and "Day t = Day u"
  shows "day_number t = day_number u"
proof -
  have "day_number v = days_of_date (Year v) (Month v) (Day v)" for v
    using days_of_date_of_day [of "day_number v" 0] by (simp only: Year_def Month_def Day_def add_0_right)
  then show ?thesis by (metis assms)
qed

lemma format_minute_inj:
  assumes "format_minute t = format_minute u" and "0 \<le> Year t" and "0 \<le> Year u"
  shows "local_ns t div nsMinute = local_ns u div nsMinute"
proof -
  have r: "0 \<le> Month v" "0 \<le> Day v" "0 \<le> Hour v" "0 \<le> Minute v" for v
    using month_of_day_range [of "day_number v"] mday_of_day_range [of "day_number v"]
      Hour_range [of v] Minute_range [of v] by (auto simp: Month_def Day_def)
  have sep: "CHR ''-'' \<notin> set (pad_nat w n)" "CHR ''T'' \<notin> set (pad_nat w n)" "CHR '':'' \<notin> set (pad_nat w n)"
    for w n by (simp_all add: pad_nat_no)
  have "Year t = Year u" "Month t = Month u" "Day t = Day u" "Hour t = Hour u" "Minute t = Minute u"
    using assms r [of t] r [of u]
    by (auto simp: format_minute_def append_int_def append_sep_eq sep pad_nat_inj eq_nat_nat_iff)
  with day_of_fields [of t u] have "local_ns t - local_ns t mod nsMinute = local_ns u - local_ns u mod nsMinute"
    using local_ns_split [of t] local_ns_split [of u] by simp
  then show ?thesis by (metis minus_mod_eq_div_mult mult_cancel_right ns_nonzero(2))
qed

end
