(* ===== verification/Go_Sha256.thy ===== *)
theory Go_Sha256
  imports Go_Prelude
begin

text \<open>
  \<open>crypto/sha256.Sum256\<close> and \<open>encoding/hex.EncodeToString\<close>, which \<open>store.RunIdempotencyKey\<close>
  uses: FIPS 180-4 on a list of bytes, and two lower-case hexadecimal digits per byte.
\<close>

section \<open>SHA-256\<close>

text \<open>
  The first 32 bits of the fractional parts of the square roots of the first 8 primes, and of the
  cube roots of the first 64 primes.
\<close>

definition sha_init :: "32 word list" where
  "sha_init =
    [1779033703, 3144134277, 1013904242, 2773480762, 1359893119, 2600822924, 528734635, 1541459225]"

definition sha_k :: "32 word list" where
  "sha_k =
    [1116352408, 1899447441, 3049323471, 3921009573, 961987163, 1508970993, 2453635748, 2870763221,
     3624381080, 310598401, 607225278, 1426881987, 1925078388, 2162078206, 2614888103, 3248222580,
     3835390401, 4022224774, 264347078, 604807628, 770255983, 1249150122, 1555081692, 1996064986,
     2554220882, 2821834349, 2952996808, 3210313671, 3336571891, 3584528711, 113926993, 338241895,
     666307205, 773529912, 1294757372, 1396182291, 1695183700, 1986661051, 2177026350, 2456956037,
     2730485921, 2820302411, 3259730800, 3345764771, 3516065817, 3600352804, 4094571909, 275423344,
     430227734, 506948616, 659060556, 883997877, 958139571, 1322822218, 1537002063, 1747873779,
     1955562222, 2024104815, 2227730452, 2361852424, 2428436474, 2756734187, 3204031479, 3329325298]"

definition big_endian :: "nat \<Rightarrow> int \<Rightarrow> int list" where
  "big_endian n x = map (\<lambda>i. x div 256 ^ (n - 1 - i) mod 256) [0..<n]"

text \<open>The message with a one bit, zeros up to 56 modulo 64 bytes, and the length in bits.\<close>

definition sha_pad :: "int list \<Rightarrow> int list" where
  "sha_pad m =
     m @ 128 # replicate ((119 - length m mod 64) mod 64) 0 @ big_endian 8 (8 * int (length m))"

fun words_of :: "int list \<Rightarrow> 32 word list" where
  "words_of (a # b # c # d # bs) = of_int (((a * 256 + b) * 256 + c) * 256 + d) # words_of bs"
| "words_of _ = []"

definition ssig0 :: "32 word \<Rightarrow> 32 word" where
  "ssig0 x = word_rotr 7 x XOR word_rotr 18 x XOR drop_bit 3 x"

definition ssig1 :: "32 word \<Rightarrow> 32 word" where
  "ssig1 x = word_rotr 17 x XOR word_rotr 19 x XOR drop_bit 10 x"

definition bsig0 :: "32 word \<Rightarrow> 32 word" where
  "bsig0 x = word_rotr 2 x XOR word_rotr 13 x XOR word_rotr 22 x"

definition bsig1 :: "32 word \<Rightarrow> 32 word" where
  "bsig1 x = word_rotr 6 x XOR word_rotr 11 x XOR word_rotr 25 x"

text \<open>The schedule, kept with the newest word first.\<close>

fun sha_extend :: "nat \<Rightarrow> 32 word list \<Rightarrow> 32 word list" where
  "sha_extend 0 w = w"
| "sha_extend (Suc n) w = sha_extend n ((ssig1 (w ! 1) + w ! 6 + ssig0 (w ! 14) + w ! 15) # w)"

definition sha_schedule :: "32 word list \<Rightarrow> 32 word list" where
  "sha_schedule block = rev (sha_extend 48 (rev block))"

fun sha_round :: "32 word list \<Rightarrow> 32 word \<times> 32 word \<Rightarrow> 32 word list" where
  "sha_round [a, b, c, d, e, f, g, h] (k, w) =
     (let t1 = h + bsig1 e + ((e AND f) XOR (NOT e AND g)) + k + w;
          t2 = bsig0 a + ((a AND b) XOR (a AND c) XOR (b AND c))
      in [t1 + t2, a, b, c, d + t1, e, f, g])"
| "sha_round st kw = st"

definition sha_block :: "32 word list \<Rightarrow> 32 word list \<Rightarrow> 32 word list" where
  "sha_block h block = map2 (+) h (foldl sha_round h (zip sha_k (sha_schedule block)))"

fun sha_blocks :: "nat \<Rightarrow> 32 word list \<Rightarrow> 32 word list \<Rightarrow> 32 word list" where
  "sha_blocks 0 h ws = h"
| "sha_blocks (Suc n) h ws = sha_blocks n (sha_block h (take 16 ws)) (drop 16 ws)"

definition Sum256 :: "int list \<Rightarrow> int list" where
  "Sum256 m =
     (let ws = words_of (sha_pad m)
      in concat (map (\<lambda>w. big_endian 4 (uint w)) (sha_blocks (length ws div 16) sha_init ws)))"

lemma length_big_endian [simp]: "length (big_endian n x) = n"
  by (simp add: big_endian_def)

lemma big_endian_bytes: "b \<in> set (big_endian n x) \<Longrightarrow> 0 \<le> b \<and> b < 256"
  by (auto simp: big_endian_def)

lemma length_sha_round [simp]: "length (sha_round st kw) = length st"
  by (induction st kw rule: sha_round.induct) (simp_all add: Let_def)

lemma length_foldl_sha_round [simp]: "length (foldl sha_round st kws) = length st"
  by (induction kws arbitrary: st) simp_all

lemma length_sha_blocks: "length (sha_blocks n h ws) = length h"
  by (induction n arbitrary: h ws) (simp_all add: sha_block_def)

lemma length_Sum256 [simp]: "length (Sum256 m) = 32"
proof -
  have "length (concat (map (\<lambda>w. big_endian 4 (uint w)) ws)) = 4 * length ws" for ws :: "32 word list"
    by (induction ws) simp_all
  then show ?thesis by (simp add: Sum256_def Let_def length_sha_blocks sha_init_def)
qed

lemma Sum256_bytes: "b \<in> set (Sum256 m) \<Longrightarrow> 0 \<le> b \<and> b < 256"
  by (auto simp: Sum256_def Let_def dest: big_endian_bytes)

section \<open>Hexadecimal\<close>

definition hex_digit :: "int \<Rightarrow> char" where
  "hex_digit d = char_of (nat (if d < 10 then d + 48 else d + 87))"

definition EncodeToString :: "int list \<Rightarrow> string" where
  "EncodeToString bs = concat (map (\<lambda>b. [hex_digit (b div 16), hex_digit (b mod 16)]) bs)"

lemma length_EncodeToString [simp]: "length (EncodeToString bs) = 2 * length bs"
  by (induction bs) (simp_all add: EncodeToString_def)


end
