(* ===== verification/Job_Types.thy ===== *)
theory Job_Types
  imports Go_Json Go_Format Go_Sha256
begin

text \<open>
  The data of the job store, \<open>internal/store/types.go\<close>: jobs, runs, the replicated state, the
  commands of the log, and their JSON documents. A document that \<open>Marshal\<close> accepts is read back
  as the value it was made from, up to what RFC 3339 keeps of a time.
\<close>

section \<open>Jobs and runs\<close>

record Job =
  ID :: string
  Name :: string
  CronExpr :: string
  Executor :: string
  Payload :: string
  Enabled :: bool
  CatchupPolicy :: string
  PartitionKey :: string
  CreatedAt :: time
  UpdatedAt :: time
  Metadata :: "(string, string) fmap option"
  NextRun :: time
  LastRun :: time
  LastStatus :: string

record JobRun =
  runID :: string
  JobID :: string
  JobName :: string
  StartedAt :: time
  FinishedAt :: "time option"
  Status :: string
  ErrorMessage :: string
  DurationMs :: int
  IdempotencyKey :: string
  ExitCode :: int
  Output :: string

definition zero_job :: Job where
  "zero_job =
     \<lparr>ID = [], Name = [], CronExpr = [], Executor = [], Payload = [], Enabled = False,
      CatchupPolicy = [], PartitionKey = [], CreatedAt = zero_time, UpdatedAt = zero_time,
      Metadata = None, NextRun = zero_time, LastRun = zero_time, LastStatus = []\<rparr>"

definition zero_run :: JobRun where
  "zero_run =
     \<lparr>runID = [], JobID = [], JobName = [], StartedAt = zero_time, FinishedAt = None, Status = [],
      ErrorMessage = [], DurationMs = 0, IdempotencyKey = [], ExitCode = 0, Output = []\<rparr>"

record StoreState =
  ssJobs :: "(string, Job) fmap option"
  ssRuns :: "JobRun list option"

record Command =
  cmdOp :: string
  cmdData :: "json option"

abbreviation OpCreateJob :: string where "OpCreateJob \<equiv> ''create_job''"
abbreviation OpUpdateJob :: string where "OpUpdateJob \<equiv> ''update_job''"
abbreviation OpDeleteJob :: string where "OpDeleteJob \<equiv> ''delete_job''"
abbreviation OpRecordRun :: string where "OpRecordRun \<equiv> ''record_run''"

section \<open>Documents of jobs and runs\<close>

text \<open>
  The \<open>omitempty\<close> of \<open>LastRun\<close> has no effect, a struct is never empty; a string, a number and a
  pointer with \<open>omitempty\<close> are left out when they are zero.
\<close>

definition opt_field :: "string \<Rightarrow> bool \<Rightarrow> json \<Rightarrow> (string \<times> json) list" where
  "opt_field k present d = (if present then [(k, d)] else [])"

definition job_json :: "Job \<Rightarrow> json option" where
  "job_json j =
     do {
       created \<leftarrow> time_json (CreatedAt j);
       updated \<leftarrow> time_json (UpdatedAt j);
       meta \<leftarrow> map_json (\<lambda>s. Some (JStr s)) (Metadata j);
       next_run \<leftarrow> time_json (NextRun j);
       last_run \<leftarrow> time_json (LastRun j);
       Some (JObj (
         [(''id'', JStr (ID j)), (''name'', JStr (Name j)), (''cron_expr'', JStr (CronExpr j)),
          (''executor'', JStr (Executor j)), (''payload'', JStr (Payload j)),
          (''enabled'', JBool (Enabled j)), (''catchup_policy'', JStr (CatchupPolicy j)),
          (''partition_key'', JStr (PartitionKey j)), (''created_at'', created),
          (''updated_at'', updated), (''metadata'', meta), (''next_run'', next_run),
          (''last_run'', last_run)]
         @ opt_field ''last_status'' (LastStatus j \<noteq> []) (JStr (LastStatus j))))
     }"

definition run_json :: "JobRun \<Rightarrow> json option" where
  "run_json r =
     do {
       started \<leftarrow> time_json (StartedAt r);
       finished \<leftarrow> (case FinishedAt r of None \<Rightarrow> Some [] | Some t \<Rightarrow> map_option (\<lambda>d. [(''finished_at'', d)]) (time_json t));
       Some (JObj (
         [(''id'', JStr (runID r)), (''job_id'', JStr (JobID r)), (''job_name'', JStr (JobName r)),
          (''started_at'', started)]
         @ finished
         @ [(''status'', JStr (Status r))]
         @ opt_field ''error_message'' (ErrorMessage r \<noteq> []) (JStr (ErrorMessage r))
         @ opt_field ''duration_ms'' (DurationMs r \<noteq> 0) (JNum (DurationMs r))
         @ [(''idempotency_key'', JStr (IdempotencyKey r))]
         @ opt_field ''exit_code'' (ExitCode r \<noteq> 0) (JNum (ExitCode r))
         @ opt_field ''output'' (Output r \<noteq> []) (JStr (Output r))))
     }"

definition set_job_field :: "string \<Rightarrow> json \<Rightarrow> Job \<Rightarrow> Job option" where
  "set_job_field k d j =
     (if k = ''id'' then map_option (\<lambda>v. j\<lparr>ID := v\<rparr>) (get_string d (ID j))
      else if k = ''name'' then map_option (\<lambda>v. j\<lparr>Name := v\<rparr>) (get_string d (Name j))
      else if k = ''cron_expr'' then map_option (\<lambda>v. j\<lparr>CronExpr := v\<rparr>) (get_string d (CronExpr j))
      else if k = ''executor'' then map_option (\<lambda>v. j\<lparr>Executor := v\<rparr>) (get_string d (Executor j))
      else if k = ''payload'' then map_option (\<lambda>v. j\<lparr>Payload := v\<rparr>) (get_string d (Payload j))
      else if k = ''enabled'' then map_option (\<lambda>v. j\<lparr>Enabled := v\<rparr>) (get_bool d (Enabled j))
      else if k = ''catchup_policy''
        then map_option (\<lambda>v. j\<lparr>CatchupPolicy := v\<rparr>) (get_string d (CatchupPolicy j))
      else if k = ''partition_key''
        then map_option (\<lambda>v. j\<lparr>PartitionKey := v\<rparr>) (get_string d (PartitionKey j))
      else if k = ''created_at'' then map_option (\<lambda>v. j\<lparr>CreatedAt := v\<rparr>) (get_time d (CreatedAt j))
      else if k = ''updated_at'' then map_option (\<lambda>v. j\<lparr>UpdatedAt := v\<rparr>) (get_time d (UpdatedAt j))
      else if k = ''metadata''
        then map_option (\<lambda>v. j\<lparr>Metadata := v\<rparr>) (get_map get_string [] d (Metadata j))
      else if k = ''next_run'' then map_option (\<lambda>v. j\<lparr>NextRun := v\<rparr>) (get_time d (NextRun j))
      else if k = ''last_run'' then map_option (\<lambda>v. j\<lparr>LastRun := v\<rparr>) (get_time d (LastRun j))
      else if k = ''last_status''
        then map_option (\<lambda>v. j\<lparr>LastStatus := v\<rparr>) (get_string d (LastStatus j))
      else Some j)"

definition set_run_field :: "string \<Rightarrow> json \<Rightarrow> JobRun \<Rightarrow> JobRun option" where
  "set_run_field k d r =
     (if k = ''id'' then map_option (\<lambda>v. r\<lparr>runID := v\<rparr>) (get_string d (runID r))
      else if k = ''job_id'' then map_option (\<lambda>v. r\<lparr>JobID := v\<rparr>) (get_string d (JobID r))
      else if k = ''job_name'' then map_option (\<lambda>v. r\<lparr>JobName := v\<rparr>) (get_string d (JobName r))
      else if k = ''started_at'' then map_option (\<lambda>v. r\<lparr>StartedAt := v\<rparr>) (get_time d (StartedAt r))
      else if k = ''finished_at''
        then map_option (\<lambda>v. r\<lparr>FinishedAt := v\<rparr>) (get_pointer get_time zero_time d (FinishedAt r))
      else if k = ''status'' then map_option (\<lambda>v. r\<lparr>Status := v\<rparr>) (get_string d (Status r))
      else if k = ''error_message''
        then map_option (\<lambda>v. r\<lparr>ErrorMessage := v\<rparr>) (get_string d (ErrorMessage r))
      else if k = ''duration_ms'' then map_option (\<lambda>v. r\<lparr>DurationMs := v\<rparr>) (get_int d (DurationMs r))
      else if k = ''idempotency_key''
        then map_option (\<lambda>v. r\<lparr>IdempotencyKey := v\<rparr>) (get_string d (IdempotencyKey r))
      else if k = ''exit_code'' then map_option (\<lambda>v. r\<lparr>ExitCode := v\<rparr>) (get_int d (ExitCode r))
      else if k = ''output'' then map_option (\<lambda>v. r\<lparr>Output := v\<rparr>) (get_string d (Output r))
      else Some r)"

definition get_job :: "json \<Rightarrow> Job \<Rightarrow> Job option" where
  "get_job = get_struct set_job_field"

definition get_run :: "json \<Rightarrow> JobRun \<Rightarrow> JobRun option" where
  "get_run = get_struct set_run_field"

section \<open>Documents of commands and snapshots\<close>

definition command_json :: "Command \<Rightarrow> json" where
  "command_json c =
     JObj [(''op'', JStr (cmdOp c)), (''data'', (case cmdData c of None \<Rightarrow> JNull | Some d \<Rightarrow> JBytes d))]"

fun get_bytes :: "json \<Rightarrow> json option \<Rightarrow> json option option" where
  "get_bytes JNull old = Some None"
| "get_bytes (JBytes d) old = Some (Some d)"
| "get_bytes _ old = None"

definition set_command_field :: "string \<Rightarrow> json \<Rightarrow> Command \<Rightarrow> Command option" where
  "set_command_field k d c =
     (if k = ''op'' then map_option (\<lambda>v. c\<lparr>cmdOp := v\<rparr>) (get_string d (cmdOp c))
      else if k = ''data'' then map_option (\<lambda>v. c\<lparr>cmdData := v\<rparr>) (get_bytes d (cmdData c))
      else Some c)"

definition zero_command :: Command where
  "zero_command = \<lparr>cmdOp = [], cmdData = None\<rparr>"

definition get_command :: "json \<Rightarrow> Command \<Rightarrow> Command option" where
  "get_command = get_struct set_command_field"

definition state_json :: "StoreState \<Rightarrow> json option" where
  "state_json s =
     do {
       jobs \<leftarrow> map_json job_json (ssJobs s);
       runs \<leftarrow> slice_json run_json (ssRuns s);
       Some (JObj [(''jobs'', jobs), (''runs'', runs)])
     }"

definition set_state_field :: "string \<Rightarrow> json \<Rightarrow> StoreState \<Rightarrow> StoreState option" where
  "set_state_field k d s =
     (if k = ''jobs'' then map_option (\<lambda>v. s\<lparr>ssJobs := v\<rparr>) (get_map get_job zero_job d (ssJobs s))
      else if k = ''runs'' then map_option (\<lambda>v. s\<lparr>ssRuns := v\<rparr>) (get_slice get_run zero_run d (ssRuns s))
      else Some s)"

definition get_state :: "json \<Rightarrow> StoreState \<Rightarrow> StoreState option" where
  "get_state = get_struct set_state_field"

section \<open>Round trips\<close>

definition rfc_job :: "Job \<Rightarrow> Job" where
  "rfc_job j = j\<lparr>CreatedAt := rfc3339 (CreatedAt j), UpdatedAt := rfc3339 (UpdatedAt j),
     NextRun := rfc3339 (NextRun j), LastRun := rfc3339 (LastRun j)\<rparr>"

definition rfc_run :: "JobRun \<Rightarrow> JobRun" where
  "rfc_run r = r\<lparr>StartedAt := rfc3339 (StartedAt r), FinishedAt := map_option rfc3339 (FinishedAt r)\<rparr>"

definition run_ints_ok :: "JobRun \<Rightarrow> bool" where
  "run_ints_ok r \<longleftrightarrow> - (2 ^ 63) \<le> DurationMs r \<and> DurationMs r < 2 ^ 63
     \<and> - (2 ^ 63) \<le> ExitCode r \<and> ExitCode r < 2 ^ 63"

lemma fold_names [simp]:
  "fold_name ''id'' = ''id''" "fold_name ''name'' = ''name''" "fold_name ''cron_expr'' = ''cron_expr''"
  "fold_name ''executor'' = ''executor''" "fold_name ''payload'' = ''payload''"
  "fold_name ''enabled'' = ''enabled''" "fold_name ''catchup_policy'' = ''catchup_policy''"
  "fold_name ''partition_key'' = ''partition_key''" "fold_name ''created_at'' = ''created_at''"
  "fold_name ''updated_at'' = ''updated_at''" "fold_name ''metadata'' = ''metadata''"
  "fold_name ''next_run'' = ''next_run''" "fold_name ''last_run'' = ''last_run''"
  "fold_name ''last_status'' = ''last_status''" "fold_name ''job_id'' = ''job_id''"
  "fold_name ''job_name'' = ''job_name''" "fold_name ''started_at'' = ''started_at''"
  "fold_name ''finished_at'' = ''finished_at''" "fold_name ''status'' = ''status''"
  "fold_name ''error_message'' = ''error_message''" "fold_name ''duration_ms'' = ''duration_ms''"
  "fold_name ''idempotency_key'' = ''idempotency_key''" "fold_name ''exit_code'' = ''exit_code''"
  "fold_name ''output'' = ''output''" "fold_name ''op'' = ''op''" "fold_name ''data'' = ''data''"
  "fold_name ''jobs'' = ''jobs''" "fold_name ''runs'' = ''runs''"
  by code_simp+

lemma time_json_get: "time_json t = Some d \<Longrightarrow> get_time d old = Some (rfc3339 t)"
  by (auto simp: time_json_def split: if_splits)

lemma time_json_not_null: "time_json t = Some d \<Longrightarrow> d \<noteq> JNull"
  by (auto simp: time_json_def split: if_splits)

lemma fmmap_id: "fmmap id m = m"
  by (rule fmap_ext) (simp add: option.map_id)

lemma job_json_get:
  assumes "job_json j = Some d"
  shows "get_job d zero_job = Some (rfc_job j)"
proof -
  obtain created updated meta next_run last_run where
    f: "time_json (CreatedAt j) = Some created" "time_json (UpdatedAt j) = Some updated"
      "map_json (\<lambda>s. Some (JStr s)) (Metadata j) = Some meta"
      "time_json (NextRun j) = Some next_run" "time_json (LastRun j) = Some last_run"
    and d: "d = JObj (
         [(''id'', JStr (ID j)), (''name'', JStr (Name j)), (''cron_expr'', JStr (CronExpr j)),
          (''executor'', JStr (Executor j)), (''payload'', JStr (Payload j)),
          (''enabled'', JBool (Enabled j)), (''catchup_policy'', JStr (CatchupPolicy j)),
          (''partition_key'', JStr (PartitionKey j)), (''created_at'', created),
          (''updated_at'', updated), (''metadata'', meta), (''next_run'', next_run),
          (''last_run'', last_run)]
         @ opt_field ''last_status'' (LastStatus j \<noteq> []) (JStr (LastStatus j)))"
    using assms by (auto simp: job_json_def split: bind_splits)
  have "get_map get_string [] meta None = Some (Metadata j)"
    using map_json_get [OF f(3), of get_string "[]" id] by (cases "Metadata j") (simp_all add: fmmap_id)
  with f show ?thesis
    by (simp add: d get_job_def set_job_field_def zero_job_def rfc_job_def opt_field_def time_json_get)
qed

lemma run_json_get:
  assumes "run_json r = Some d" and "run_ints_ok r"
  shows "get_run d zero_run = Some (rfc_run r)"
proof -
  obtain started finished where f: "time_json (StartedAt r) = Some started"
    "(case FinishedAt r of None \<Rightarrow> Some [] | Some t \<Rightarrow> map_option (\<lambda>d. [(''finished_at'', d)]) (time_json t))
      = Some finished"
    and d: "d = JObj (
         [(''id'', JStr (runID r)), (''job_id'', JStr (JobID r)), (''job_name'', JStr (JobName r)),
          (''started_at'', started)]
         @ finished
         @ [(''status'', JStr (Status r))]
         @ opt_field ''error_message'' (ErrorMessage r \<noteq> []) (JStr (ErrorMessage r))
         @ opt_field ''duration_ms'' (DurationMs r \<noteq> 0) (JNum (DurationMs r))
         @ [(''idempotency_key'', JStr (IdempotencyKey r))]
         @ opt_field ''exit_code'' (ExitCode r \<noteq> 0) (JNum (ExitCode r))
         @ opt_field ''output'' (Output r \<noteq> []) (JStr (Output r)))"
    using assms by (auto simp: run_json_def split: bind_splits)
  show ?thesis
  proof (cases "FinishedAt r")
    case None
    with f(2) have "finished = []" by simp
    with f(1) None assms(2) show ?thesis
      by (simp add: d get_run_def set_run_field_def zero_run_def rfc_run_def opt_field_def
          time_json_get run_ints_ok_def)
  next
    case (Some t)
    with f(2) obtain e where e: "time_json t = Some e" "finished = [(''finished_at'', e)]" by auto
    with f(1) Some assms(2) show ?thesis
      by (simp add: d get_run_def set_run_field_def zero_run_def rfc_run_def opt_field_def
          time_json_get time_json_not_null get_pointer_def run_ints_ok_def)
  qed
qed

lemma state_json_get:
  assumes "state_json s = Some d" and "\<forall>rs. ssRuns s = Some rs \<longrightarrow> (\<forall>r \<in> set rs. run_ints_ok r)"
  shows "get_state d \<lparr>ssJobs = None, ssRuns = None\<rparr>
    = Some \<lparr>ssJobs = map_option (fmmap rfc_job) (ssJobs s), ssRuns = map_option (map rfc_run) (ssRuns s)\<rparr>"
proof -
  obtain jobs runs where f: "map_json job_json (ssJobs s) = Some jobs"
    "slice_json run_json (ssRuns s) = Some runs" "d = JObj [(''jobs'', jobs), (''runs'', runs)]"
    using assms(1) by (auto simp: state_json_def split: bind_splits)
  have "get_map get_job zero_job jobs None = Some (map_option (fmmap rfc_job) (ssJobs s))"
    by (rule map_json_get [OF f(1)]) (simp add: job_json_get)
  moreover have "get_slice get_run zero_run runs None = Some (map_option (map rfc_run) (ssRuns s))"
    by (rule slice_json_get [OF f(2)]) (use assms(2) run_json_get in auto)
  ultimately show ?thesis by (simp add: f(3) get_state_def set_state_field_def)
qed

lemma command_json_get: "get_command (command_json c) zero_command = Some c"
  by (cases "cmdData c") (simp_all add: command_json_def get_command_def set_command_field_def zero_command_def)

section \<open>Commands of the older interface\<close>

datatype CmdType = CmdUpsert | CmdDelete | CmdRecord | CmdOther nat

record RunRecord =
  rrJobID :: string
  rrStartedAt :: time
  rrFinishedAt :: time
  rrExitCode :: int
  rrOutput :: string
  rrStatus :: string

record Cmd =
  cmdType :: CmdType
  ReqID :: string
  cmdJob :: Job
  cmdID :: string
  cmdRun :: RunRecord

definition legacyRunKey :: "Cmd \<Rightarrow> string" where
  "legacyRunKey c =
     (if ReqID c \<noteq> [] then ReqID c
      else rrJobID (cmdRun c) @ '':'' @ show_int (UnixNano (rrStartedAt (cmdRun c))) @ '':'' @ rrStatus (cmdRun c))"

definition legacy_run :: "Cmd \<Rightarrow> JobRun" where
  "legacy_run c =
     (let r = cmdRun c;
          run = zero_run\<lparr>JobID := rrJobID r, StartedAt := rrStartedAt r, Status := rrStatus r,
                  ExitCode := rrExitCode r, Output := rrOutput r, IdempotencyKey := legacyRunKey c\<rparr>
      in if \<not> IsZero (rrFinishedAt r)
         then run\<lparr>FinishedAt := Some (rrFinishedAt r),
                  DurationMs := Milliseconds (Sub (rrFinishedAt r) (rrStartedAt r))\<rparr>
         else run)"

text \<open>An error of \<open>Marshal\<close> is ignored and leaves the data \<open>nil\<close>.\<close>

definition legacy_command :: "Cmd \<Rightarrow> Command" where
  "legacy_command c =
     (case cmdType c of
        CmdUpsert \<Rightarrow> \<lparr>cmdOp = OpUpdateJob, cmdData = job_json (cmdJob c)\<rparr>
      | CmdDelete \<Rightarrow> \<lparr>cmdOp = OpDeleteJob, cmdData = job_json (zero_job\<lparr>ID := cmdID c\<rparr>)\<rparr>
      | CmdRecord \<Rightarrow> \<lparr>cmdOp = OpRecordRun, cmdData = run_json (legacy_run c)\<rparr>
      | CmdOther _ \<Rightarrow> zero_command)"

section \<open>The key of a firing\<close>

definition bytes_of :: "string \<Rightarrow> int list" where
  "bytes_of = map (\<lambda>c. of_char c)"

definition RunIdempotencyKey :: "string \<Rightarrow> time \<Rightarrow> string" where
  "RunIdempotencyKey jobID scheduled =
     take 16 (EncodeToString (Sum256 (bytes_of (jobID @ '':'' @ format_minute (UTC scheduled)))))"

lemma length_RunIdempotencyKey: "length (RunIdempotencyKey j t) = 16"
  by (simp add: RunIdempotencyKey_def)

lemma mod_mult_div: "0 < b \<Longrightarrow> 0 \<le> c \<Longrightarrow> x mod (b * c) div b = x div b mod (c :: int)"
  by (simp add: zmod_zmult2_eq)

lemma fields_of_minute:
  fixes v :: time
  defines "m \<equiv> local_ns v div nsMinute"
  shows "day_number v = m div 60 div 24" "Hour v = m div 60 mod 24" "Minute v = m mod 60"
proof -
  have u: "nsDay = nsHour * 24" "nsHour = nsMinute * 60" by (simp_all add: ns_units)
  show "day_number v = m div 60 div 24"
    unfolding day_number_def m_def u by (simp only: zdiv_zmult2_eq [of 24] zdiv_zmult2_eq [of 60])
  show "Hour v = m div 60 mod 24"
    unfolding Hour_def m_def u(1) mod_mult_div [OF ns_pos(3) zero_le_numeral]
    by (simp only: u(2) zdiv_zmult2_eq [of 60])
  show "Minute v = m mod 60"
    unfolding Minute_def m_def u(2) by (rule mod_mult_div) simp_all
qed

lemma format_minute_cong:
  assumes "local_ns t div nsMinute = local_ns u div nsMinute"
  shows "format_minute t = format_minute u"
  unfolding format_minute_def Year_def Month_def Day_def fields_of_minute assms ..

lemma RunIdempotencyKey_cong:
  "tns t div nsMinute = tns u div nsMinute \<Longrightarrow> RunIdempotencyKey j t = RunIdempotencyKey j u"
  using format_minute_cong [of "UTC t" "UTC u"] by (simp add: RunIdempotencyKey_def local_ns_def UTC_def)

text \<open>
  The key of a firing depends on the job and on the minute of the scheduled time in UTC only,
  whatever the location of the time; it has 16 characters.
\<close>

theorem RunIdempotencyKey_minute:
  assumes "tns t div nsMinute = tns u div nsMinute"
  shows "RunIdempotencyKey j t = RunIdempotencyKey j u \<and> length (RunIdempotencyKey j t) = 16"
  using RunIdempotencyKey_cong [OF assms] by (simp add: length_RunIdempotencyKey)

theorem RunIdempotencyKey_minute_witness:
  "\<lparr>tns = 61000000000, toff = 0\<rparr> \<noteq> \<lparr>tns = 119000000000, toff = 3600\<rparr>
   \<and> RunIdempotencyKey ''a'' \<lparr>tns = 61000000000, toff = 0\<rparr> = RunIdempotencyKey ''a'' \<lparr>tns = 119000000000, toff = 3600\<rparr>"
  using RunIdempotencyKey_minute [of "\<lparr>tns = 61000000000, toff = 0\<rparr>" "\<lparr>tns = 119000000000, toff = 3600\<rparr>" "''a''"]
  by (simp add: ns_units)

end
