(* ===== verification/Router.thy ===== *)
theory Router
  imports Job_Types
begin

unbundle bit_operations_syntax

text \<open>
  The cluster router, \<open>internal/store/router.go\<close>, with the FNV-1a hash of \<open>hash/fnv\<close>: the key of a
  job decides which cluster it lives on once sharding is enabled.
\<close>

section \<open>FNV-1a\<close>

text \<open>\<open>New32a\<close>, \<open>Write\<close> and \<open>Sum32\<close>: the state is the hash, updated byte by byte.\<close>

definition fnv_step :: "32 word \<Rightarrow> int \<Rightarrow> 32 word" where
  "fnv_step h b = (h XOR of_int b) * 16777619"

definition Sum32a :: "int list \<Rightarrow> 32 word" where
  "Sum32a bs = foldl fnv_step 2166136261 bs"

section \<open>Routing\<close>

record ClusterRouter =
  numClusters :: int
  routerEnabled :: bool

definition NewClusterRouter :: "int \<Rightarrow> bool \<Rightarrow> ClusterRouter" where
  "NewClusterRouter n en = \<lparr>numClusters = n, routerEnabled = en\<rparr>"

text \<open>\<open>int\<close> has 64 bits, so the conversion of the hash keeps its value and the remainder is not negative.\<close>

definition Route :: "string \<Rightarrow> ClusterRouter \<Rightarrow> int" where
  "Route partitionKey r =
     (if \<not> routerEnabled r \<or> numClusters r \<le> 1 then 0
      else uint (Sum32a (bytes_of partitionKey)) mod numClusters r)"

section \<open>The hash as arithmetic\<close>

text \<open>The published definition on numbers, with the wrap-around of 32 bits written out.\<close>

fun fnv_ref :: "nat \<Rightarrow> nat list \<Rightarrow> nat" where
  "fnv_ref h [] = h"
| "fnv_ref h (b # bs) = fnv_ref ((h XOR b) * 16777619 mod 2 ^ 32) bs"

lemma unat_fnv_step:
  assumes "0 \<le> b" and "b < 256"
  shows "unat (fnv_step h b) = (unat h XOR nat b) * 16777619 mod 2 ^ 32"
proof -
  have b: "unat (of_int b :: 32 word) = nat b"
    using assms by (simp add: unsigned_of_int take_bit_int_eq_self)
  have "unat (h XOR of_int b) = unat h XOR nat b"
    by (simp add: unsigned_xor_eq b)
  then show ?thesis by (simp add: fnv_step_def unat_word_ariths)
qed

lemma foldl_fnv_step:
  assumes "\<forall>b \<in> set bs. 0 \<le> b \<and> b < 256"
  shows "unat (foldl fnv_step h bs) = fnv_ref (unat h) (map nat bs)"
  using assms by (induction bs arbitrary: h) (simp_all add: unat_fnv_step)

lemma bytes_of_range: "\<forall>b \<in> set (bytes_of s). 0 \<le> b \<and> b < 256"
proof -
  have "0 \<le> (of_char c :: int) \<and> of_char c < (256 :: int)" for c
  proof -
    have "int (of_char c) < 256" using nat_of_char_less_256 [of c] by presburger
    moreover have "int (of_char c) = of_char c" by (rule of_nat_of_char)
    ultimately show ?thesis by (metis of_nat_0_le_iff)
  qed
  then show ?thesis by (simp add: bytes_of_def)
qed

text \<open>
  C32. \<open>Route\<close> is the reference hash of the key modulo the number of clusters when sharding is on,
  and cluster 0 otherwise; it is always the index of a cluster.
\<close>

theorem Route_correct:
  "Route k (NewClusterRouter n en) =
     (if en \<and> 1 < n then int (fnv_ref 2166136261 (map nat (bytes_of k))) mod n else 0)
   \<and> (1 \<le> n \<longrightarrow> 0 \<le> Route k (NewClusterRouter n en) \<and> Route k (NewClusterRouter n en) < n)"
proof -
  have "uint (Sum32a (bytes_of k)) = int (fnv_ref 2166136261 (map nat (bytes_of k)))"
    using foldl_fnv_step [OF bytes_of_range, of 2166136261 k] by (simp add: Sum32a_def uint_nat)
  then show ?thesis by (auto simp: Route_def NewClusterRouter_def)
qed

theorem Route_correct_witness:
  "(1 :: int) \<le> 3 \<and> 0 \<le> Route ''foobar'' (NewClusterRouter 3 True) \<and> Route ''foobar'' (NewClusterRouter 3 True) < 3
   \<and> Sum32a (bytes_of ''foobar'') = 0xbf9cf968"
proof -
  have "Sum32a (bytes_of ''foobar'') = 0xbf9cf968" by code_simp
  with Route_correct [of "''foobar''" 3 True] show ?thesis by simp
qed

end
