(* ===== verification/Cron.thy ===== *)
theory Cron
  imports Go_Strings Go_Time
begin

text \<open>
  The cron expression parser and the search for the next firing time, \<open>pkg/cron/parser.go\<close>.

  An \<open>Expression\<close> is six 64-bit masks. \<open>Parse\<close> and \<open>Next\<close> contain loops whose
  termination depends on values computed at run time (a step that may overflow \<open>int\<close>, an
  instant that must move forward), so both are options: \<open>None\<close> means that the loop never
  returns. That they do return is proved, for every input of \<open>Parse\<close> and for every location
  whose offset is a whole number of hours of \<open>Next\<close>.
\<close>

section \<open>The parser\<close>

record Expression =
  second :: "64 word"
  minute :: "64 word"
  hour :: "64 word"
  dayOfMonth :: "64 word"
  month :: "64 word"
  dayOfWeek :: "64 word"

datatype cron_error =
    FieldCount nat
  | InvalidStep string
  | InvalidRangeStart string
  | InvalidRangeEnd string
  | InvalidValue string
  | OutOfRange int int int int
  | InField string cron_error

text \<open>\<open>1 << uint(i)\<close> on \<open>uint64\<close>: a negative \<open>i\<close> converts to a huge count, which gives 0.\<close>

definition shl1 :: "int \<Rightarrow> 64 word" where
  "shl1 i = (if 0 \<le> i \<and> i < 64 then push_bit (nat i) 1 else 0)"

partial_function (option) fill_loop :: "int \<Rightarrow> int \<Rightarrow> int \<Rightarrow> 64 word \<Rightarrow> 64 word option" where
  "fill_loop i hi step msk =
     (if i \<le> hi then fill_loop (wrap64 (i + step)) hi step (msk OR shl1 i) else Some msk)"

declare fill_loop.simps [code]

definition fillRangeStep :: "int \<Rightarrow> int \<Rightarrow> int \<Rightarrow> 64 word option" where
  "fillRangeStep lo hi step = fill_loop lo hi step 0"

text \<open>The part of \<open>parsePart\<close> before the bounds: the step and what is left of the part.\<close>

definition parse_step :: "string \<Rightarrow> cron_error + int \<times> string" where
  "parse_step part =
     (case str_index CHR ''/'' part of
        None \<Rightarrow> Inr (1, part)
      | Some idx \<Rightarrow>
          (case atoi (drop (idx + 1) part) of
             None \<Rightarrow> Inl (InvalidStep (drop (idx + 1) part))
           | Some s \<Rightarrow>
               (if s \<le> 0 then Inl (InvalidStep (drop (idx + 1) part)) else Inr (s, take idx part))))"

text \<open>The bounds: a star, a range or a single value.\<close>

definition parse_bounds :: "string \<Rightarrow> int \<Rightarrow> int \<Rightarrow> cron_error + int \<times> int" where
  "parse_bounds part mn mx =
     (if part = ''*'' then Inr (mn, mx)
      else case str_index CHR ''-'' part of
        Some idx \<Rightarrow>
          (case atoi (take idx part) of
             None \<Rightarrow> Inl (InvalidRangeStart (take idx part))
           | Some lo \<Rightarrow>
               (case atoi (drop (idx + 1) part) of
                  None \<Rightarrow> Inl (InvalidRangeEnd (drop (idx + 1) part))
                | Some hi \<Rightarrow> Inr (lo, hi)))
      | None \<Rightarrow>
          (case atoi part of None \<Rightarrow> Inl (InvalidValue part) | Some v \<Rightarrow> Inr (v, v)))"

definition parsePart :: "string \<Rightarrow> int \<Rightarrow> int \<Rightarrow> (cron_error + 64 word) option" where
  "parsePart part mn mx =
     (case parse_step part of
        Inl e \<Rightarrow> Some (Inl e)
      | Inr (step, rest) \<Rightarrow>
          (case parse_bounds rest mn mx of
             Inl e \<Rightarrow> Some (Inl e)
           | Inr (lo, hi) \<Rightarrow>
               (if lo < mn \<or> hi > mx \<or> lo > hi then Some (Inl (OutOfRange lo hi mn mx))
                else map_option Inr (fillRangeStep lo hi step))))"

fun parse_parts :: "64 word \<Rightarrow> string list \<Rightarrow> int \<Rightarrow> int \<Rightarrow> (cron_error + 64 word) option" where
  "parse_parts msk [] mn mx = Some (Inr msk)"
| "parse_parts msk (p # ps) mn mx =
     (case parsePart p mn mx of
        None \<Rightarrow> None
      | Some (Inl e) \<Rightarrow> Some (Inl e)
      | Some (Inr m) \<Rightarrow> parse_parts (msk OR m) ps mn mx)"

definition parseField :: "string \<Rightarrow> int \<Rightarrow> int \<Rightarrow> (cron_error + 64 word) option" where
  "parseField field mn mx =
     (if field = ''*'' then map_option Inr (fillRangeStep mn mx 1)
      else parse_parts 0 (str_split CHR '','' field) mn mx)"

text \<open>One assignment of \<open>Parse\<close>: a field, its name for the error, the rest of the function.\<close>

definition with_field ::
  "string \<Rightarrow> (cron_error + 64 word) option \<Rightarrow> (64 word \<Rightarrow> (cron_error + 'a) option)
    \<Rightarrow> (cron_error + 'a) option" where
  "with_field name r k =
     (case r of
        None \<Rightarrow> None
      | Some (Inl e) \<Rightarrow> Some (Inl (InField name e))
      | Some (Inr m) \<Rightarrow> k m)"

definition Parse :: "string \<Rightarrow> (cron_error + Expression) option" where
  "Parse expr =
     (let fields = str_fields expr in
      if length fields \<noteq> 5 then Some (Inl (FieldCount (length fields)))
      else
        with_field ''minute'' (parseField (fields ! 0) 0 59) (\<lambda>mi.
        with_field ''hour'' (parseField (fields ! 1) 0 23) (\<lambda>h.
        with_field ''dom'' (parseField (fields ! 2) 1 31) (\<lambda>dom.
        with_field ''month'' (parseField (fields ! 3) 1 12) (\<lambda>mo.
        with_field ''dow'' (parseField (fields ! 4) 0 6) (\<lambda>dow.
          Some (Inr \<lparr>second = 0, minute = mi, hour = h, dayOfMonth = dom, month = mo,
                     dayOfWeek = dow\<rparr>)))))))"

section \<open>The next firing time\<close>

definition advanceMonth :: "time \<Rightarrow> time" where
  "advanceMonth t = Date (Year t) (Month t + 1) 1 0 0 0 0 (toff t)"

definition advanceHour :: "time \<Rightarrow> time" where
  "advanceHour t =
     (let next = Truncate (Add t nsHour) nsHour
      in Date (Year next) (Month next) (Day next) (Hour next) 0 0 0 (toff t))"

definition advanceDay :: "time \<Rightarrow> time" where
  "advanceDay t =
     (let t' = AddDate t 0 0 1 in Date (Year t') (Month t') (Day t') 0 0 0 0 (toff t'))"

partial_function (option) next_loop :: "Expression \<Rightarrow> time \<Rightarrow> time \<Rightarrow> time option" where
  "next_loop e limit t =
     (if Before t limit then
        (if month e AND shl1 (Month t) = 0 then next_loop e limit (advanceMonth t)
         else if \<not> (dayOfMonth e AND shl1 (Day t) \<noteq> 0) \<and> \<not> (dayOfWeek e AND shl1 (Weekday t) \<noteq> 0)
         then next_loop e limit (advanceDay t)
         else if hour e AND shl1 (Hour t) = 0 then next_loop e limit (advanceHour t)
         else if minute e AND shl1 (Minute t) = 0
         then next_loop e limit (Truncate (Add t nsMinute) nsMinute)
         else Some t)
      else Some zero_time)"

declare next_loop.simps [code]

definition search_start :: "time \<Rightarrow> time" where
  "search_start t = Add (Truncate t nsMinute) nsMinute"

definition Next :: "Expression \<Rightarrow> time \<Rightarrow> time option" where
  "Next e t =
     (let t' = search_start t; limit = AddDate t' 4 0 0 in next_loop e limit t')"

text \<open>\<open>bits.TrailingZeros64\<close> and the helper that no caller uses.\<close>

definition trailing_zeros64 :: "64 word \<Rightarrow> nat" where
  "trailing_zeros64 w = length (takeWhile (\<lambda>i. \<not> bit w i) [0..<64])"

definition nextBit :: "64 word \<Rightarrow> nat \<Rightarrow> int" where
  "nextBit msk pos =
     (let shifted = drop_bit pos msk
      in if shifted = 0 then -1 else int (pos + trailing_zeros64 shifted))"

section \<open>Masks as sets of values\<close>

lemma shl1_0_iff:
  assumes "0 \<le> i" and "i < 64"
  shows "w AND shl1 i = 0 \<longleftrightarrow> \<not> bit w (nat i)"
  using assms word_and_bit_0_iff [of "nat i" w] by (simp add: shl1_def)

lemma bit_shl1: "bit (shl1 i) n \<longleftrightarrow> int n = i \<and> n < 64"
  by (auto simp: shl1_def bit_simps)

lemma bit_or_shl1: "bit (w OR shl1 i) n \<longleftrightarrow> bit w n \<or> (int n = i \<and> n < 64)"
  by (simp add: bit_or_iff bit_shl1)

text \<open>
  The loop of \<open>fillRangeStep\<close> when \<open>i + step\<close> cannot overflow: it sets every \<open>step\<close>-th bit.
\<close>

lemma fill_loop_bits:
  assumes "0 < step" and "step < 2 ^ 62" and "hi < 64" and "0 \<le> i" and "i < 2 ^ 62 + 64"
  shows "\<exists>m. fill_loop i hi step msk = Some m
    \<and> (\<forall>n. bit m n \<longleftrightarrow> bit msk n \<or> (i \<le> int n \<and> int n \<le> hi \<and> step dvd (int n - i)))"
  using assms(4,5)
proof (induction "nat (hi + 1 - i)" arbitrary: i msk rule: less_induct)
  case less
  show ?case
  proof (cases "i \<le> hi")
    case False
    then show ?thesis by (auto simp: fill_loop.simps)
  next
    case True
    have w: "wrap64 (i + step) = i + step"
      using assms less.prems True by (intro wrap64_id) auto
    obtain m where m: "fill_loop (i + step) hi step (msk OR shl1 i) = Some m"
      and bits: "\<forall>n. bit m n \<longleftrightarrow> bit (msk OR shl1 i) n \<or>
        (i + step \<le> int n \<and> int n \<le> hi \<and> step dvd (int n - (i + step)))"
      using less.hyps [of "i + step" "msk OR shl1 i"] assms less.prems True by auto
    have "fill_loop i hi step msk = Some m"
      using True m by (subst fill_loop.simps) (simp add: w)
    moreover have "(int n = i \<and> n < 64) \<or> (i + step \<le> int n \<and> int n \<le> hi \<and> step dvd (int n - (i + step)))
      \<longleftrightarrow> i \<le> int n \<and> int n \<le> hi \<and> step dvd (int n - i)" for n
    proof -
      have e: "int n - i = (int n - (i + step)) + step" by simp
      have "step dvd (int n - (i + step)) \<longleftrightarrow> step dvd (int n - i)"
        unfolding e by (rule dvd_add_triv_right_iff [symmetric])
      moreover have "i < int n \<Longrightarrow> step dvd (int n - i) \<Longrightarrow> i + step \<le> int n"
        using zdvd_imp_le [of step "int n - i"] by simp
      ultimately show ?thesis using True assms(1,3) by (auto simp: order_le_less)
    qed
    ultimately show ?thesis using bits by (auto simp: bit_or_shl1)
  qed
qed

lemma fillRangeStep_bits:
  assumes "0 < step" and "step < 2 ^ 62" and "hi < 64" and "0 \<le> lo" and "lo \<le> hi"
  shows "\<exists>m. fillRangeStep lo hi step = Some m
    \<and> (\<forall>n. bit m n \<longleftrightarrow> lo \<le> int n \<and> int n \<le> hi \<and> step dvd (int n - lo))"
  using fill_loop_bits [OF assms(1-4), of 0] assms by (simp add: fillRangeStep_def)

text \<open>
  With a step of \<open>2 ^ 62\<close> or more \<open>i + step\<close> may wrap to a negative number, which passes
  the test \<open>i <= hi\<close> again: the loop still ends, but it can set bits below \<open>lo\<close>.
\<close>

lemma fill_loop_wrap:
  assumes "2 ^ 62 \<le> step" and "step < 2 ^ 63" and "hi < 64" and "0 \<le> i" and "i \<le> hi"
  shows "\<exists>m. fill_loop i hi step msk = Some m
    \<and> (\<forall>n. bit m n \<longrightarrow> bit msk n \<or> int n \<le> i) \<and> (\<forall>n. bit msk n \<or> int n = i \<longrightarrow> bit m n)"
  using assms(4,5)
proof (induction "nat i" arbitrary: i msk rule: less_induct)
  case less
  let ?m1 = "msk OR shl1 i"
  have un: "fill_loop i hi step msk = fill_loop (wrap64 (i + step)) hi step ?m1"
    using less.prems by (subst fill_loop.simps) simp
  have m1: "bit ?m1 n \<longleftrightarrow> bit msk n \<or> int n = i" for n
    using less.prems assms(3) by (auto simp: bit_or_shl1)
  show ?case
  proof (cases "i + step < 2 ^ 63")
    case True
    then have "wrap64 (i + step) = i + step" "hi < i + step"
      using less.prems assms by (auto intro!: wrap64_id)
    then have "fill_loop i hi step msk = Some ?m1"
      unfolding un by (subst fill_loop.simps) simp
    then show ?thesis using m1 by auto
  next
    case False
    let ?i1 = "i + step - 2 ^ 64" and ?i2 = "i - 2 * (2 ^ 63 - step)"
    have w1: "wrap64 (i + step) = ?i1"
      using False less.prems assms by (intro wrap64_over) auto
    have neg: "?i1 < 0" "?i1 \<le> hi" using less.prems assms by auto
    then have "shl1 ?i1 = 0" by (simp add: shl1_def)
    then have un2: "fill_loop i hi step msk = fill_loop ?i2 hi step ?m1"
    proof -
      have "wrap64 (?i1 + step) = ?i2"
        using False less.prems assms by (subst wrap64_id) auto
      with neg \<open>shl1 ?i1 = 0\<close> show ?thesis
        unfolding un w1 by (subst fill_loop.simps) simp
    qed
    show ?thesis
    proof (cases "0 \<le> ?i2")
      case True
      have "nat ?i2 < nat i" "?i2 \<le> hi" using True less.prems assms by auto
      from less.hyps [OF this(1) True this(2), of ?m1] obtain m where
        "fill_loop ?i2 hi step ?m1 = Some m" "\<forall>n. bit m n \<longrightarrow> bit ?m1 n \<or> int n \<le> ?i2"
        "\<forall>n. bit ?m1 n \<or> int n = ?i2 \<longrightarrow> bit m n"
        by blast
      with un2 m1 \<open>nat ?i2 < nat i\<close> show ?thesis by fastforce
    next
      case neg2: False
      have "?i2 \<le> hi" "shl1 ?i2 = 0" using neg2 less.prems assms by (auto simp: shl1_def)
      moreover have "wrap64 (?i2 + step) = ?i2 + step" "\<not> ?i2 + step \<le> hi"
        using neg2 False less.prems assms by (auto intro!: wrap64_id)
      ultimately have "fill_loop ?i2 hi step ?m1 = Some ?m1"
        by (subst fill_loop.simps, simp, subst fill_loop.simps, simp)
      with un2 m1 show ?thesis by auto
    qed
  qed
qed

lemma fillRangeStep_returns:
  assumes "0 < step" and "step < 2 ^ 63" and "hi < 64" and "0 \<le> lo" and "lo \<le> hi"
  obtains m where "fillRangeStep lo hi step = Some m"
    and "bit m (nat lo)" and "\<And>n. bit m n \<Longrightarrow> int n \<le> hi"
proof (cases "step < 2 ^ 62")
  case True
  then obtain m where "fillRangeStep lo hi step = Some m"
    "\<forall>n. bit m n \<longleftrightarrow> lo \<le> int n \<and> int n \<le> hi \<and> step dvd (int n - lo)"
    using fillRangeStep_bits assms by blast
  with assms that show thesis by auto
next
  case False
  then obtain m where "fill_loop lo hi step 0 = Some m"
    "\<forall>n. bit m n \<longrightarrow> bit (0 :: 64 word) n \<or> int n \<le> lo"
    "\<forall>n. bit (0 :: 64 word) n \<or> int n = lo \<longrightarrow> bit m n"
    using fill_loop_wrap [of step hi lo 0] assms by auto
  with assms that show thesis by (fastforce simp: fillRangeStep_def)
qed

section \<open>What the parser accepts\<close>

definition field_ok :: "int \<Rightarrow> (cron_error + 64 word) option \<Rightarrow> bool" where
  "field_ok mx r \<longleftrightarrow>
     (case r of None \<Rightarrow> False | Some (Inl _) \<Rightarrow> True
      | Some (Inr m) \<Rightarrow> m \<noteq> 0 \<and> (\<forall>n. bit m n \<longrightarrow> int n \<le> mx))"

lemma parse_step_range: "parse_step p = Inr (s, rest) \<Longrightarrow> 0 < s \<and> s < 2 ^ 63"
  by (auto simp: parse_step_def split: option.splits if_splits dest: atoi_range)

lemma parsePart_ok:
  assumes "0 \<le> mn" and "mx < 64"
  shows "field_ok mx (parsePart p mn mx)"
proof (cases "parse_step p")
  case (Inr sr)
  obtain st rest where sr: "sr = (st, rest)" by (cases sr)
  have st: "0 < st" "st < 2 ^ 63" using parse_step_range Inr sr by blast+
  show ?thesis
  proof (cases "parse_bounds rest mn mx")
    case (Inr b)
    obtain lo hi where b: "b = (lo, hi)" by (cases b)
    show ?thesis
    proof (cases "lo < mn \<or> hi > mx \<or> lo > hi")
      case False
      then obtain m where m: "fillRangeStep lo hi st = Some m" "bit m (nat lo)"
        "\<And>n. bit m n \<Longrightarrow> int n \<le> hi"
        using fillRangeStep_returns [of st hi lo] st assms by (metis linorder_not_less order_trans le_less_trans)
      have "\<forall>n. bit m n \<longrightarrow> int n \<le> mx" using m(3) False by fastforce
      moreover have "m \<noteq> 0" using m(2) by auto
      ultimately show ?thesis
        using \<open>parse_step p = Inr sr\<close> Inr sr b False m(1) by (simp add: parsePart_def field_ok_def)
    qed (use \<open>parse_step p = Inr sr\<close> Inr sr b in \<open>simp add: parsePart_def field_ok_def\<close>)
  qed (use Inr sr in \<open>simp add: parsePart_def field_ok_def\<close>)
qed (simp add: parsePart_def field_ok_def)

lemma parse_parts_ok:
  assumes "0 \<le> mn" and "mx < 64" and "\<forall>n. bit msk n \<longrightarrow> int n \<le> mx" and "ps \<noteq> [] \<or> msk \<noteq> 0"
  shows "field_ok mx (parse_parts msk ps mn mx)"
  using assms(3,4)
proof (induction ps arbitrary: msk)
  case (Cons p ps)
  note ok = parsePart_ok [OF assms(1,2), of p]
  show ?case
  proof (cases "parsePart p mn mx")
    case (Some r)
    show ?thesis
    proof (cases r)
      case (Inr m)
      have "m \<noteq> 0" "\<forall>n. bit m n \<longrightarrow> int n \<le> mx"
        using ok Some Inr by (simp_all add: field_ok_def)
      then have "field_ok mx (parse_parts (msk OR m) ps mn mx)"
        using Cons.prems by (intro Cons.IH) (auto simp: bit_or_iff or_eq_0_iff)
      with Some Inr show ?thesis by simp
    qed (use Some in \<open>simp add: field_ok_def\<close>)
  qed (use ok in \<open>simp add: field_ok_def\<close>)
qed (simp add: field_ok_def)

lemma parse_parts_star: "parse_parts 0 [''*''] mn mx = map_option Inr (fillRangeStep mn mx 1)"
  if "mn \<le> mx"
  using that by (auto simp: parsePart_def parse_step_def parse_bounds_def split: option.splits)

lemma parseField_parts:
  "mn \<le> mx \<Longrightarrow> parseField f mn mx = parse_parts 0 (str_split CHR '','' f) mn mx"
  by (simp add: parseField_def parse_parts_star del: parse_parts.simps)

lemma parseField_ok: "0 \<le> mn \<Longrightarrow> mn \<le> mx \<Longrightarrow> mx < 64 \<Longrightarrow> field_ok mx (parseField f mn mx)"
  by (simp add: parseField_parts parse_parts_ok)

lemma with_field_cases:
  assumes "field_ok mx r"
    and "\<And>e. Q (Some (Inl (InField name e)))"
    and "\<And>m. m \<noteq> 0 \<Longrightarrow> \<forall>n. bit m n \<longrightarrow> int n \<le> mx \<Longrightarrow> Q (k m)"
  shows "Q (with_field name r k)"
  using assms by (auto simp: field_ok_def with_field_def split: option.splits sum.splits)

definition mask_within :: "int \<Rightarrow> 64 word \<Rightarrow> bool" where
  "mask_within mx w \<longleftrightarrow> w \<noteq> 0 \<and> (\<forall>n < 64. bit w n \<longrightarrow> int n \<le> mx)"

definition expression_ok :: "Expression \<Rightarrow> bool" where
  "expression_ok e \<longleftrightarrow>
     mask_within 59 (minute e) \<and> mask_within 23 (hour e) \<and> mask_within 31 (dayOfMonth e)
     \<and> mask_within 12 (month e) \<and> mask_within 6 (dayOfWeek e)"

lemma Parse_total:
  "\<exists>r. Parse s = Some r \<and> (case r of Inl _ \<Rightarrow> True | Inr e \<Rightarrow> expression_ok e)"
proof -
  let ?Q = "\<lambda>x. \<exists>r. x = Some r \<and> (case r of Inl _ \<Rightarrow> True | Inr e \<Rightarrow> expression_ok e)"
  show ?thesis
    unfolding Parse_def Let_def
    by (simp, intro impI with_field_cases [where Q = ?Q, OF parseField_ok])
      (simp_all add: expression_ok_def mask_within_def)
qed


section \<open>The printed form of a field\<close>

text \<open>
  The grammar that the comments of the parser describe: a comma-separated list of stars, values
  and ranges, each with an optional step. \<open>part_has\<close> is what a part denotes.
\<close>

datatype cron_item = Star | Value nat | Range nat nat

datatype cron_part = Part cron_item "nat option"

fun print_item :: "cron_item \<Rightarrow> string" where
  "print_item Star = ''*''"
| "print_item (Value v) = show_nat v"
| "print_item (Range a b) = show_nat a @ CHR ''-'' # show_nat b"

fun print_part :: "cron_part \<Rightarrow> string" where
  "print_part (Part i None) = print_item i"
| "print_part (Part i (Some s)) = print_item i @ CHR ''/'' # show_nat s"

fun print_field :: "cron_part list \<Rightarrow> string" where
  "print_field [] = []"
| "print_field [p] = print_part p"
| "print_field (p # ps) = print_part p @ CHR '','' # print_field ps"

fun item_bounds :: "int \<Rightarrow> int \<Rightarrow> cron_item \<Rightarrow> int \<times> int" where
  "item_bounds mn mx Star = (mn, mx)"
| "item_bounds mn mx (Value v) = (int v, int v)"
| "item_bounds mn mx (Range a b) = (int a, int b)"

fun part_step :: "cron_part \<Rightarrow> int" where
  "part_step (Part i None) = 1"
| "part_step (Part i (Some s)) = int s"

fun part_bounds :: "int \<Rightarrow> int \<Rightarrow> cron_part \<Rightarrow> int \<times> int" where
  "part_bounds mn mx (Part i st) = item_bounds mn mx i"

definition part_ok :: "int \<Rightarrow> int \<Rightarrow> cron_part \<Rightarrow> bool" where
  "part_ok mn mx p \<longleftrightarrow>
     (let (lo, hi) = part_bounds mn mx p
      in mn \<le> lo \<and> lo \<le> hi \<and> hi \<le> mx \<and> 0 < part_step p \<and> part_step p < 2 ^ 62)"

definition part_has :: "int \<Rightarrow> int \<Rightarrow> cron_part \<Rightarrow> int \<Rightarrow> bool" where
  "part_has mn mx p n \<longleftrightarrow>
     (let (lo, hi) = part_bounds mn mx p in lo \<le> n \<and> n \<le> hi \<and> part_step p dvd (n - lo))"

lemma print_item_no_sep [simp]: "CHR ''/'' \<notin> set (print_item i)" "CHR '','' \<notin> set (print_item i)"
  by (cases i; simp)+

lemma print_part_no_comma [simp]: "CHR '','' \<notin> set (print_part p)"
  by (cases p rule: print_part.cases) simp_all

lemma split_print_field: "ps \<noteq> [] \<Longrightarrow> str_split CHR '','' (print_field ps) = map print_part ps"
  by (induction ps rule: print_field.induct) (simp_all add: str_split_single str_split_append)

lemma parse_step_print:
  "0 < part_step p \<Longrightarrow> part_step p < 2 ^ 62 \<Longrightarrow>
   parse_step (print_part p) = Inr (part_step p, print_item (case p of Part i _ \<Rightarrow> i))"
  by (cases p rule: print_part.cases)
    (simp_all add: parse_step_def str_index_None [THEN iffD2] str_index_append atoi_show_nat)

lemma show_nat_neq_star [simp]: "show_nat v \<noteq> ''*''"
  using show_nat_no_sep(4) [of v] by (metis list.set_intros(1))

lemma parse_bounds_print:
  assumes "item_bounds mn mx i = (lo, hi)" and "hi < 64" and "lo \<le> hi"
  shows "parse_bounds (print_item i) mn mx = Inr (lo, hi)"
proof (cases i)
  case (Range a b)
  have "show_nat a @ CHR ''-'' # show_nat b \<noteq> ''*''"
  proof
    assume "show_nat a @ CHR ''-'' # show_nat b = ''*''"
    then have "CHR ''-'' \<in> set ''*''" by (metis in_set_conv_decomp)
    then show False by simp
  qed
  with Range assms show ?thesis
    by (simp add: parse_bounds_def str_index_append atoi_show_nat)
qed (use assms in \<open>auto simp: parse_bounds_def str_index_None [THEN iffD2] atoi_show_nat\<close>)

lemma parsePart_print:
  assumes "part_ok mn mx p" and "0 \<le> mn" and "mx < 64"
  shows "\<exists>m. parsePart (print_part p) mn mx = Some (Inr m)
    \<and> (\<forall>n. bit m n \<longleftrightarrow> part_has mn mx p (int n))"
proof -
  obtain i st where p: "p = Part i st" by (cases p)
  obtain lo hi where b: "item_bounds mn mx i = (lo, hi)" by fastforce
  have r: "mn \<le> lo" "lo \<le> hi" "hi \<le> mx" "0 < part_step p" "part_step p < 2 ^ 62"
    using assms(1) b p by (simp_all add: part_ok_def)
  obtain m where m: "fillRangeStep lo hi (part_step p) = Some m"
    "\<forall>n. bit m n \<longleftrightarrow> lo \<le> int n \<and> int n \<le> hi \<and> part_step p dvd (int n - lo)"
    using fillRangeStep_bits [of "part_step p" hi lo] r assms(2,3) by auto
  have "parse_bounds (print_item i) mn mx = Inr (lo, hi)"
    using parse_bounds_print [OF b] r assms by simp
  then have "parsePart (print_part p) mn mx = Some (Inr m)"
    using r m(1) parse_step_print [of p] p by (simp add: parsePart_def)
  with m(2) b p show ?thesis by (simp add: part_has_def)
qed

lemma parse_parts_print:
  assumes "\<forall>p \<in> set ps. part_ok mn mx p" and "0 \<le> mn" and "mx < 64"
  shows "\<exists>m. parse_parts msk (map print_part ps) mn mx = Some (Inr m)
    \<and> (\<forall>n. bit m n \<longleftrightarrow> bit msk n \<or> (\<exists>p \<in> set ps. part_has mn mx p (int n)))"
  using assms(1)
proof (induction ps arbitrary: msk)
  case (Cons p ps)
  obtain m where m: "parsePart (print_part p) mn mx = Some (Inr m)"
    "\<forall>n. bit m n \<longleftrightarrow> part_has mn mx p (int n)"
    using parsePart_print [of mn mx p] Cons.prems assms(2,3) by auto
  have "\<forall>q \<in> set ps. part_ok mn mx q" using Cons.prems by simp
  from Cons.IH [OF this, of "msk OR m"] m show ?case by (auto simp: bit_or_iff)
qed simp

text \<open>
  C28. Parsing a printed field gives exactly the values the parts denote.
\<close>

theorem parseField_print:
  assumes "ps \<noteq> []" and "\<forall>p \<in> set ps. part_ok mn mx p" and "0 \<le> mn" and "mn \<le> mx" and "mx < 64"
  shows "\<exists>m. parseField (print_field ps) mn mx = Some (Inr m)
    \<and> (\<forall>n < 64. bit m n \<longleftrightarrow> (\<exists>p \<in> set ps. part_has mn mx p (int n)))"
  using parse_parts_print [of ps mn mx 0] assms by (auto simp: parseField_parts split_print_field)

theorem parseField_print_witness:
  "\<exists>m. parseField (print_field [Part (Range 1 5) (Some 2), Part (Value 30) None]) 0 59 = Some (Inr m)
    \<and> (\<forall>n < 64. bit m n \<longleftrightarrow>
         (\<exists>p \<in> set [Part (Range 1 5) (Some 2), Part (Value 30) None]. part_has 0 59 p (int n)))"
  by (rule parseField_print) (simp_all add: part_ok_def)

section \<open>The search for the next firing\<close>

text \<open>An instant fires when all its fields are in the masks, with the day test the code makes.\<close>

definition fires :: "Expression \<Rightarrow> time \<Rightarrow> bool" where
  "fires e t \<longleftrightarrow>
     bit (month e) (nat (Month t))
     \<and> (bit (dayOfMonth e) (nat (Day t)) \<or> bit (dayOfWeek e) (nat (Weekday t)))
     \<and> bit (hour e) (nat (Hour t)) \<and> bit (minute e) (nat (Minute t))"

text \<open>\<open>r\<close> is the earliest whole minute from \<open>a\<close> on and before \<open>lim\<close> at which \<open>e\<close> fires.\<close>

definition first_firing :: "Expression \<Rightarrow> int \<Rightarrow> int \<Rightarrow> int \<Rightarrow> time \<Rightarrow> bool" where
  "first_firing e off a lim r \<longleftrightarrow>
     (if \<exists>x. nsMinute dvd x \<and> a \<le> x \<and> x < lim \<and> fires e \<lparr>tns = x, toff = off\<rparr>
      then toff r = off \<and> nsMinute dvd tns r \<and> a \<le> tns r \<and> tns r < lim \<and> fires e r
        \<and> \<not> (\<exists>x. nsMinute dvd x \<and> a \<le> x \<and> x < tns r \<and> fires e \<lparr>tns = x, toff = off\<rparr>)
      else r = zero_time)"

lemma next_loop_tests:
  "month e AND shl1 (Month t) = 0 \<longleftrightarrow> \<not> bit (month e) (nat (Month t))"
  "dayOfMonth e AND shl1 (Day t) = 0 \<longleftrightarrow> \<not> bit (dayOfMonth e) (nat (Day t))"
  "dayOfWeek e AND shl1 (Weekday t) = 0 \<longleftrightarrow> \<not> bit (dayOfWeek e) (nat (Weekday t))"
  "hour e AND shl1 (Hour t) = 0 \<longleftrightarrow> \<not> bit (hour e) (nat (Hour t))"
  "minute e AND shl1 (Minute t) = 0 \<longleftrightarrow> \<not> bit (minute e) (nat (Minute t))"
  using field_ranges [of t] Hour_range [of t] Minute_range [of t] by (simp_all add: shl1_0_iff)

text \<open>
  Every \<open>continue\<close> of the loop moves to a later whole minute and skips no firing.
\<close>

definition skips :: "(time \<Rightarrow> bool) \<Rightarrow> time \<Rightarrow> time \<Rightarrow> bool" where
  "skips P t t' \<longleftrightarrow>
     toff t' = toff t \<and> tns t < tns t' \<and> nsMinute dvd tns t'
     \<and> (\<forall>x. nsMinute dvd x \<longrightarrow> tns t \<le> x \<longrightarrow> x < tns t' \<longrightarrow> P \<lparr>tns = x, toff = toff t\<rparr>)"

lemma local_ns_Date [simp]:
  "local_ns (Date y m d h mi s n loc)
   = days_of_date y m d * nsDay + h * nsHour + mi * nsMinute + s * nsSecond + n"
  by (simp add: local_ns_def Date_def)

lemma toff_Date [simp]: "toff (Date y m d h mi s n loc) = loc"
  by (simp add: Date_def)

lemma local_ns_eq: "local_ns \<lparr>tns = x, toff = o'\<rparr> = x + o' * nsSecond"
  by (simp add: local_ns_def)

lemma minute_dvd: "nsMinute dvd nsHour" "nsMinute dvd nsDay" "nsHour dvd nsDay"
  by (simp_all add: ns_units)

lemma day_number_between:
  assumes "d * nsDay \<le> x" and "x < d' * nsDay"
  shows "d \<le> x div nsDay" and "x div nsDay < d'"
proof -
  show "d \<le> x div nsDay" using zdiv_mono1 [OF assms(1) ns_pos(4)] by simp
  show "x div nsDay < d'"
  proof (rule ccontr)
    assume "\<not> x div nsDay < d'"
    then have "d' * nsDay \<le> x div nsDay * nsDay" by (simp add: mult_right_mono)
    with assms(2) div_bounds [OF ns_pos(4), of x] show False by simp
  qed
qed

text \<open>Locations with a whole number of hours, where the local and the absolute hour agree.\<close>

definition whole_hours :: "int \<Rightarrow> bool" where
  "whole_hours off \<longleftrightarrow> 3600 dvd off"

lemma whole_hours_dvd:
  assumes "whole_hours off"
  shows "nsHour dvd off * nsSecond" and "nsMinute dvd off * nsSecond"
proof -
  obtain k where "off = 3600 * k" using assms by (auto simp: whole_hours_def)
  then have "off * nsSecond = nsHour * k" by (simp add: ns_units)
  then show "nsHour dvd off * nsSecond" by simp
  then show "nsMinute dvd off * nsSecond" using minute_dvd(1) by (rule dvd_trans [rotated])
qed

lemma skips_local:
  assumes "toff t' = toff t" and "whole_hours (toff t)"
    and "local_ns t < local_ns t'" and "nsMinute dvd local_ns t'"
    and "\<And>u. toff u = toff t \<Longrightarrow> local_ns t \<le> local_ns u \<Longrightarrow> local_ns u < local_ns t' \<Longrightarrow> P u"
  shows "skips P t t'"
proof -
  have "tns t' = local_ns t' - toff t * nsSecond" using assms(1) by (simp add: local_ns_def)
  then have "nsMinute dvd tns t'"
    using assms(4) whole_hours_dvd(2) [OF assms(2)] by simp
  moreover have "P \<lparr>tns = x, toff = toff t\<rparr>" if "tns t \<le> x" and "x < tns t'" for x
    using that assms(1) by (intro assms(5)) (simp_all add: local_ns_def)
  ultimately show ?thesis using assms(1,3) by (simp add: skips_def local_ns_def)
qed

lemma local_ns_day: "day_number t * nsDay \<le> local_ns t" "local_ns t < (day_number t + 1) * nsDay"
  using div_bounds [OF ns_pos(4), of "local_ns t"] by (simp_all add: day_number_def)

lemma advanceMonth_skips:
  assumes "whole_hours (toff t)"
  shows "skips (\<lambda>u. Month u = Month t) t (advanceMonth t)"
proof (rule skips_local [OF _ assms])
  let ?d = "days_of_date (Year t) (Month t + 1) 1"
  have loc: "local_ns (advanceMonth t) = ?d * nsDay"
    by (simp add: advanceMonth_def)
  then show "nsMinute dvd local_ns (advanceMonth t)" using minute_dvd(2) by simp
  have "day_number t + 1 \<le> ?d"
    using month_of_day_bounds [of "day_number t"] by (simp add: Year_def Month_def)
  then have "(day_number t + 1) * nsDay \<le> ?d * nsDay" by (simp add: mult_right_mono)
  then show "local_ns t < local_ns (advanceMonth t)" using loc local_ns_day(2) [of t] by linarith
  fix u
  assume u: "toff u = toff t" "local_ns t \<le> local_ns u" "local_ns u < local_ns (advanceMonth t)"
  have "day_number t \<le> day_number u" "day_number u < ?d"
    using day_number_between [of "day_number t" "local_ns u" ?d] u loc local_ns_day(1) [of t]
    by (simp_all add: day_number_def)
  then show "Month u = Month t"
    using month_of_day_unique [of "Month t" "Year t" "day_number u"] field_ranges(1,2) [of t]
      month_of_day_bounds [of "day_number t"]
    by (simp add: Year_def Month_def)
qed (simp add: advanceMonth_def)

lemma time_of_day:
  "Hour t * nsHour + Minute t * nsMinute + Second t * nsSecond + Nanosecond t
   = local_ns t mod nsDay"
proof -
  let ?L = "local_ns t"
  have "?L mod nsDay mod nsHour = ?L mod nsHour"
    by (rule mod_mod_cancel) (rule minute_dvd)
  then have "?L mod nsDay = ?L mod nsDay div nsHour * nsHour + ?L mod nsHour"
    by (metis div_mult_mod_eq)
  moreover have "?L mod nsHour mod nsMinute = ?L mod nsMinute"
    by (rule mod_mod_cancel) (rule minute_dvd)
  then have "?L mod nsHour = ?L mod nsHour div nsMinute * nsMinute + ?L mod nsMinute"
    by (metis div_mult_mod_eq)
  moreover have "?L mod nsMinute mod nsSecond = ?L mod nsSecond"
    by (rule mod_mod_cancel) (simp add: ns_units)
  then have "?L mod nsMinute = ?L mod nsMinute div nsSecond * nsSecond + ?L mod nsSecond"
    by (metis div_mult_mod_eq)
  ultimately show ?thesis
    by (simp add: Hour_def Minute_def Second_def Nanosecond_def)
qed

lemma local_ns_AddDate_days:
  "local_ns (AddDate t 0 0 k) = (day_number t + k) * nsDay + local_ns t mod nsDay"
  using time_of_day [of t] days_of_date_of_day [of "day_number t" k]
  by (simp add: AddDate_def Year_def Month_def Day_def add.assoc)

lemma days_of_date_fields [simp]: "days_of_date (Year t) (Month t) (Day t) = day_number t"
  using days_of_date_of_day [of "day_number t" 0] by (simp add: Year_def Month_def Day_def)

lemma local_ns_advanceDay: "local_ns (advanceDay t) = (day_number t + 1) * nsDay"
proof -
  have "day_number (AddDate t 0 0 1) = day_number t + 1"
    by (simp add: day_number_def [of "AddDate t 0 0 1"] local_ns_AddDate_days)
  then show ?thesis by (simp add: advanceDay_def Let_def)
qed

lemma advanceDay_skips:
  assumes "whole_hours (toff t)"
  shows "skips (\<lambda>u. Day u = Day t \<and> Weekday u = Weekday t) t (advanceDay t)"
proof (rule skips_local [OF _ assms])
  show "local_ns t < local_ns (advanceDay t)"
    using local_ns_day(2) [of t] by (simp add: local_ns_advanceDay)
  show "nsMinute dvd local_ns (advanceDay t)"
    using minute_dvd(2) by (simp add: local_ns_advanceDay)
  fix u
  assume u: "toff u = toff t" "local_ns t \<le> local_ns u" "local_ns u < local_ns (advanceDay t)"
  have "day_number u = day_number t"
    using day_number_between [of "day_number t" "local_ns u" "day_number t + 1"] u
      local_ns_day(1) [of t] by (simp add: local_ns_advanceDay day_number_def)
  then show "Day u = Day t \<and> Weekday u = Weekday t" by (simp add: Day_def Weekday_def)
qed (simp add: advanceDay_def AddDate_def Let_def)

lemma Hour_alt: "Hour t = local_ns t div nsHour mod 24"
proof -
  have "local_ns t mod (nsHour * 24) = nsHour * (local_ns t div nsHour mod 24) + local_ns t mod nsHour"
    by (rule zmod_zmult2_eq) simp
  moreover have "0 \<le> local_ns t mod nsHour" "local_ns t mod nsHour < nsHour"
    by simp_all
  ultimately show ?thesis
    unfolding Hour_def by (simp add: nsDay_def mult.commute)
qed

lemma local_ns_advanceHour:
  assumes "whole_hours (toff t)"
  shows "local_ns (advanceHour t) = (local_ns t div nsHour + 1) * nsHour"
proof -
  let ?n = "Truncate (Add t nsHour) nsHour" and ?o = "toff t * nsSecond"
  obtain k where k: "?o = nsHour * k" using whole_hours_dvd(1) [OF assms] by blast
  have "(tns t + ?o) mod nsHour = tns t mod nsHour" "(tns t + nsHour) mod nsHour = tns t mod nsHour"
    by (simp_all add: k)
  then have n: "local_ns ?n = (local_ns t div nsHour + 1) * nsHour"
    using div_mult_mod_eq [of "tns t + ?o" nsHour]
    by (simp add: local_ns_def Truncate_def Add_def algebra_simps)
  have "local_ns ?n mod nsHour = 0" unfolding n by simp
  then have "Minute ?n = 0" "Second ?n = 0" "Nanosecond ?n = 0"
    using mod_mod_cancel [of nsMinute nsHour "local_ns ?n"]
      mod_mod_cancel [of nsSecond nsHour "local_ns ?n"] minute_dvd
    by (simp_all add: Minute_def Second_def Nanosecond_def ns_units)
  then have "Hour ?n * nsHour = local_ns ?n mod nsDay" using time_of_day [of ?n] by simp
  then have "local_ns (advanceHour t) = local_ns ?n"
    by (simp add: advanceHour_def Let_def day_number_def)
  with n show ?thesis by simp
qed

lemma advanceHour_skips:
  assumes "whole_hours (toff t)"
  shows "skips (\<lambda>u. Hour u = Hour t) t (advanceHour t)"
proof (rule skips_local [OF _ assms])
  let ?q = "local_ns t div nsHour"
  show "local_ns t < local_ns (advanceHour t)"
    using div_bounds [OF ns_pos(3), of "local_ns t"] by (simp add: local_ns_advanceHour [OF assms])
  show "nsMinute dvd local_ns (advanceHour t)"
    using minute_dvd(1) by (simp add: local_ns_advanceHour [OF assms])
  fix u
  assume u: "toff u = toff t" "local_ns t \<le> local_ns u" "local_ns u < local_ns (advanceHour t)"
  have "local_ns u div nsHour = ?q"
    using u div_bounds [OF ns_pos(3), of "local_ns t"]
    by (intro div_eq_intro) (simp_all add: local_ns_advanceHour [OF assms])
  then show "Hour u = Hour t" by (simp add: Hour_alt)
qed (simp add: advanceHour_def Let_def)

lemma advanceMinute_skips:
  assumes "nsMinute dvd tns t"
  shows "skips (\<lambda>u. u = t) t (Truncate (Add t nsMinute) nsMinute)"
proof -
  have "(tns t + nsMinute) mod nsMinute = 0" using assms by simp
  moreover have "x = tns t" if "nsMinute dvd x" "tns t \<le> x" "x < tns t + nsMinute" for x
  proof -
    have "nsMinute dvd x - tns t" using that(1) assms by simp
    then show ?thesis using zdvd_not_zless [of "x - tns t" nsMinute] that by (cases "x = tns t") auto
  qed
  ultimately show ?thesis
    using assms by (auto simp: skips_def Truncate_def Add_def)
qed

lemma first_firing_cong:
  assumes "\<And>x. nsMinute dvd x \<Longrightarrow> fires e \<lparr>tns = x, toff = off\<rparr> \<Longrightarrow> a \<le> x \<longleftrightarrow> a' \<le> x"
  shows "first_firing e off a lim r \<longleftrightarrow> first_firing e off a' lim r"
proof -
  have ex: "nsMinute dvd x \<and> a \<le> x \<and> x < y \<and> fires e \<lparr>tns = x, toff = off\<rparr> \<longleftrightarrow>
      nsMinute dvd x \<and> a' \<le> x \<and> x < y \<and> fires e \<lparr>tns = x, toff = off\<rparr>" for x y
    using assms by blast
  have "toff r = off \<Longrightarrow> fires e \<lparr>tns = tns r, toff = off\<rparr> = fires e r"
    by (cases r) auto
  then have "toff r = off \<and> nsMinute dvd tns r \<and> fires e r \<Longrightarrow> a \<le> tns r \<longleftrightarrow> a' \<le> tns r"
    using assms by simp
  then have fr: "(toff r = off \<and> nsMinute dvd tns r \<and> a \<le> tns r \<and> tns r < lim \<and> fires e r \<and> N) =
      (toff r = off \<and> nsMinute dvd tns r \<and> a' \<le> tns r \<and> tns r < lim \<and> fires e r \<and> N)" for N
    by blast
  show ?thesis unfolding first_firing_def ex fr by (rule refl)
qed

lemma first_firing_step:
  assumes "skips (\<lambda>u. \<not> fires e u) t t'"
  shows "first_firing e (toff t) (tns t) lim r \<longleftrightarrow> first_firing e (toff t') (tns t') lim r"
proof -
  have "tns t \<le> x \<longleftrightarrow> tns t' \<le> x"
    if "nsMinute dvd x" and "fires e \<lparr>tns = x, toff = toff t\<rparr>" for x
    using assms that by (cases "x < tns t'") (auto simp: skips_def)
  then have "first_firing e (toff t) (tns t) lim r \<longleftrightarrow> first_firing e (toff t) (tns t') lim r"
    by (rule first_firing_cong)
  with assms show ?thesis by (simp add: skips_def)
qed

lemma skips_mono: "skips P t t' \<Longrightarrow> (\<And>u. P u \<Longrightarrow> Q u) \<Longrightarrow> skips Q t t'"
  by (simp add: skips_def)

text \<open>One iteration: the loop returns the current instant or skips to a later one.\<close>

lemma next_loop_iteration:
  assumes "whole_hours (toff t)" and "nsMinute dvd tns t" and "Before t limit"
  shows "fires e t \<and> next_loop e limit t = Some t
    \<or> (\<exists>t'. next_loop e limit t = next_loop e limit t' \<and> skips (\<lambda>u. \<not> fires e u) t t')"
proof -
  consider (mon) "\<not> bit (month e) (nat (Month t))"
    | (day) "bit (month e) (nat (Month t))"
        "\<not> bit (dayOfMonth e) (nat (Day t))" "\<not> bit (dayOfWeek e) (nat (Weekday t))"
    | (hr) "bit (month e) (nat (Month t))"
        "bit (dayOfMonth e) (nat (Day t)) \<or> bit (dayOfWeek e) (nat (Weekday t))"
        "\<not> bit (hour e) (nat (Hour t))"
    | (mi) "bit (month e) (nat (Month t))"
        "bit (dayOfMonth e) (nat (Day t)) \<or> bit (dayOfWeek e) (nat (Weekday t))"
        "bit (hour e) (nat (Hour t))" "\<not> bit (minute e) (nat (Minute t))"
    | (ok) "fires e t"
    by (auto simp: fires_def)
  then show ?thesis
  proof cases
    case mon
    then have "next_loop e limit t = next_loop e limit (advanceMonth t)"
      using assms(3) by (subst next_loop.simps) (simp add: next_loop_tests)
    moreover have "skips (\<lambda>u. \<not> fires e u) t (advanceMonth t)"
      using mon by (intro skips_mono [OF advanceMonth_skips [OF assms(1)]]) (simp add: fires_def)
    ultimately show ?thesis by blast
  next
    case day
    then have "next_loop e limit t = next_loop e limit (advanceDay t)"
      using assms(3) by (subst next_loop.simps) (simp add: next_loop_tests)
    moreover have "skips (\<lambda>u. \<not> fires e u) t (advanceDay t)"
      using day by (intro skips_mono [OF advanceDay_skips [OF assms(1)]]) (simp add: fires_def)
    ultimately show ?thesis by blast
  next
    case hr
    then have "next_loop e limit t = next_loop e limit (advanceHour t)"
      using assms(3) by (subst next_loop.simps) (auto simp: next_loop_tests)
    moreover have "skips (\<lambda>u. \<not> fires e u) t (advanceHour t)"
      using hr by (intro skips_mono [OF advanceHour_skips [OF assms(1)]]) (simp add: fires_def)
    ultimately show ?thesis by blast
  next
    case mi
    then have "next_loop e limit t = next_loop e limit (Truncate (Add t nsMinute) nsMinute)"
      using assms(3) by (subst next_loop.simps) (auto simp: next_loop_tests)
    moreover have "skips (\<lambda>u. \<not> fires e u) t (Truncate (Add t nsMinute) nsMinute)"
      using mi by (intro skips_mono [OF advanceMinute_skips [OF assms(2)]]) (simp add: fires_def)
    ultimately show ?thesis by blast
  next
    case ok
    then have "next_loop e limit t = Some t"
      using assms(3) by (subst next_loop.simps) (auto simp: next_loop_tests fires_def)
    with ok show ?thesis by simp
  qed
qed

lemma next_loop_first:
  assumes "whole_hours (toff t)" and "nsMinute dvd tns t"
  shows "\<exists>r. next_loop e limit t = Some r \<and> first_firing e (toff t) (tns t) (tns limit) r"
  using assms
proof (induction "nat (tns limit - tns t)" arbitrary: t rule: less_induct)
  case less
  show ?case
  proof (cases "Before t limit")
    case False
    then have "next_loop e limit t = Some zero_time" by (subst next_loop.simps) simp
    with False show ?thesis by (auto simp: first_firing_def Before_def)
  next
    case True
    from next_loop_iteration [OF less.prems True, of e] show ?thesis
    proof (elim disjE conjE exE)
      assume "fires e t" and "next_loop e limit t = Some t"
      moreover have "\<exists>x. nsMinute dvd x \<and> tns t \<le> x \<and> x < tns limit \<and> fires e \<lparr>tns = x, toff = toff t\<rparr>"
        using \<open>fires e t\<close> less.prems True by (intro exI [of _ "tns t"]) (cases t, simp add: Before_def)
      ultimately show ?thesis
        using less.prems True by (auto simp: first_firing_def Before_def)
    next
      fix t'
      assume eq: "next_loop e limit t = next_loop e limit t'"
        and sk: "skips (\<lambda>u. \<not> fires e u) t t'"
      then have t': "toff t' = toff t" "tns t < tns t'" "nsMinute dvd tns t'"
        by (simp_all add: skips_def)
      then have "nat (tns limit - tns t') < nat (tns limit - tns t)"
        using True by (simp add: Before_def)
      from less.hyps [OF this] t' less.prems(1) obtain r where
        "next_loop e limit t' = Some r" "first_firing e (toff t') (tns t') (tns limit) r"
        by auto
      then show ?thesis using eq first_firing_step [OF sk] by auto
    qed
  qed
qed

lemma search_start_least:
  assumes "nsMinute dvd x"
  shows "tns (search_start t) \<le> x \<longleftrightarrow> tns t + 1 \<le> x"
proof -
  obtain k where k: "x = k * nsMinute" using assms by (metis dvd_def mult.commute)
  define q where "q = tns t div nsMinute"
  have "tns (search_start t) = (q + 1) * nsMinute"
    using div_mult_mod_eq [of "tns t" nsMinute]
    by (simp add: search_start_def Add_def Truncate_def q_def algebra_simps)
  moreover have "q * nsMinute \<le> tns t" "tns t < (q + 1) * nsMinute"
    using div_bounds [OF ns_pos(2), of "tns t"] by (simp_all add: q_def)
  moreover have "(q + 1) * nsMinute \<le> k * nsMinute \<longleftrightarrow> q + 1 \<le> k" by simp
  moreover have "k \<le> q \<Longrightarrow> k * nsMinute \<le> q * nsMinute" by simp
  ultimately show ?thesis using k by linarith
qed

lemma search_start_aligned: "nsMinute dvd tns (search_start t)" "toff (search_start t) = toff t"
  by (simp_all add: search_start_def Add_def Truncate_def minus_mod_eq_mult_div)

definition search_limit :: "time \<Rightarrow> time" where
  "search_limit t = AddDate (search_start t) 4 0 0"

lemma first_firing_start:
  "first_firing e off (tns (search_start t)) lim r \<longleftrightarrow> first_firing e off (tns t + 1) lim r"
  by (rule first_firing_cong) (rule search_start_least)

lemma Next_first:
  assumes "whole_hours (toff t)"
  shows "\<exists>r. Next e t = Some r \<and> first_firing e (toff t) (tns t + 1) (tns (search_limit t)) r"
  using next_loop_first [of "search_start t" e "search_limit t"] assms
  by (simp add: Next_def Let_def search_limit_def search_start_aligned first_firing_start)

text \<open>
  C10. In a location whose offset is a whole number of hours, \<open>Next\<close> returns, and what it
  returns is the earliest whole minute after \<open>t\<close> and before the four-year limit at which the
  expression fires, or the zero time when there is none.
\<close>

theorem Next_correct:
  assumes "whole_hours (toff t)"
  shows "\<exists>r. Next e t = Some r \<and> first_firing e (toff t) (tns t + 1) (tns (search_limit t)) r"
  using assms by (rule Next_first)

theorem Next_correct_witness:
  "\<exists>r. Next \<lparr>second = 0, minute = 1, hour = 1, dayOfMonth = 2, month = 8, dayOfWeek = 0\<rparr>
         (Date 2024 1 1 0 0 0 0 3600) = Some r
     \<and> first_firing \<lparr>second = 0, minute = 1, hour = 1, dayOfMonth = 2, month = 8, dayOfWeek = 0\<rparr>
         3600 (tns (Date 2024 1 1 0 0 0 0 3600) + 1)
         (tns (search_limit (Date 2024 1 1 0 0 0 0 3600))) r"
  using Next_correct [of "Date 2024 1 1 0 0 0 0 3600"
      "\<lparr>second = 0, minute = 1, hour = 1, dayOfMonth = 2, month = 8, dayOfWeek = 0\<rparr>"]
  by (simp add: whole_hours_def)

section \<open>Where the search departs from cron\<close>

lemma first_firing_unique:
  assumes "first_firing e off a lim r" and "first_firing e off a lim r'"
  shows "r = r'"
proof (cases "\<exists>x. nsMinute dvd x \<and> a \<le> x \<and> x < lim \<and> fires e \<lparr>tns = x, toff = off\<rparr>")
  case True
  have self: "fires e u \<Longrightarrow> toff u = off \<Longrightarrow> fires e \<lparr>tns = tns u, toff = off\<rparr>" for u
    by (cases u) auto
  have "\<not> tns r < tns r'" "\<not> tns r' < tns r" "toff r = toff r'"
    using True assms self [of r] self [of r'] by (auto simp: first_firing_def)
  then show ?thesis by (cases r; cases r') auto
qed (use assms in \<open>simp add: first_firing_def\<close>)

text \<open>
  C38. When the day-of-month field is a star (all its bits set), the day-of-week field has no
  influence on \<open>Next\<close>: the code takes a day when either field matches.
\<close>

theorem Next_ignores_dow:
  assumes "whole_hours (toff t)" and "\<forall>d \<in> {1..31}. bit (dayOfMonth e) d"
  shows "Next (e\<lparr>dayOfWeek := w\<rparr>) t = Next e t"
proof -
  have "nat (Day u) \<in> {1..31}" for u
    using field_ranges(3,4) [of u] by auto
  then have "bit (dayOfMonth e) (nat (Day u))" for u using assms(2) by blast
  then have same: "fires (e\<lparr>dayOfWeek := w\<rparr>) = fires e" by (auto simp: fires_def)
  obtain r r' where "Next e t = Some r" "first_firing e (toff t) (tns t + 1) (tns (search_limit t)) r"
    "Next (e\<lparr>dayOfWeek := w\<rparr>) t = Some r'"
    "first_firing (e\<lparr>dayOfWeek := w\<rparr>) (toff t) (tns t + 1) (tns (search_limit t)) r'"
    using Next_first [OF assms(1)] by metis
  moreover have "first_firing (e\<lparr>dayOfWeek := w\<rparr>) = first_firing e"
    by (intro ext) (simp only: first_firing_def same)
  ultimately show ?thesis using first_firing_unique by metis
qed

theorem Next_ignores_dow_witness:
  "Next \<lparr>second = 0, minute = 1, hour = 512, dayOfMonth = 4294967294, month = 8190, dayOfWeek = 2\<rparr>
     (Date 2024 1 1 9 0 0 0 0)
   = Next \<lparr>second = 0, minute = 1, hour = 512, dayOfMonth = 4294967294, month = 8190, dayOfWeek = 127\<rparr>
       (Date 2024 1 1 9 0 0 0 0)"
proof -
  have "\<forall>d \<in> {1..31}. bit (4294967294 :: 64 word) d" by code_simp
  then show ?thesis
    using Next_ignores_dow [of "Date 2024 1 1 9 0 0 0 0" "\<lparr>second = 0, minute = 1, hour = 512,
        dayOfMonth = 4294967294, month = 8190, dayOfWeek = 127\<rparr>" 2]
    by (simp add: whole_hours_def)
qed

text \<open>
  In a location half an hour off the whole hours, \<open>advanceHour\<close> truncates the absolute
  instant to an hour boundary that is half past locally, and the local hour is then rebuilt
  with minute 0: at the top of an hour the instant does not move.
\<close>

definition half_hour :: "int \<Rightarrow> bool" where
  "half_hour off \<longleftrightarrow> off mod 3600 = 1800"

lemma advanceHour_half_hour:
  assumes "half_hour (toff t)" and "local_ns t mod nsHour = 0"
  shows "advanceHour t = t"
proof -
  let ?n = "Truncate (Add t nsHour) nsHour"
  obtain k where k: "toff t = 3600 * k + 1800"
    using assms(1) unfolding half_hour_def by (metis mult_div_mod_eq)
  then have o': "toff t * nsSecond = nsHour * k + 30 * nsMinute"
    by (simp add: ns_units algebra_simps)
  obtain q where q: "local_ns t = nsHour * q" using assms(2) by (auto simp: mod_eq_0_iff_dvd)
  have tns: "tns t = nsHour * (q - k - 1) + 30 * nsMinute"
    using q o' by (simp add: local_ns_def algebra_simps) (simp add: nsHour_def)
  have "tns t + nsHour = nsHour * (q - k) + 30 * nsMinute" using tns by (simp add: algebra_simps)
  then have "(tns t + nsHour) mod nsHour = 30 * nsMinute mod nsHour"
    by (simp only: mod_mult_self4)
  also have "\<dots> = 30 * nsMinute" by (simp add: ns_units)
  finally have "(tns t + nsHour) mod nsHour = 30 * nsMinute" .
  then have n: "local_ns ?n = local_ns t + 30 * nsMinute"
    by (simp add: local_ns_def Truncate_def Add_def) (simp add: nsHour_def)
  have div: "local_ns ?n div nsHour = local_ns t div nsHour"
    unfolding n q by (simp add: nsHour_def)
  then have H: "Hour ?n = Hour t" by (simp add: Hour_alt)
  have "local_ns u div nsDay = local_ns u div nsHour div 24" for u :: time
    by (simp add: nsDay_def mult.commute [of 24] zdiv_zmult2_eq)
  then have "day_number ?n = day_number t" using div by (simp add: day_number_def)
  moreover have "Minute t = 0" "Second t = 0" "Nanosecond t = 0"
    using mod_mod_cancel [of nsMinute nsHour "local_ns t"]
      mod_mod_cancel [of nsSecond nsHour "local_ns t"] minute_dvd assms(2)
    by (simp_all add: Minute_def Second_def Nanosecond_def ns_units)
  then have "Hour t * nsHour = local_ns t mod nsDay" using time_of_day [of t] by simp
  ultimately have "local_ns (advanceHour t) = local_ns t"
    using H by (simp add: advanceHour_def Let_def) (simp add: day_number_def)
  moreover have "toff (advanceHour t) = toff t" by (simp add: advanceHour_def Let_def)
  ultimately show ?thesis by (simp add: local_ns_def)
qed

lemma next_loop_stuck:
  assumes "Before t limit" and "advanceHour t = t" and "bit (month e) (nat (Month t))"
    and "bit (dayOfMonth e) (nat (Day t)) \<or> bit (dayOfWeek e) (nat (Weekday t))"
    and "\<not> bit (hour e) (nat (Hour t))"
  shows "next_loop e limit t = None"
proof (rule ccontr)
  assume "next_loop e limit t \<noteq> None"
  then obtain r where ret: "next_loop e limit t = Some r" by blast
  have "(e, limit, t) \<noteq> (e, limit, t)"
  proof (rule next_loop.raw_induct [where P = "\<lambda>e' l' t' r. (e', l', t') \<noteq> (e, limit, t)", OF _ ret])
    fix f e' l' t' r
    assume IH: "\<And>e' l' t' r. f e' l' t' = Some r \<Longrightarrow> (e', l', t') \<noteq> (e, limit, t)"
      and eq: "(if Before t' l' then
        (if month e' AND shl1 (Month t') = 0 then f e' l' (advanceMonth t')
         else if \<not> (dayOfMonth e' AND shl1 (Day t') \<noteq> 0) \<and> \<not> (dayOfWeek e' AND shl1 (Weekday t') \<noteq> 0)
         then f e' l' (advanceDay t')
         else if hour e' AND shl1 (Hour t') = 0 then f e' l' (advanceHour t')
         else if minute e' AND shl1 (Minute t') = 0
         then f e' l' (Truncate (Add t' nsMinute) nsMinute)
         else Some t')
      else Some zero_time) = Some r"
    show "(e', l', t') \<noteq> (e, limit, t)"
    proof
      assume "(e', l', t') = (e, limit, t)"
      with eq assms have "f e limit t = Some r" by (auto simp: next_loop_tests)
      from IH [OF this] show False by simp
    qed
  qed
  then show False by simp
qed

lemma AddDate_years_later:
  assumes "0 < k"
  shows "Before t (AddDate t k 0 0)"
proof -
  let ?y = "Year t" and ?m = "Month t"
  have "days_before_month (leap ?y) ?m \<le> days_before_month (leap (?y + k)) ?m + 1"
    by (auto simp: days_before_month_def Let_def)
  moreover have "days_before_year ?y + 365 * k \<le> days_before_year (?y + k)"
    using days_before_year_mono [of ?y "?y + k"] assms by simp
  ultimately have "days_of_date ?y ?m (Day t) + 365 * k - 1 \<le> days_of_date (?y + k) ?m (Day t)"
    using field_ranges(1,2) [of t] by (simp add: days_of_date_plain del: days_of_date_fields)
  then have "day_number t < days_of_date (?y + k) ?m (Day t)" using assms by simp
  then have "day_number t * nsDay < days_of_date (?y + k) ?m (Day t) * nsDay" by simp
  moreover have "local_ns (AddDate t k 0 0)
      = days_of_date (?y + k) ?m (Day t) * nsDay + local_ns t mod nsDay"
    using time_of_day [of t] by (simp add: AddDate_def add.assoc)
  moreover have "local_ns t = day_number t * nsDay + local_ns t mod nsDay"
    by (simp add: day_number_def)
  ultimately have "local_ns t < local_ns (AddDate t k 0 0)" by linarith
  then show ?thesis by (simp add: local_ns_def Before_def AddDate_def)
qed




text \<open>The unused helper \<open>nextBit\<close> finds the lowest set bit from a position on.\<close>

lemma trailing_zeros64_bit:
  assumes "w \<noteq> 0"
  shows "bit w (trailing_zeros64 w)" and "\<And>i. i < trailing_zeros64 w \<Longrightarrow> \<not> bit w i"
proof -
  let ?P = "\<lambda>i. \<not> bit w i"
  obtain n where n: "bit w n" "n < 64"
    using assms bit_imp_le_length [of w] by (auto simp: bit_eq_iff)
  then have "\<not> (\<forall>i \<in> set [0..<64]. ?P i)" by auto
  then have "takeWhile ?P [0..<64] \<noteq> [0..<64]" by (simp add: takeWhile_eq_all_conv)
  then have "length (takeWhile ?P [0..<64]) \<noteq> 64"
    using takeWhile_eq_take [of ?P "[0..<64]"] by auto
  then have len: "trailing_zeros64 w < 64"
    using length_takeWhile_le [of ?P "[0..<64]"] by (simp add: trailing_zeros64_def)
  then show "bit w (trailing_zeros64 w)"
    using nth_length_takeWhile [of ?P "[0..<64]"] by (simp add: trailing_zeros64_def)
  fix i
  assume "i < trailing_zeros64 w"
  then show "\<not> bit w i"
    using nth_mem [of i "takeWhile ?P [0..<64]"] takeWhile_nth [of i ?P "[0..<64]"] len
    by (auto simp: trailing_zeros64_def dest: set_takeWhileD)
qed


text \<open>
  \<open>nextBit\<close> returns the lowest set bit at or above \<open>pos\<close>, or \<open>-1\<close> when there is none.
\<close>

theorem nextBit_correct:
  "(nextBit w pos = -1 \<and> \<not> (\<exists>i. pos \<le> i \<and> bit w i))
   \<or> (\<exists>n. nextBit w pos = int n \<and> pos \<le> n \<and> bit w n \<and> \<not> (\<exists>i. pos \<le> i \<and> i < n \<and> bit w i))"
proof (cases "drop_bit pos w = 0")
  case True
  have "\<not> bit w i" if "pos \<le> i" for i
    using True that bit_drop_bit_eq [of pos w] by (metis bit_0_eq bot_apply bot_bool_def le_add_diff_inverse comp_apply)
  with True show ?thesis by (auto simp: nextBit_def)
next
  case False
  let ?z = "trailing_zeros64 (drop_bit pos w)"
  note z = trailing_zeros64_bit [OF False]
  have "\<not> (\<exists>i. pos \<le> i \<and> i < pos + ?z \<and> bit w i)"
  proof clarify
    fix i
    assume i: "pos \<le> i" "i < pos + ?z" "bit w i"
    then have "\<not> bit (drop_bit pos w) (i - pos)" using z(2) [of "i - pos"] by simp
    with i show False by (simp add: bit_drop_bit_eq)
  qed
  moreover have "bit w (pos + ?z)" using z(1) by (simp add: bit_drop_bit_eq)
  ultimately show ?thesis using False by (intro disjI2 exI [of _ "pos + ?z"]) (simp add: nextBit_def)
qed

end
