(* ===== verification/Job_Store.thy ===== *)
theory Job_Store
  imports Job_Types Raft_Apply
begin

text \<open>
  The replicated state machine on top of Raft, \<open>internal/store/store.go\<close> and \<open>snapshot.go\<close>: the
  commands, the snapshots, the queries, the waiters of \<open>Submit\<close> and the apply loop. \<open>now\<close> is the
  value of \<open>time.Now()\<close>. A channel of a waiter is a number; \<open>closed\<close> holds the closed ones.
\<close>

section \<open>State\<close>

text \<open>What a log entry may hold: the bytes of a command, a command, an older \<open>Cmd\<close>, or anything else.\<close>

datatype raw = RawBytes json | RawCommand Command | RawCmd Cmd | RawOther

type_synonym job_raft = "(raw, json) raft"
type_synonym job_msg = "(raw, json) ApplyMsg"

record Store =
  st_jobs :: "(string, Job) fmap"
  st_runs :: "JobRun list"
  waiters :: "(int, nat) fmap"
  applyCount :: int
  closed :: "nat list"

abbreviation (input) maxRuns :: nat where "maxRuns \<equiv> 1000"
abbreviation (input) snapThreshold :: int where "snapThreshold \<equiv> 1"

definition empty_store :: Store where
  "empty_store = \<lparr>st_jobs = fmempty, st_runs = [], waiters = fmempty, applyCount = 0, closed = []\<rparr>"

section \<open>Commands\<close>

definition normalizeJob :: "Job \<Rightarrow> Job" where
  "normalizeJob job =
     (let job = (if \<not> Enabled job \<and> IsZero (CreatedAt job) then job\<lparr>Enabled := True\<rparr> else job);
          job = (if PartitionKey job = [] then job\<lparr>PartitionKey := ''default''\<rparr> else job);
          job = (if CatchupPolicy job = [] then job\<lparr>CatchupPolicy := ''skip''\<rparr> else job)
      in if Metadata job = None then job\<lparr>Metadata := Some fmempty\<rparr> else job)"

definition mergeRun :: "JobRun \<Rightarrow> JobRun \<Rightarrow> JobRun" where
  "mergeRun existing next =
     (let next = (if runID next = [] then next\<lparr>runID := runID existing\<rparr> else next);
          next = (if JobName next = [] then next\<lparr>JobName := JobName existing\<rparr> else next);
          next = (if IsZero (StartedAt next) then next\<lparr>StartedAt := StartedAt existing\<rparr> else next);
          next = (if FinishedAt next = None then next\<lparr>FinishedAt := FinishedAt existing\<rparr> else next);
          next = (if Status next = [] then next\<lparr>Status := Status existing\<rparr> else next)
      in if IdempotencyKey next = [] then next\<lparr>IdempotencyKey := IdempotencyKey existing\<rparr> else next)"

definition updateJobRunFields :: "time \<Rightarrow> JobRun \<Rightarrow> Store \<Rightarrow> Store" where
  "updateJobRunFields now run s =
     (case fmlookup (st_jobs s) (JobID run) of
        None \<Rightarrow> s
      | Some job \<Rightarrow>
          s\<lparr>st_jobs := fmupd (JobID run)
             (job\<lparr>LastRun := StartedAt run, LastStatus := Status run, UpdatedAt := now\<rparr>) (st_jobs s)\<rparr>)"

text \<open>The loop of \<open>upsertRun\<close>: the merged record and the new list when a key matches.\<close>

fun merge_existing :: "JobRun \<Rightarrow> JobRun list \<Rightarrow> (JobRun \<times> JobRun list) option" where
  "merge_existing run [] = None"
| "merge_existing run (existing # rs) =
     (if IdempotencyKey existing \<noteq> [] \<and> IdempotencyKey existing = IdempotencyKey run
      then Some (mergeRun existing run, mergeRun existing run # rs)
      else map_option (\<lambda>(m, rs'). (m, existing # rs')) (merge_existing run rs))"

definition trim_runs :: "JobRun list \<Rightarrow> JobRun list" where
  "trim_runs rs = (if length rs > maxRuns then drop (length rs - maxRuns) rs else rs)"

definition upsertRun :: "time \<Rightarrow> JobRun \<Rightarrow> Store \<Rightarrow> Store" where
  "upsertRun now run s =
     (case merge_existing run (st_runs s) of
        Some (merged, rs) \<Rightarrow> updateJobRunFields now merged (s\<lparr>st_runs := rs\<rparr>)
      | None \<Rightarrow> updateJobRunFields now run (s\<lparr>st_runs := trim_runs (st_runs s @ [run])\<rparr>))"

definition decode_data :: "(json \<Rightarrow> 'a \<Rightarrow> 'a option) \<Rightarrow> 'a \<Rightarrow> json option \<Rightarrow> 'a option" where
  "decode_data get zero data = (case data of None \<Rightarrow> None | Some d \<Rightarrow> get d zero)"

definition put_job :: "time \<Rightarrow> Job \<Rightarrow> Store \<Rightarrow> Store" where
  "put_job now job s =
     (let job = normalizeJob job;
          job = (case fmlookup (st_jobs s) (ID job) of
                   Some existing \<Rightarrow>
                     if IsZero (CreatedAt job) then job\<lparr>CreatedAt := CreatedAt existing\<rparr> else job
                 | None \<Rightarrow> job);
          job = (if IsZero (UpdatedAt job) then job\<lparr>UpdatedAt := now\<rparr> else job)
      in s\<lparr>st_jobs := fmupd (ID job) job (st_jobs s)\<rparr>)"

definition drop_job :: "string \<Rightarrow> Store \<Rightarrow> Store" where
  "drop_job i s =
     s\<lparr>st_jobs := fmdrop i (st_jobs s), st_runs := filter (\<lambda>r. JobID r \<noteq> i) (st_runs s)\<rparr>"

definition applyCommand :: "time \<Rightarrow> Command \<Rightarrow> Store \<Rightarrow> Store" where
  "applyCommand now cmd s =
     (if cmdOp cmd = OpCreateJob \<or> cmdOp cmd = OpUpdateJob then
        (case decode_data get_job zero_job (cmdData cmd) of None \<Rightarrow> s | Some job \<Rightarrow> put_job now job s)
      else if cmdOp cmd = OpDeleteJob then
        (case decode_data get_job zero_job (cmdData cmd) of None \<Rightarrow> s | Some job \<Rightarrow> drop_job (ID job) s)
      else if cmdOp cmd = OpRecordRun then
        (case decode_data get_run zero_run (cmdData cmd) of None \<Rightarrow> s | Some run \<Rightarrow> upsertRun now run s)
      else s)"

fun decodeCommand :: "raw \<Rightarrow> Command option" where
  "decodeCommand (RawBytes d) = get_command d zero_command"
| "decodeCommand (RawCommand c) = Some c"
| "decodeCommand (RawCmd c) = Some (legacy_command c)"
| "decodeCommand RawOther = None"

section \<open>Snapshots\<close>

text \<open>\<open>None\<close> is the panic of \<open>encodeSnapshotLocked\<close>.\<close>

definition encodeSnapshot :: "Store \<Rightarrow> json option" where
  "encodeSnapshot s = state_json \<lparr>ssJobs = Some (st_jobs s), ssRuns = Some (st_runs s)\<rparr>"

definition applySnapshot :: "json option \<Rightarrow> Store \<Rightarrow> Store" where
  "applySnapshot data s =
     (case data of
        None \<Rightarrow> s
      | Some d \<Rightarrow>
          (case get_state d \<lparr>ssJobs = None, ssRuns = None\<rparr> of
             None \<Rightarrow> s
           | Some state \<Rightarrow>
               s\<lparr>st_jobs := (case ssJobs state of None \<Rightarrow> fmempty | Some m \<Rightarrow> m),
                 st_runs := (case ssRuns state of None \<Rightarrow> [] | Some rs \<Rightarrow> rs)\<rparr>))"

definition NewStore :: "(raw, json) persister option \<Rightarrow> Store" where
  "NewStore ps =
     (case ps of None \<Rightarrow> empty_store | Some ps \<Rightarrow> applySnapshot (ReadSnapshot ps) empty_store)"

section \<open>Queries\<close>

definition GetJob :: "string \<Rightarrow> Store \<Rightarrow> Job option" where
  "GetJob i s = fmlookup (st_jobs s) i"

text \<open>Go leaves the order of a map iteration open; here it is the order of the keys.\<close>

definition GetJobs :: "Store \<Rightarrow> Job list" where
  "GetJobs s = map snd (sorted_list_of_fmap (st_jobs s))"

definition GetRuns :: "string \<Rightarrow> Store \<Rightarrow> JobRun list" where
  "GetRuns i s = filter (\<lambda>r. JobID r = i) (st_runs s)"

definition AlreadyFired :: "string \<Rightarrow> Store \<Rightarrow> bool" where
  "AlreadyFired key s \<longleftrightarrow> (\<exists>r \<in> set (st_runs s). IdempotencyKey r = key)"

definition LastRunTime :: "string \<Rightarrow> Store \<Rightarrow> time" where
  "LastRunTime i s =
     foldl (\<lambda>latest r. if JobID r = i \<and> After (StartedAt r) latest then StartedAt r else latest)
       zero_time (st_runs s)"

section \<open>Waiters, Submit and the apply loop\<close>

definition registerWaiter :: "int \<Rightarrow> nat \<Rightarrow> Store \<Rightarrow> Store" where
  "registerWaiter index ch s = s\<lparr>waiters := fmupd index ch (waiters s)\<rparr>"

definition removeWaiter :: "int \<Rightarrow> Store \<Rightarrow> Store" where
  "removeWaiter index s = s\<lparr>waiters := fmdrop index (waiters s)\<rparr>"

definition notifyWaiter :: "int \<Rightarrow> Store \<Rightarrow> Store" where
  "notifyWaiter index s =
     (case fmlookup (waiters s) index of
        None \<Rightarrow> s
      | Some ch \<Rightarrow> s\<lparr>waiters := fmdrop index (waiters s), closed := ch # closed s\<rparr>)"

datatype submit_error = MarshalError | ErrNotLeader | ErrTimeout

text \<open>
  \<open>Submit\<close> up to the wait: the error, or the index to wait for. \<open>data\<close> is what \<open>json.Marshal\<close>
  gives for the argument, \<open>None\<close> its error; \<open>rf\<close> is \<open>None\<close> when the store has no Raft node.
\<close>

definition submitStart ::
  "string \<Rightarrow> json option \<Rightarrow> job_raft option \<Rightarrow> job_raft option \<times> (submit_error + int)" where
  "submitStart op data rf =
     (case data of
        None \<Rightarrow> (rf, Inl MarshalError)
      | Some payload \<Rightarrow>
          (let cmd = command_json \<lparr>cmdOp = op, cmdData = Some payload\<rparr> in
           case rf of
             None \<Rightarrow> (None, Inl ErrNotLeader)
           | Some rf \<Rightarrow>
               (case Start (RawBytes cmd) rf of
                  (rf', index, _, isLeader) \<Rightarrow>
                    (Some rf', if isLeader then Inr index else Inl ErrNotLeader))))"

text \<open>The end of the wait: the channel was closed, or the timeout came first.\<close>

definition submitEnd :: "int \<Rightarrow> nat \<Rightarrow> bool \<Rightarrow> Store \<Rightarrow> Store \<times> submit_error option" where
  "submitEnd index ch timeout s =
     (if ch \<in> set (closed s) \<and> \<not> timeout then (s, None) else (removeWaiter index s, Some ErrTimeout))"

definition createArgs :: "time \<Rightarrow> Job \<Rightarrow> Job" where
  "createArgs now job =
     (let job = (if IsZero (CreatedAt job) then job\<lparr>CreatedAt := now\<rparr> else job)
      in normalizeJob (job\<lparr>UpdatedAt := now\<rparr>))"

definition updateArgs :: "time \<Rightarrow> Job \<Rightarrow> Job" where
  "updateArgs now job = normalizeJob (job\<lparr>UpdatedAt := now\<rparr>)"

definition CreateJob :: "time \<Rightarrow> Job \<Rightarrow> job_raft option \<Rightarrow> job_raft option \<times> (submit_error + int)" where
  "CreateJob now job rf = submitStart OpCreateJob (job_json (createArgs now job)) rf"

definition UpdateJob :: "time \<Rightarrow> Job \<Rightarrow> job_raft option \<Rightarrow> job_raft option \<times> (submit_error + int)" where
  "UpdateJob now job rf = submitStart OpUpdateJob (job_json (updateArgs now job)) rf"

definition DeleteJob :: "string \<Rightarrow> job_raft option \<Rightarrow> job_raft option \<times> (submit_error + int)" where
  "DeleteJob i rf = submitStart OpDeleteJob (job_json (zero_job\<lparr>ID := i\<rparr>)) rf"

definition RecordRun :: "JobRun \<Rightarrow> job_raft option \<Rightarrow> job_raft option \<times> (submit_error + int)" where
  "RecordRun run rf = submitStart OpRecordRun (run_json run) rf"

definition RaftState :: "job_raft option \<Rightarrow> int \<times> bool" where
  "RaftState rf = (case rf of None \<Rightarrow> (0, False) | Some rf \<Rightarrow> GetState rf)"

text \<open>One message of \<open>applyLoop\<close>; \<open>None\<close> is a panic.\<close>

definition applyMsg ::
  "time \<Rightarrow> job_msg \<Rightarrow> job_raft option \<times> Store \<Rightarrow> (job_raft option \<times> Store) option" where
  "applyMsg now msg = (\<lambda>(rf, s).
     if SnapshotValid msg then Some (rf, applySnapshot (amSnapshot msg) s)
     else if \<not> CommandValid msg then Some (rf, s)
     else
       (case decodeCommand (case amCommand msg of None \<Rightarrow> RawOther | Some r \<Rightarrow> r) of
          None \<Rightarrow> Some (rf, s)
        | Some cmd \<Rightarrow>
            (let s = applyCommand now cmd s; s = s\<lparr>applyCount := applyCount s + 1\<rparr> in
             if rf \<noteq> None \<and> applyCount s \<ge> snapThreshold then
               (case encodeSnapshot s of
                  None \<Rightarrow> None
                | Some snap \<Rightarrow>
                    (case Snapshot (CommandIndex msg) (Some snap) (the rf) of
                       None \<Rightarrow> None
                     | Some rf' \<Rightarrow>
                         Some (Some rf', notifyWaiter (CommandIndex msg) (s\<lparr>applyCount := 0\<rparr>))))
             else Some (rf, notifyWaiter (CommandIndex msg) s))))"

end
