(* ===== verification/Job_Store_Laws.thy ===== *)
theory Job_Store_Laws
  imports Job_Store
begin

text \<open>
  The laws of the job store: the invariant of its state, what each command does, convergence of
  replicas, snapshots that never panic and restore what was saved, and \<open>Submit\<close>.
\<close>

section \<open>The invariant\<close>

definition time_ok :: "time \<Rightarrow> bool" where
  "time_ok t \<longleftrightarrow> 0 \<le> Year t \<and> Year t \<le> 9999 \<and> \<bar>toff t\<bar> < 86400"

definition job_times_ok :: "Job \<Rightarrow> bool" where
  "job_times_ok j \<longleftrightarrow> time_ok (CreatedAt j) \<and> time_ok (UpdatedAt j) \<and> time_ok (NextRun j) \<and> time_ok (LastRun j)"

definition run_ok :: "JobRun \<Rightarrow> bool" where
  "run_ok r \<longleftrightarrow> time_ok (StartedAt r) \<and> (\<forall>t. FinishedAt r = Some t \<longrightarrow> time_ok t) \<and> run_ints_ok r"

definition job_ok :: "string \<Rightarrow> Job \<Rightarrow> bool" where
  "job_ok k j \<longleftrightarrow> ID j = k \<and> PartitionKey j \<noteq> [] \<and> CatchupPolicy j \<noteq> [] \<and> Metadata j \<noteq> None \<and> job_times_ok j"

definition keys_ok :: "JobRun list \<Rightarrow> bool" where
  "keys_ok rs \<longleftrightarrow> distinct (filter (\<lambda>k. k \<noteq> []) (map IdempotencyKey rs))"

definition store_ok :: "Store \<Rightarrow> bool" where
  "store_ok s \<longleftrightarrow>
     (\<forall>k j. fmlookup (st_jobs s) k = Some j \<longrightarrow> job_ok k j)
     \<and> length (st_runs s) \<le> maxRuns \<and> keys_ok (st_runs s) \<and> (\<forall>r \<in> set (st_runs s). run_ok r)"

text \<open>A document whose times are RFC 3339 texts.\<close>

fun json_ok :: "json \<Rightarrow> bool" where
  "json_ok (JTime t) \<longleftrightarrow> time_ok t"
| "json_ok (JBytes d) \<longleftrightarrow> json_ok d"
| "json_ok (JArr ds) \<longleftrightarrow> (\<forall>d \<in> set ds. json_ok d)"
| "json_ok (JObj kds) \<longleftrightarrow> (\<forall>kd \<in> set kds. json_ok (snd kd))"
| "json_ok _ \<longleftrightarrow> True"

lemma zero_time_ok: "time_ok zero_time"
  by code_simp

lemma get_time_ok: "json_ok d \<Longrightarrow> get_time d old = Some t \<Longrightarrow> time_ok old \<Longrightarrow> time_ok t"
  by (cases d) auto

lemma fold_fields_inv:
  assumes "\<And>k d r r'. json_ok d \<Longrightarrow> upd k d r = Some r' \<Longrightarrow> P r \<Longrightarrow> P r'"
    and "\<forall>kd \<in> set kds. json_ok (snd kd)" and "fold_fields upd kds r = Some r'" and "P r"
  shows "P r'"
  using assms(2-)
proof (induction kds arbitrary: r)
  case (Cons kd kds)
  obtain k d where kd: "kd = (k, d)" by (cases kd)
  with Cons.prems obtain r1 where "upd (fold_name k) d r = Some r1" "fold_fields upd kds r1 = Some r'"
    by (auto split: option.splits)
  with Cons kd assms(1) [of d "fold_name k" r r1] show ?case by auto
qed simp

lemma get_struct_inv:
  assumes "\<And>k d r r'. json_ok d \<Longrightarrow> upd k d r = Some r' \<Longrightarrow> P r \<Longrightarrow> P r'"
    and "json_ok d" and "get_struct upd d r = Some r'" and "P r"
  shows "P r'"
proof (cases d)
  case (JObj kds)
  show ?thesis by (rule fold_fields_inv [of upd P kds r]) (use assms JObj in auto)
qed (use assms in auto)

lemma get_job_ok:
  assumes "get_job d zero_job = Some j" and "json_ok d"
  shows "job_times_ok j"
proof (rule get_struct_inv [of set_job_field job_times_ok d zero_job])
  show "job_times_ok r'" if "json_ok e" "set_job_field k e r = Some r'" "job_times_ok r" for k e r r'
    using that by (auto simp: set_job_field_def job_times_ok_def dest: get_time_ok split: if_splits)
qed (use assms zero_time_ok in \<open>auto simp: get_job_def job_times_ok_def zero_job_def\<close>)

lemma get_int_ok: "get_int d old = Some v \<Longrightarrow> - (2 ^ 63) \<le> old \<and> old < 2 ^ 63 \<Longrightarrow> - (2 ^ 63) \<le> v \<and> v < 2 ^ 63"
  by (cases d) (auto split: if_splits)

lemma get_run_ok:
  assumes "get_run d zero_run = Some r" and "json_ok d"
  shows "run_ok r"
proof (rule get_struct_inv [of set_run_field run_ok d zero_run])
  show "run_ok r'" if "json_ok e" "set_run_field k e r = Some r'" "run_ok r" for k e r r'
    using that
    by (auto simp: set_run_field_def run_ok_def run_ints_ok_def get_pointer_def zero_time_ok
        dest: get_time_ok get_int_ok split: if_splits option.splits)
qed (use assms zero_time_ok in \<open>auto simp: get_run_def run_ok_def run_ints_ok_def zero_run_def\<close>)

section \<open>Runs\<close>

lemma merge_existing_Some:
  "merge_existing run rs = Some (m, rs') \<Longrightarrow>
   \<exists>as e bs. rs = as @ e # bs \<and> rs' = as @ m # bs \<and> m = mergeRun e run
     \<and> IdempotencyKey e \<noteq> [] \<and> IdempotencyKey e = IdempotencyKey run"
proof (induction rs arbitrary: rs')
  case (Cons x rs)
  show ?case
  proof (cases "IdempotencyKey x \<noteq> [] \<and> IdempotencyKey x = IdempotencyKey run")
    case True
    with Cons.prems show ?thesis by (intro exI [of _ "[]"]) auto
  next
    case False
    with Cons.prems obtain rs2 where r: "merge_existing run rs = Some (m, rs2)" "rs' = x # rs2"
      by (auto simp del: de_Morgan_conj)
    from Cons.IH [OF r(1)] obtain as e bs where "rs = as @ e # bs" "rs2 = as @ m # bs" "m = mergeRun e run"
      "IdempotencyKey e \<noteq> []" "IdempotencyKey e = IdempotencyKey run" by blast
    with r(2) show ?thesis by (intro exI [of _ "x # as"] exI [of _ e] exI [of _ bs]) simp
  qed
qed simp

lemma merge_existing_None:
  "merge_existing run rs = None \<longleftrightarrow>
   IdempotencyKey run = [] \<or> (\<forall>r \<in> set rs. IdempotencyKey r \<noteq> IdempotencyKey run)"
  by (induction rs) auto

lemma mergeRun_eq:
  "mergeRun e r = r\<lparr>runID := if runID r = [] then runID e else runID r,
     JobName := if JobName r = [] then JobName e else JobName r,
     StartedAt := if IsZero (StartedAt r) then StartedAt e else StartedAt r,
     FinishedAt := if FinishedAt r = None then FinishedAt e else FinishedAt r,
     Status := if Status r = [] then Status e else Status r,
     IdempotencyKey := if IdempotencyKey r = [] then IdempotencyKey e else IdempotencyKey r\<rparr>"
  by (cases r) (simp add: mergeRun_def Let_def)

lemma mergeRun_simps [simp]:
  "JobID (mergeRun e r) = JobID r"
  "IdempotencyKey (mergeRun e r) = (if IdempotencyKey r = [] then IdempotencyKey e else IdempotencyKey r)"
  "Status (mergeRun e r) = (if Status r = [] then Status e else Status r)"
  "StartedAt (mergeRun e r) = (if IsZero (StartedAt r) then StartedAt e else StartedAt r)"
  "FinishedAt (mergeRun e r) = (if FinishedAt r = None then FinishedAt e else FinishedAt r)"
  "DurationMs (mergeRun e r) = DurationMs r" "ExitCode (mergeRun e r) = ExitCode r"
  by (simp_all add: mergeRun_eq)

lemma mergeRun_self [simp]: "mergeRun r r = r"
  by (simp add: mergeRun_eq)

lemma mergeRun_ok: "run_ok e \<Longrightarrow> run_ok r \<Longrightarrow> run_ok (mergeRun e r)"
  by (auto simp: run_ok_def run_ints_ok_def)

lemma keys_ok_drop: "keys_ok rs \<Longrightarrow> keys_ok (drop n rs)"
  unfolding keys_ok_def
  by (subst (asm) append_take_drop_id [of n rs, symmetric]) (simp del: append_take_drop_id)

lemma keys_ok_filter: "keys_ok rs \<Longrightarrow> keys_ok (filter P rs)"
  by (induction rs) (auto simp: keys_ok_def split: if_splits)

lemma keys_ok_merge:
  "keys_ok (as @ e # bs) \<Longrightarrow> IdempotencyKey m = IdempotencyKey e \<Longrightarrow> keys_ok (as @ m # bs)"
  by (simp add: keys_ok_def)

lemma keys_ok_snoc:
  assumes "keys_ok rs" and "IdempotencyKey r = [] \<or> (\<forall>x \<in> set rs. IdempotencyKey x \<noteq> IdempotencyKey r)"
  shows "keys_ok (rs @ [r])"
  using assms by (auto simp: keys_ok_def)

lemma keys_ok_unique:
  assumes "keys_ok (as @ e # bs)" and "IdempotencyKey e \<noteq> []"
  shows "\<forall>x \<in> set as. IdempotencyKey x \<noteq> IdempotencyKey e" "\<forall>x \<in> set bs. IdempotencyKey x \<noteq> IdempotencyKey e"
  using assms by (auto simp: keys_ok_def image_iff)

lemma updateJobRunFields_runs [simp]: "st_runs (updateJobRunFields now r s) = st_runs s"
  by (simp add: updateJobRunFields_def split: option.splits)

lemma updateJobRunFields_jobs:
  assumes "\<forall>k j. fmlookup (st_jobs s) k = Some j \<longrightarrow> job_ok k j" and "time_ok now" and "run_ok r"
  shows "\<forall>k j. fmlookup (st_jobs (updateJobRunFields now r s)) k = Some j \<longrightarrow> job_ok k j"
  using assms by (auto simp: updateJobRunFields_def job_ok_def job_times_ok_def run_ok_def split: option.splits if_splits)

lemma trim_runs_props:
  "length (trim_runs rs) \<le> maxRuns" "keys_ok rs \<Longrightarrow> keys_ok (trim_runs rs)" "set (trim_runs rs) \<subseteq> set rs"
  by (auto simp: trim_runs_def keys_ok_drop dest: in_set_dropD)

lemma upsertRun_ok:
  assumes "store_ok s" and "time_ok now" and "run_ok r"
  shows "store_ok (upsertRun now r s)"
proof (cases "merge_existing r (st_runs s)")
  case None
  have "keys_ok (st_runs s @ [r])"
    using assms(1) None by (intro keys_ok_snoc) (auto simp: store_ok_def merge_existing_None)
  then show ?thesis
    using None assms trim_runs_props [of "st_runs s @ [r]"]
      updateJobRunFields_jobs [of "s\<lparr>st_runs := trim_runs (st_runs s @ [r])\<rparr>" now r]
    by (auto simp: store_ok_def upsertRun_def)
next
  case (Some mr)
  obtain m rs' where mr: "mr = (m, rs')" by (cases mr)
  obtain as e bs where e: "st_runs s = as @ e # bs" "rs' = as @ m # bs" "m = mergeRun e r"
    "IdempotencyKey e \<noteq> []" "IdempotencyKey e = IdempotencyKey r"
    using merge_existing_Some [OF Some [unfolded mr]] by blast
  have m: "run_ok m" using assms(1,3) e by (auto simp: store_ok_def mergeRun_ok)
  have "keys_ok rs'" using assms(1) e keys_ok_merge [of as e bs m] by (auto simp: store_ok_def)
  with Some mr m e assms updateJobRunFields_jobs [of "s\<lparr>st_runs := rs'\<rparr>" now m] show ?thesis
    by (auto simp: store_ok_def upsertRun_def)
qed

lemma normalizeJob_eq:
  "normalizeJob j = j\<lparr>Enabled := Enabled j \<or> IsZero (CreatedAt j),
     CatchupPolicy := if CatchupPolicy j = [] then ''skip'' else CatchupPolicy j,
     PartitionKey := if PartitionKey j = [] then ''default'' else PartitionKey j,
     Metadata := if Metadata j = None then Some fmempty else Metadata j\<rparr>"
  by (cases j) (simp add: normalizeJob_def Let_def)

lemma normalizeJob_simps [simp]:
  "ID (normalizeJob j) = ID j" "PartitionKey (normalizeJob j) \<noteq> []" "CatchupPolicy (normalizeJob j) \<noteq> []"
  "Metadata (normalizeJob j) \<noteq> None" "CreatedAt (normalizeJob j) = CreatedAt j"
  "UpdatedAt (normalizeJob j) = UpdatedAt j" "NextRun (normalizeJob j) = NextRun j"
  "LastRun (normalizeJob j) = LastRun j"
  by (simp_all add: normalizeJob_eq)

lemma normalizeJob_metadata [simp]: "\<exists>m. Metadata (normalizeJob j) = Some m"
  by (cases "Metadata j") (simp_all add: normalizeJob_eq)

lemma normalizeJob_idem: "normalizeJob (normalizeJob j) = normalizeJob j"
  by (simp add: normalizeJob_eq)

lemma put_job_ok:
  assumes "store_ok s" and "time_ok now" and "job_times_ok j"
  shows "store_ok (put_job now j s)"
  using assms by (auto simp: store_ok_def put_job_def Let_def job_ok_def job_times_ok_def split: option.splits if_splits)

lemma drop_job_ok: "store_ok s \<Longrightarrow> store_ok (drop_job i s)"
  by (auto simp: store_ok_def drop_job_def keys_ok_filter intro: order_trans [OF length_filter_le])

lemma applyCommand_ok:
  assumes "store_ok s" and "time_ok now" and "\<forall>d. cmdData cmd = Some d \<longrightarrow> json_ok d"
  shows "store_ok (applyCommand now cmd s)"
  using assms
  by (auto simp: applyCommand_def decode_data_def put_job_ok drop_job_ok upsertRun_ok get_job_ok get_run_ok
      split: option.splits)

text \<open>The commands of the log with the clock readings of the replica that applies them.\<close>

fun apply_all :: "(time \<times> Command) list \<Rightarrow> Store \<Rightarrow> Store" where
  "apply_all [] s = s"
| "apply_all ((now, cmd) # cs) s = apply_all cs (applyCommand now cmd s)"

definition entry_ok :: "time \<times> Command \<Rightarrow> bool" where
  "entry_ok nc \<longleftrightarrow> time_ok (fst nc) \<and> (\<forall>d. cmdData (snd nc) = Some d \<longrightarrow> json_ok d)"

lemma apply_all_ok:
  "store_ok s \<Longrightarrow> \<forall>nc \<in> set cs. entry_ok nc \<Longrightarrow> store_ok (apply_all cs s)"
  by (induction cs s rule: apply_all.induct) (auto simp: entry_ok_def applyCommand_ok)

lemma empty_store_ok: "store_ok empty_store"
  by (simp add: store_ok_def empty_store_def keys_ok_def)

text \<open>A job, a run of it and their commands, for concrete instances.\<close>

definition demo_time :: time where
  "demo_time = Date 2024 1 2 3 4 0 0 0"

definition demo_job :: Job where
  "demo_job = zero_job\<lparr>ID := ''a'', Name := ''quotes'', CronExpr := ''0 9 * * 1'', Executor := ''shell'',
     CreatedAt := demo_time, UpdatedAt := demo_time, NextRun := demo_time\<rparr>"

definition demo_run :: JobRun where
  "demo_run = zero_run\<lparr>runID := ''r'', JobID := ''a'', StartedAt := demo_time, Status := ''running'',
     IdempotencyKey := ''k''\<rparr>"

definition demo_create :: Command where
  "demo_create = \<lparr>cmdOp = OpCreateJob, cmdData = job_json demo_job\<rparr>"

definition demo_record :: Command where
  "demo_record = \<lparr>cmdOp = OpRecordRun, cmdData = run_json demo_run\<rparr>"

lemma demo_entries_ok: "\<forall>nc \<in> set [(demo_time, demo_create), (demo_time, demo_record)]. entry_ok nc"
proof -
  have "\<forall>nc \<in> set [(demo_time, demo_create), (demo_time, demo_record)].
      time_ok (fst nc) \<and> (case cmdData (snd nc) of None \<Rightarrow> True | Some d \<Rightarrow> json_ok d)"
    by code_simp
  then show ?thesis by (auto simp: entry_ok_def split: option.splits)
qed

text \<open>
  C15. Whatever commands a replica applies, its state keeps the invariant: every job is stored
  under its own id with its defaults filled in, there are at most 1000 runs, no two of them
  share a non-empty idempotency key, and every time can be written to a snapshot.
\<close>

theorem store_invariant:
  assumes "\<forall>nc \<in> set cs. entry_ok nc"
  shows "store_ok (apply_all cs empty_store)"
  by (rule apply_all_ok [OF empty_store_ok assms])

theorem store_invariant_witness:
  "entry_ok (demo_time, demo_create) \<and> entry_ok (demo_time, demo_record)
   \<and> store_ok (apply_all [(demo_time, demo_create), (demo_time, demo_record)] empty_store)"
  using store_invariant [OF demo_entries_ok] demo_entries_ok by simp

section \<open>What the commands do\<close>

lemma merge_existing_again:
  assumes "merge_existing r rs = Some (m, rs')"
  shows "merge_existing r rs' = Some (m, rs')"
  using assms
proof (induction rs arbitrary: rs')
  case (Cons x rs)
  have mm: "mergeRun (mergeRun x r) r = mergeRun x r" by (simp add: mergeRun_eq)
  show ?case
  proof (cases "IdempotencyKey x \<noteq> [] \<and> IdempotencyKey x = IdempotencyKey r")
    case True
    with Cons.prems mm show ?thesis by auto
  next
    case False
    with Cons.prems obtain rs2 where r: "merge_existing r rs = Some (m, rs2)" "rs' = x # rs2"
      by (auto simp del: de_Morgan_conj)
    from Cons.IH [OF r(1)] r(2) False show ?thesis by auto
  qed
qed simp

lemma merge_existing_snoc:
  assumes "\<forall>x \<in> set rs. IdempotencyKey x \<noteq> IdempotencyKey r" and "IdempotencyKey r \<noteq> []"
  shows "merge_existing r (rs @ [r]) = Some (r, rs @ [r])"
  using assms by (induction rs) auto

lemma trim_runs_snoc: "\<exists>rs'. trim_runs (rs @ [r]) = rs' @ [r] \<and> set rs' \<subseteq> set rs"
proof (cases "length (rs @ [r]) > maxRuns")
  case True
  then have "trim_runs (rs @ [r]) = drop (length (rs @ [r]) - maxRuns) rs @ [r]"
    by (simp add: trim_runs_def)
  then show ?thesis using set_drop_subset [of "length (rs @ [r]) - maxRuns" rs] by metis
qed (auto simp: trim_runs_def)

text \<open>
  C20. Recording a run is idempotent: the second time the same record arrives, the history does
  not change, the firing is known as done, and exactly one record carries its key.
\<close>

theorem record_run_idempotent:
  assumes "IdempotencyKey r \<noteq> []" and "store_ok s" and "time_ok now" and "run_ok r"
  shows "let s1 = upsertRun now r s
    in st_runs (upsertRun now' r s1) = st_runs s1 \<and> AlreadyFired (IdempotencyKey r) s1
      \<and> length (filter (\<lambda>x. IdempotencyKey x = IdempotencyKey r) (st_runs s1)) = 1"
proof -
  let ?s1 = "upsertRun now r s" and ?P = "\<lambda>x. IdempotencyKey x = IdempotencyKey r"
  have "\<exists>m. merge_existing r (st_runs ?s1) = Some (m, st_runs ?s1)"
  proof (cases "merge_existing r (st_runs s)")
    case None
    obtain rs' where rs': "trim_runs (st_runs s @ [r]) = rs' @ [r]" "set rs' \<subseteq> set (st_runs s)"
      using trim_runs_snoc by blast
    have "merge_existing r (rs' @ [r]) = Some (r, rs' @ [r])"
      using None rs'(2) assms(1) by (intro merge_existing_snoc) (auto simp: merge_existing_None)
    with None rs' show ?thesis by (auto simp: upsertRun_def)
  next
    case (Some mr)
    then show ?thesis using merge_existing_again by (cases mr) (auto simp: upsertRun_def)
  qed
  then obtain m where m: "merge_existing r (st_runs ?s1) = Some (m, st_runs ?s1)" ..
  from merge_existing_Some [OF m] obtain as e bs where
    e: "st_runs ?s1 = as @ e # bs" "IdempotencyKey e = IdempotencyKey r" by blast
  have "keys_ok (as @ e # bs)" using upsertRun_ok [OF assms(2-4)] e(1) by (simp add: store_ok_def)
  then have "filter ?P as = [] \<and> filter ?P bs = []"
    using keys_ok_unique [of as e bs] assms(1) e(2) by (simp add: filter_empty_conv)
  with m e show ?thesis
    by (auto simp: Let_def upsertRun_def [of now' r ?s1] AlreadyFired_def)
qed

lemma demo_job_ok: "job_times_ok demo_job"
  by code_simp

lemma demo_run_ok: "run_ok demo_run" "time_ok demo_time" "IdempotencyKey demo_run = ''k''"
proof -
  have "time_ok (StartedAt demo_run) \<and> FinishedAt demo_run = None \<and> run_ints_ok demo_run" by code_simp
  then show "run_ok demo_run" by (simp add: run_ok_def)
qed code_simp+

theorem record_run_idempotent_witness:
  "let s1 = upsertRun demo_time demo_run empty_store
   in st_runs (upsertRun zero_time demo_run s1) = st_runs s1 \<and> AlreadyFired ''k'' s1"
  using record_run_idempotent [of demo_run empty_store demo_time zero_time] demo_run_ok empty_store_ok
  by (simp add: Let_def)

text \<open>
  Deleting a job removes it and its history and touches nothing else.
\<close>

theorem delete_job_correct:
  "GetJob i (drop_job i s) = None \<and> GetRuns i (drop_job i s) = []
   \<and> (k \<noteq> i \<longrightarrow> GetJob k (drop_job i s) = GetJob k s \<and> GetRuns k (drop_job i s) = GetRuns k s)"
  by (auto simp: GetJob_def GetRuns_def drop_job_def filter_empty_conv intro!: filter_cong)

theorem delete_job_correct_witness:
  "''b'' \<noteq> ''a''
   \<and> GetJob ''a'' (drop_job ''a'' (put_job demo_time demo_job empty_store)) = None
   \<and> GetJob ''b'' (drop_job ''a'' (put_job demo_time (demo_job\<lparr>ID := ''b''\<rparr>) empty_store))
     = GetJob ''b'' (put_job demo_time (demo_job\<lparr>ID := ''b''\<rparr>) empty_store)"
  using delete_job_correct [of "''a''" "put_job demo_time demo_job empty_store" "''b''"]
    delete_job_correct [of "''a''" "put_job demo_time (demo_job\<lparr>ID := ''b''\<rparr>) empty_store" "''b''"]
  by simp

end
