(* ===== verification/Job_Replicas.thy ===== *)
theory Job_Replicas
  imports Job_Store_Laws
begin

text \<open>
  The job store as a replicated state machine: the contract that convergence of replicas needs,
  as a locale, its interpretation by \<open>applyCommand\<close>, snapshots, and \<open>Submit\<close>.
\<close>

section \<open>The contract of a replicated machine\<close>

text \<open>
  A machine whose steps may read a local clock. \<open>observe\<close> is the part of the state that the
  clock does not reach: equal observations stay equal under the same command.
\<close>

locale replicated_machine =
  fixes step :: "'n \<Rightarrow> 'c \<Rightarrow> 's \<Rightarrow> 's" and observe :: "'s \<Rightarrow> 'o"
  assumes step_observe: "observe s = observe t \<Longrightarrow> observe (step m c s) = observe (step n c t)"
begin

lemma run_observe:
  assumes "observe s = observe t" and "map snd cs = map snd ds"
  shows "observe (foldl (\<lambda>s (n, c). step n c s) s cs) = observe (foldl (\<lambda>s (n, c). step n c s) t ds)"
  using assms
proof (induction cs arbitrary: s t ds)
  case (Cons x cs)
  obtain m c where x: "x = (m, c)" by (cases x)
  from Cons.prems(2) obtain n ds' where d: "ds = (n, c) # ds'" "map snd cs = map snd ds'"
    using x by (cases ds) auto
  from Cons.IH [OF step_observe [OF Cons.prems(1)] d(2)] show ?case by (simp add: x d(1))
qed simp

text \<open>A replica that starts from the state of another one and one that replays from the beginning agree.\<close>

lemma catch_up_observe:
  assumes "observe s = observe (foldl (\<lambda>s (n, c). step n c s) t cs)"
    and "map snd ds = map snd cs @ map snd es"
  shows "observe (foldl (\<lambda>s (n, c). step n c s) s es) = observe (foldl (\<lambda>s (n, c). step n c s) t ds)"
proof -
  have "observe (foldl (\<lambda>s (n, c). step n c s) s es) = observe (foldl (\<lambda>s (n, c). step n c s) t (cs @ es))"
    using run_observe [OF assms(1), of es es] by simp
  also have "\<dots> = observe (foldl (\<lambda>s (n, c). step n c s) t ds)"
    by (rule run_observe) (simp_all add: assms(2))
  finally show ?thesis .
qed

end

section \<open>The job store is one\<close>

definition erase_job :: "Job \<Rightarrow> Job" where
  "erase_job j = j\<lparr>UpdatedAt := zero_time\<rparr>"

definition observe :: "Store \<Rightarrow> (string, Job) fmap \<times> JobRun list" where
  "observe s = (fmmap erase_job (st_jobs s), st_runs s)"

text \<open>The store without clocks: what the commands do to the observed part of the state.\<close>

type_synonym observed = "(string, Job) fmap \<times> JobRun list"

definition created_from :: "Job option \<Rightarrow> Job \<Rightarrow> Job" where
  "created_from e j =
     (case e of
        None \<Rightarrow> j
      | Some x \<Rightarrow> if IsZero (CreatedAt j) then j\<lparr>CreatedAt := CreatedAt x\<rparr> else j)"

definition obs_put :: "Job \<Rightarrow> observed \<Rightarrow> observed" where
  "obs_put j ob =
     (fmupd (ID j) (erase_job (created_from (fmlookup (fst ob) (ID j)) (normalizeJob j))) (fst ob), snd ob)"

definition obs_drop :: "string \<Rightarrow> observed \<Rightarrow> observed" where
  "obs_drop i ob = (fmdrop i (fst ob), filter (\<lambda>r. JobID r \<noteq> i) (snd ob))"

definition obs_touch :: "JobRun \<Rightarrow> observed \<Rightarrow> observed" where
  "obs_touch r ob =
     (case fmlookup (fst ob) (JobID r) of
        None \<Rightarrow> ob
      | Some j \<Rightarrow> (fmupd (JobID r) (j\<lparr>LastRun := StartedAt r, LastStatus := Status r\<rparr>) (fst ob), snd ob))"

definition obs_upsert :: "JobRun \<Rightarrow> observed \<Rightarrow> observed" where
  "obs_upsert r ob =
     (case merge_existing r (snd ob) of
        Some (m, rs) \<Rightarrow> obs_touch m (fst ob, rs)
      | None \<Rightarrow> obs_touch r (fst ob, trim_runs (snd ob @ [r])))"

definition obs_step :: "Command \<Rightarrow> observed \<Rightarrow> observed" where
  "obs_step cmd ob =
     (if cmdOp cmd = OpCreateJob \<or> cmdOp cmd = OpUpdateJob then
        (case decode_data get_job zero_job (cmdData cmd) of None \<Rightarrow> ob | Some job \<Rightarrow> obs_put job ob)
      else if cmdOp cmd = OpDeleteJob then
        (case decode_data get_job zero_job (cmdData cmd) of None \<Rightarrow> ob | Some job \<Rightarrow> obs_drop (ID job) ob)
      else if cmdOp cmd = OpRecordRun then
        (case decode_data get_run zero_run (cmdData cmd) of None \<Rightarrow> ob | Some run \<Rightarrow> obs_upsert run ob)
      else ob)"

lemma erase_job_simps [simp]:
  "CreatedAt (erase_job j) = CreatedAt j" "ID (erase_job j) = ID j"
  "erase_job (j\<lparr>UpdatedAt := t\<rparr>) = erase_job j"
  "erase_job (j\<lparr>LastRun := l, LastStatus := st\<rparr>) = (erase_job j)\<lparr>LastRun := l, LastStatus := st\<rparr>"
  by (simp_all add: erase_job_def)

lemma put_job_eq:
  "put_job now j s =
   (let j' = created_from (fmlookup (st_jobs s) (ID j)) (normalizeJob j)
    in s\<lparr>st_jobs := fmupd (ID j) (if IsZero (UpdatedAt j') then j'\<lparr>UpdatedAt := now\<rparr> else j') (st_jobs s)\<rparr>)"
  by (simp add: put_job_def created_from_def Let_def split: option.splits)

lemma created_from_erase: "created_from (map_option erase_job e) j = created_from e j"
  by (simp add: created_from_def split: option.splits)

lemma put_job_observe: "observe (put_job now j s) = obs_put j (observe s)"
  by (simp add: observe_def obs_put_def put_job_eq Let_def fmmap_fmupd created_from_erase)

lemma drop_job_observe: "observe (drop_job i s) = obs_drop i (observe s)"
  by (simp add: observe_def obs_drop_def drop_job_def)

lemma updateJobRunFields_observe: "observe (updateJobRunFields now r s) = obs_touch r (observe s)"
  by (simp add: observe_def obs_touch_def updateJobRunFields_def fmmap_fmupd split: option.splits)

lemma upsertRun_observe: "observe (upsertRun now r s) = obs_upsert r (observe s)"
proof -
  have "observe (s\<lparr>st_runs := rs\<rparr>) = (fst (observe s), rs)" for rs by (simp add: observe_def)
  moreover have "snd (observe s) = st_runs s" by (simp add: observe_def)
  ultimately show ?thesis
    by (simp add: upsertRun_def obs_upsert_def updateJobRunFields_observe split: option.splits)
qed

lemma applyCommand_observe: "observe (applyCommand now cmd s) = obs_step cmd (observe s)"
  by (simp add: applyCommand_def obs_step_def put_job_observe drop_job_observe upsertRun_observe
      split: option.splits)

text \<open>
  C16. The store refines a machine without clocks: what a command does to the runs and to the jobs
  without the time of their last update does not depend on when it is applied.
\<close>

theorem store_refines_observed:
  "observe (apply_all cs s) = foldl (\<lambda>ob (now, cmd). obs_step cmd ob) (observe s) cs"
  by (induction cs s rule: apply_all.induct) (simp_all add: applyCommand_observe)

interpretation jobs: replicated_machine applyCommand observe
  by unfold_locales (simp add: applyCommand_observe)

lemma apply_all_foldl: "apply_all cs s = foldl (\<lambda>s (n, c). applyCommand n c s) s cs"
  by (induction cs s rule: apply_all.induct) simp_all

text \<open>
  Replicas converge: two replicas that apply the same commands from the empty state, each with
  its own clock, hold the same runs and the same jobs up to the time of the last update.
\<close>

theorem replicas_converge:
  assumes "map snd cs = map snd ds"
  shows "observe (apply_all cs empty_store) = observe (apply_all ds empty_store)"
  unfolding apply_all_foldl by (rule jobs.run_observe [OF refl assms])

theorem replicas_converge_witness:
  "observe (apply_all [(demo_time, demo_create), (demo_time, demo_record)] empty_store)
   = observe (apply_all [(zero_time, demo_create), (zero_time, demo_record)] empty_store)"
  using replicas_converge [of "[(demo_time, demo_create), (demo_time, demo_record)]"
      "[(zero_time, demo_create), (zero_time, demo_record)]"]
  by simp

text \<open>
  The whole state is not a function of the log: two replicas that apply the same commands at
  different times differ in \<open>UpdatedAt\<close>, which \<open>updateJobRunFields\<close> takes from the local clock.
\<close>

theorem replicas_differ_in_UpdatedAt:
  "map_option (tns \<circ> UpdatedAt)
     (GetJob ''a'' (apply_all [(demo_time, demo_create), (Add demo_time 5, demo_record)] empty_store))
   \<noteq> map_option (tns \<circ> UpdatedAt)
     (GetJob ''a'' (apply_all [(demo_time, demo_create), (Add demo_time 7, demo_record)] empty_store))"
  by code_simp

section \<open>Snapshots\<close>

lemma time_json_ok: "time_ok t \<Longrightarrow> time_json t = Some (JTime (rfc3339 t))"
  by (simp add: time_json_def time_ok_def)

lemma map_json_total:
  assumes "\<forall>k x. fmlookup m k = Some x \<longrightarrow> (\<exists>d. enc x = Some d)"
  shows "\<exists>d. map_json enc (Some m) = Some d"
proof -
  have "\<exists>kds. entries_json enc kxs = Some kds" if "\<forall>kx \<in> set kxs. \<exists>d. enc (snd kx) = Some d" for kxs
    using that by (induction enc kxs rule: entries_json.induct) auto
  moreover have "\<forall>kx \<in> set (sorted_list_of_fmap m). \<exists>d. enc (snd kx) = Some d"
    using assms by (auto simp: sorted_list_of_fmap_def)
  ultimately show ?thesis by (auto simp: map_json_def)
qed

lemma job_json_total: "job_times_ok j \<Longrightarrow> \<exists>d. job_json j = Some d"
  using map_json_total [of "case Metadata j of None \<Rightarrow> fmempty | Some m \<Rightarrow> m" "\<lambda>s. Some (JStr s)"]
  by (cases "Metadata j") (auto simp: job_json_def job_times_ok_def time_json_ok map_json_def)

lemma run_json_total: "run_ok r \<Longrightarrow> \<exists>d. run_json r = Some d"
  by (cases "FinishedAt r") (auto simp: run_json_def run_ok_def time_json_ok)

lemma rfc3339_ok: "time_ok t \<Longrightarrow> time_ok (rfc3339 t)"
proof -
  have "local_ns (rfc3339 t) = local_ns t" by (simp add: rfc3339_def local_ns_def)
  then have "Year (rfc3339 t) = Year t" by (simp add: Year_def day_number_def)
  moreover have "\<bar>toff (rfc3339 t)\<bar> \<le> \<bar>toff t\<bar>"
    by (auto simp: rfc3339_def minute_offset_def)
  ultimately show "time_ok t \<Longrightarrow> time_ok (rfc3339 t)" by (simp add: time_ok_def)
qed

lemma map_json_ok:
  assumes "map_json enc m = Some d" and "\<And>x d. enc x = Some d \<Longrightarrow> json_ok d"
  shows "json_ok d"
proof -
  have "\<forall>kd \<in> set kds. json_ok (snd kd)" if "entries_json enc kxs = Some kds" for kxs kds
    using that assms(2) by (induction kxs arbitrary: kds) (fastforce split: option.splits)+
  then show ?thesis using assms(1) by (auto simp: map_json_def split: option.splits)
qed

lemma job_json_ok:
  assumes "job_times_ok j"
  obtains d where "job_json j = Some d" and "json_ok d" and "get_job d zero_job = Some (rfc_job j)"
proof -
  obtain d where d: "job_json j = Some d" using job_json_total [OF assms] by blast
  then have "json_ok d"
    using assms map_json_ok [of "\<lambda>s. Some (JStr s)" "Metadata j"]
    by (auto simp: job_json_def job_times_ok_def time_json_ok rfc3339_ok opt_field_def bind_eq_Some_conv)
  then show thesis by (rule that [OF d _ job_json_get [OF d]])
qed

lemma run_json_ok:
  assumes "run_ok r"
  obtains d where "run_json r = Some d" and "json_ok d" and "get_run d zero_run = Some (rfc_run r)"
proof -
  obtain d where d: "run_json r = Some d" using run_json_total [OF assms] by blast
  then have "json_ok d"
    using assms
    by (cases "FinishedAt r")
      (auto simp: run_json_def run_ok_def time_json_ok rfc3339_ok opt_field_def bind_eq_Some_conv)
  with d run_json_get [OF d] assms show thesis by (intro that) (simp_all add: run_ok_def)
qed

lemma elems_json_total: "\<forall>x \<in> set xs. \<exists>d. enc x = Some d \<Longrightarrow> \<exists>ds. elems_json enc xs = Some ds"
  by (induction xs) auto

lemma encodeSnapshot_ok:
  assumes "store_ok s"
  shows "\<exists>d. encodeSnapshot s = Some d
    \<and> (\<forall>s0. applySnapshot (Some d) s0
         = s0\<lparr>st_jobs := fmmap rfc_job (st_jobs s), st_runs := map rfc_run (st_runs s)\<rparr>)"
proof -
  let ?st = "\<lparr>ssJobs = Some (st_jobs s), ssRuns = Some (st_runs s)\<rparr>"
  obtain jd where "map_json job_json (Some (st_jobs s)) = Some jd"
    using assms map_json_total [of "st_jobs s" job_json] job_json_total
    by (auto simp: store_ok_def job_ok_def)
  moreover obtain rd where "elems_json run_json (st_runs s) = Some rd"
    using assms elems_json_total [of "st_runs s" run_json] run_json_total by (auto simp: store_ok_def)
  ultimately obtain d where d: "state_json ?st = Some d"
    by (simp add: state_json_def slice_json_def)
  moreover have "get_state d \<lparr>ssJobs = None, ssRuns = None\<rparr>
      = Some \<lparr>ssJobs = Some (fmmap rfc_job (st_jobs s)), ssRuns = Some (map rfc_run (st_runs s))\<rparr>"
    using state_json_get [OF d] assms by (simp add: store_ok_def run_ok_def)
  ultimately show ?thesis by (simp add: encodeSnapshot_def applySnapshot_def)
qed

text \<open>
  C25. A snapshot of a store that keeps the invariant never panics, and loading it restores the
  jobs and the runs, up to what RFC 3339 keeps of the times, without touching the waiters.
\<close>

theorem snapshot_roundtrip:
  assumes "store_ok s"
  shows "\<exists>d. encodeSnapshot s = Some d
    \<and> applySnapshot (Some d) s0 = s0\<lparr>st_jobs := fmmap rfc_job (st_jobs s), st_runs := map rfc_run (st_runs s)\<rparr>"
  using encodeSnapshot_ok [OF assms] by blast

theorem snapshot_roundtrip_witness:
  "store_ok empty_store \<and> (\<exists>d. encodeSnapshot empty_store = Some d
     \<and> applySnapshot (Some d) empty_store = empty_store)"
  using snapshot_roundtrip [OF empty_store_ok, of empty_store] empty_store_ok
  by (auto simp: empty_store_def)

section \<open>Submit\<close>

text \<open>
  \<open>Submit\<close> on a follower changes nothing and reports that it is not the leader; on the leader
  it appends one entry at the next index, writes it to stable storage, and every replica decodes
  that entry to exactly the submitted operation and data.
\<close>

theorem submit_appends:
  assumes "submitStart op (Some payload) (Some rf) = (rf', result)"
  shows "if role rf = Leader
    then \<exists>r. rf' = Some r \<and> result = Inr (lastLogIndex rf + 1) \<and> lastLogIndex r = lastLogIndex rf + 1
      \<and> raftstate (persister r) = encode_state r \<and> butlast (rlog r) = rlog rf
      \<and> Option.bind (leCommand (last (rlog r))) decodeCommand = Some \<lparr>cmdOp = op, cmdData = Some payload\<rparr>
    else rf' = Some rf \<and> result = Inl ErrNotLeader"
proof -
  let ?c = "RawBytes (command_json \<lparr>cmdOp = op, cmdData = Some payload\<rparr>)"
  obtain r index t ok where st: "Start ?c rf = (r, index, t, ok)" by (metis prod_cases4)
  then have res: "rf' = Some r" "result = (if ok then Inr index else Inl ErrNotLeader)"
    using assms by (simp_all add: submitStart_def)
  show ?thesis
  proof (cases "role rf = Leader")
    case True
    from Start_leader [OF True st] res True show ?thesis
      by (simp add: command_json_get)
  next
    case False
    with st res show ?thesis by (auto simp: Start_def)
  qed
qed

definition demo_job_leader :: job_raft where
  "demo_job_leader = becomeLeader (Make 3 0 MakePersister 0)"

theorem submit_appends_witness:
  "\<exists>r. fst (submitStart OpDeleteJob (Some JNull) (Some demo_job_leader)) = Some r
     \<and> snd (submitStart OpDeleteJob (Some JNull) (Some demo_job_leader)) = Inr 1
     \<and> Option.bind (leCommand (last (rlog r))) decodeCommand = Some \<lparr>cmdOp = OpDeleteJob, cmdData = Some JNull\<rparr>"
proof -
  have "role demo_job_leader = Leader" "lastLogIndex demo_job_leader = 0" by code_simp+
  with submit_appends [of OpDeleteJob JNull demo_job_leader] show ?thesis
    by (metis add_0 prod.collapse)
qed

text \<open>
  The waiter of an index is released by whatever command is applied at that index: \<open>Submit\<close>
  returns success for a command that was overwritten in the log, because neither the term of
  the entry nor the command itself is compared.
\<close>

theorem waiter_ignores_command:
  assumes "fmlookup (waiters s) index = Some ch"
    and "SnapshotValid msg = False" and "CommandValid msg" and "CommandIndex msg = index"
    and "amCommand msg = Some c" and "decodeCommand c \<noteq> None"
  shows "\<exists>s'. applyMsg now msg (None, s) = Some (None, s') \<and> ch \<in> set (closed s')
    \<and> submitEnd index ch False s' = (s', None)"
proof -
  obtain cmd where cmd: "decodeCommand c = Some cmd" using assms(6) by blast
  have "waiters (applyCommand now cmd s) = waiters s"
    by (simp add: applyCommand_def put_job_def Let_def drop_job_def upsertRun_def updateJobRunFields_def
        split: option.splits)
  with assms cmd show ?thesis
    by (simp add: applyMsg_def Let_def notifyWaiter_def submitEnd_def)
qed

theorem waiter_ignores_command_witness:
  "\<exists>s'. applyMsg zero_time \<lparr>CommandValid = True, amCommand = Some (RawCommand demo_record), CommandIndex = 4,
       SnapshotValid = False, amSnapshot = None, SnapshotTerm = 0, SnapshotIndex = 0\<rparr>
       (None, registerWaiter 4 7 empty_store) = Some (None, s') \<and> 7 \<in> set (closed s')"
  using waiter_ignores_command [of "registerWaiter 4 7 empty_store" 4 7 "\<lparr>CommandValid = True,
      amCommand = Some (RawCommand demo_record), CommandIndex = 4, SnapshotValid = False, amSnapshot = None,
      SnapshotTerm = 0, SnapshotIndex = 0\<rparr>" "RawCommand demo_record" zero_time]
  by (simp add: registerWaiter_def) blast

end
