(* ===== verification/Scheduler.thy ===== *)
theory Scheduler
  imports Cron Job_Replicas
begin

text \<open>
  The scheduler, \<open>internal/scheduler\<close>: which jobs a tick and the reconciliation after a restart
  fire, what firing a job does and in which order, and the next firing time.

  \<open>submit\<close> and the dispatcher are fields of the \<open>Scheduler\<close> struct, so \<open>fireJob\<close> takes them as
  arguments, together with the values it reads from the clock and the random id; they work on a
  world \<open>'w\<close> of which \<open>store_of\<close> is the local store. \<open>None\<close> is a call of \<open>Next\<close> that does not
  return, or a panic below \<open>submit\<close>.
\<close>

section \<open>The next firing time\<close>

definition nextRun :: "string \<Rightarrow> time \<Rightarrow> time option option" where
  "nextRun expr now =
     (case Parse expr of
        None \<Rightarrow> None
      | Some (Inl err) \<Rightarrow> Some None
      | Some (Inr e) \<Rightarrow>
          (case Next e now of None \<Rightarrow> None | Some t \<Rightarrow> Some (if IsZero t then None else Some t)))"

section \<open>Firing a job\<close>

record fire_clock =
  updatedAt :: time
  startedAt :: time
  finishedAt :: time
  freshID :: string

text \<open>
  The first half of \<open>fireJob\<close>: the job with its schedule moved forward and the key of the firing,
  or \<open>None\<close> when the firing is known or has no next time.
\<close>

definition fireCheck ::
  "Job \<Rightarrow> time \<Rightarrow> time \<Rightarrow> fire_clock \<Rightarrow> Store \<Rightarrow> (Job \<times> string) option option" where
  "fireCheck j scheduled now ck s =
     (let key = RunIdempotencyKey (ID j) scheduled in
      if AlreadyFired key s then Some None
      else
        (case nextRun (CronExpr j) now of
           None \<Rightarrow> None
         | Some None \<Rightarrow> Some None
         | Some (Some next) \<Rightarrow> Some (Some (j\<lparr>NextRun := next, UpdatedAt := updatedAt ck\<rparr>, key))))"

definition runningRun :: "Job \<Rightarrow> string \<Rightarrow> fire_clock \<Rightarrow> JobRun" where
  "runningRun j key ck =
     zero_run\<lparr>runID := freshID ck, JobID := ID j, JobName := Name j, StartedAt := startedAt ck,
              Status := ''running'', IdempotencyKey := key\<rparr>"

text \<open>\<open>err\<close> is the message of the error that \<open>Dispatch\<close> returned, if any.\<close>

definition finalRun :: "JobRun \<Rightarrow> string option \<Rightarrow> fire_clock \<Rightarrow> JobRun" where
  "finalRun run err ck =
     (let run = run\<lparr>FinishedAt := Some (finishedAt ck),
                    DurationMs := Milliseconds (Sub (finishedAt ck) (StartedAt run))\<rparr>
      in case err of
           Some msg \<Rightarrow> run\<lparr>Status := ''failed'', ErrorMessage := msg\<rparr>
         | None \<Rightarrow> run\<lparr>Status := ''success''\<rparr>)"

text \<open>The second half: the schedule moves, the run is recorded, and only then the job is dispatched.\<close>

definition fireRest ::
  "(string \<Rightarrow> json option \<Rightarrow> 'w \<Rightarrow> (submit_error option \<times> 'w) option) \<Rightarrow> (Job \<Rightarrow> 'w \<Rightarrow> string option \<times> 'w) \<Rightarrow>
   fire_clock \<Rightarrow> Job \<Rightarrow> string \<Rightarrow> 'w \<Rightarrow> 'w option" where
  "fireRest submit dispatch ck j key w =
     do {
       (err, w) \<leftarrow> submit OpUpdateJob (job_json j) w;
       if err \<noteq> None then Some w
       else do {
         let run = runningRun j key ck;
         (err, w) \<leftarrow> submit OpRecordRun (run_json run) w;
         if err \<noteq> None then Some w
         else do {
           let (err, w) = dispatch j w;
           (_, w) \<leftarrow> submit OpRecordRun (run_json (finalRun run err ck)) w;
           Some w
         }
       }
     }"

definition fireJob ::
  "('w \<Rightarrow> Store) \<Rightarrow> (string \<Rightarrow> json option \<Rightarrow> 'w \<Rightarrow> (submit_error option \<times> 'w) option) \<Rightarrow>
   (Job \<Rightarrow> 'w \<Rightarrow> string option \<times> 'w) \<Rightarrow> fire_clock \<Rightarrow> Job \<Rightarrow> time \<Rightarrow> time \<Rightarrow> 'w \<Rightarrow> 'w option" where
  "fireJob store_of submit dispatch ck j scheduled now w =
     do {
       check \<leftarrow> fireCheck j scheduled now ck (store_of w);
       case check of
         None \<Rightarrow> Some w
       | Some (j, key) \<Rightarrow> fireRest submit dispatch ck j key w
     }"

text \<open>A firing that a goroutine is to carry out: the job, the scheduled time, and \<open>now\<close>.\<close>

type_synonym firing = "Job \<times> time \<times> time"

definition due :: "time \<Rightarrow> Job \<Rightarrow> bool" where
  "due now j \<longleftrightarrow> \<not> (\<not> Enabled j \<or> IsZero (NextRun j) \<or> After (NextRun j) now)"

definition tick :: "time \<Rightarrow> Store \<Rightarrow> firing list" where
  "tick now s = map (\<lambda>j. (j, NextRun j, now)) (filter (due now) (GetJobs s))"

text \<open>One round of \<open>tickLoop\<close>: nothing without leadership.\<close>

definition tickRound :: "job_raft \<Rightarrow> time \<Rightarrow> Store \<Rightarrow> firing list" where
  "tickRound rf now s = (if snd (GetState rf) then tick now s else [])"

text \<open>
  The scheduler itself, beside its store, its executor and \<open>submit\<close>, which its operations take as
  arguments: whether the channel \<open>done\<close> is closed. Closing it twice panics. \<open>tickLoop\<close> takes, per round of
  its \<open>select\<close>, the channel that was ready; with both ready Go may choose either.
\<close>

record scheduler =
  scDone :: bool

definition MakeScheduler :: scheduler where
  "MakeScheduler = \<lparr>scDone = False\<rparr>"

definition KillScheduler :: "scheduler \<Rightarrow> scheduler option" where
  "KillScheduler sc = (if scDone sc then None else Some (sc\<lparr>scDone := True\<rparr>))"

datatype wake = Done | Ticked job_raft time Store

fun tickLoop :: "wake list \<Rightarrow> firing list" where
  "tickLoop [] = []"
| "tickLoop (Done # _) = []"
| "tickLoop (Ticked rf now s # rounds) = tickRound rf now s @ tickLoop rounds"

text \<open>The firing that \<open>FireNow\<close> starts, or its error.\<close>

datatype fire_error = JobNotFound string

definition FireNow :: "string \<Rightarrow> time \<Rightarrow> time \<Rightarrow> Store \<Rightarrow> fire_error + firing" where
  "FireNow i t1 t2 s =
     (case GetJob i s of
        None \<Rightarrow> Inl (JobNotFound i)
      | Some j \<Rightarrow> Inr (j, t1, t2))"

section \<open>Reconciliation\<close>

datatype reconcile_action = Advance Job | Fire firing

definition reconcileJob :: "time \<Rightarrow> Job \<Rightarrow> reconcile_action option" where
  "reconcileJob now j =
     (if IsZero (NextRun j) \<or> \<not> Before (NextRun j) now then None
      else if CatchupPolicy j = ''skip'' then Some (Advance j)
      else if CatchupPolicy j = ''run_once'' then Some (Fire (j, NextRun j, now))
      else None)"

definition ReconcileMissedJobs :: "time \<Rightarrow> Store \<Rightarrow> reconcile_action list" where
  "ReconcileMissedJobs now s = List.map_filter (reconcileJob now) (GetJobs s)"

definition advanceNextRun ::
  "(string \<Rightarrow> json option \<Rightarrow> 'w \<Rightarrow> (submit_error option \<times> 'w) option) \<Rightarrow> time \<Rightarrow> Job \<Rightarrow> time \<Rightarrow> 'w \<Rightarrow> 'w option" where
  "advanceNextRun submit updated j now w =
     do {
       r \<leftarrow> nextRun (CronExpr j) now;
       case r of
         None \<Rightarrow> Some w
       | Some next \<Rightarrow>
           map_option snd (submit OpUpdateJob (job_json (j\<lparr>NextRun := next, UpdatedAt := updated\<rparr>)) w)
     }"

section \<open>The next firing time is in the future\<close>

lemma nextRun_future:
  assumes "whole_hours (toff now)"
  shows "\<exists>r. nextRun expr now = Some r \<and> (\<forall>t. r = Some t \<longrightarrow> tns now < tns t \<and> toff t = toff now)"
proof -
  obtain p where p: "Parse expr = Some p" using Parse_total by blast
  show ?thesis
  proof (cases p)
    case (Inr e)
    obtain r where r: "Next e now = Some r"
      "first_firing e (toff now) (tns now + 1) (tns (search_limit now)) r"
      using Next_first [OF assms] by blast
    with p Inr show ?thesis
      by (auto simp: nextRun_def first_firing_def IsZero_def zero_time_def split: if_splits)
  qed (simp add: nextRun_def p)
qed

end
