(* ===== verification/Job_Node.thy ===== *)
theory Job_Node
  imports Job_Replicas Raft_Replication
begin

text \<open>
  A leader with its store: \<open>Submit\<close> from the call to the result, through \<open>Start\<close>, the replies of
  the followers, the commit rule, the apply loop of Raft, the apply loop of the store and the
  snapshot. \<open>nAcks\<close> are the followers that answer, in the order of their replies.
\<close>

section \<open>The whole path of a command\<close>

record node =
  nRaft :: job_raft
  nStore :: Store
  nNow :: time
  nAcks :: "nat list"

text \<open>One heartbeat to a follower that accepts it, and the leader's handling of the reply.\<close>

definition ackStep :: "nat \<Rightarrow> job_raft \<Rightarrow> job_raft option" where
  "ackStep p rf =
     do {
       out \<leftarrow> heartbeatRequest (currentTerm rf) (commitIndex rf) p rf;
       case out of
         NotLeaderAnyMore \<Rightarrow> Some rf
       | SendSnapshot args \<Rightarrow> handleSnapshotReply p args \<lparr>isrTerm = currentTerm rf\<rparr> rf
       | SendAppend args \<Rightarrow>
           handleAppendReply (currentTerm rf) p args
             \<lparr>aerTerm = currentTerm rf, Success = True, ConflictTerm = -1, ConflictIndex = 0\<rparr> rf
     }"

fun ackAll :: "nat list \<Rightarrow> job_raft \<Rightarrow> job_raft option" where
  "ackAll [] rf = Some rf"
| "ackAll (p # ps) rf = do { rf \<leftarrow> ackStep p rf; ackAll ps rf }"

fun deliver :: "time \<Rightarrow> job_msg list \<Rightarrow> job_raft option \<times> Store \<Rightarrow> (job_raft option \<times> Store) option" where
  "deliver now [] rs = Some rs"
| "deliver now (m # ms) rs = do { rs \<leftarrow> applyMsg now m rs; deliver now ms rs }"

text \<open>\<open>Submit\<close> with the channel \<open>0\<close>; the wait ends with the timeout when the channel is still open.\<close>

definition nodeSubmit :: "string \<Rightarrow> json option \<Rightarrow> node \<Rightarrow> (submit_error option \<times> node) option" where
  "nodeSubmit op data nd =
     (case submitStart op data (Some (nRaft nd)) of
        (rf, Inl err) \<Rightarrow> Some (Some err, nd\<lparr>nRaft := the rf\<rparr>)
      | (rf, Inr index) \<Rightarrow>
          do {
            let s = (registerWaiter index 0 (nStore nd))\<lparr>closed := []\<rparr>;
            rf \<leftarrow> ackAll (nAcks nd) (the rf);
            (rf, ms) \<leftarrow> apply_run (nat (commitIndex rf - lastApplied rf)) rf;
            (rf, s) \<leftarrow> deliver (nNow nd) ms (Some rf, s);
            let (s, err) = submitEnd index 0 False s;
            Some (err, nd\<lparr>nRaft := the rf, nStore := s\<rparr>)
          })"

section \<open>A leader that has applied all it committed\<close>

definition settled :: "job_raft \<Rightarrow> bool" where
  "settled rf \<longleftrightarrow> raft_wf rf \<and> role rf = Leader \<and> lastApplied rf = lastLogIndex rf
     \<and> pendingSnapshot rf = None"

definition acks_ok :: "nat list \<Rightarrow> job_raft \<Rightarrow> bool" where
  "acks_ok ps rf \<longleftrightarrow>
     ps \<noteq> [] \<and> (\<forall>p \<in> set ps. p < npeers rf \<and> lastIncludedIndex rf < nextIndex rf ! p)
     \<and> peer_quorum (npeers rf) (insert (me rf) (set ps))"

definition node_ok :: "node \<Rightarrow> bool" where
  "node_ok nd \<longleftrightarrow>
     settled (nRaft nd) \<and> acks_ok (nAcks nd) (nRaft nd) \<and> store_ok (nStore nd) \<and> time_ok (nNow nd)
     \<and> applyCount (nStore nd) = 0"

text \<open>What the replies leave unchanged.\<close>

definition same_log :: "job_raft \<Rightarrow> job_raft \<Rightarrow> bool" where
  "same_log rf rf' \<longleftrightarrow>
     rlog rf' = rlog rf \<and> lastIncludedIndex rf' = lastIncludedIndex rf
     \<and> lastIncludedTerm rf' = lastIncludedTerm rf \<and> currentTerm rf' = currentTerm rf
     \<and> role rf' = role rf \<and> npeers rf' = npeers rf \<and> me rf' = me rf \<and> lastApplied rf' = lastApplied rf
     \<and> persister rf' = persister rf \<and> pendingSnapshot rf' = pendingSnapshot rf
     \<and> commitIndex rf \<le> commitIndex rf'"

lemma same_log_refl: "same_log rf rf"
  by (simp add: same_log_def)

lemma same_log_trans: "same_log rf rf' \<Longrightarrow> same_log rf' rf'' \<Longrightarrow> same_log rf rf''"
  by (auto simp: same_log_def)

lemma same_log_last: "same_log rf rf' \<Longrightarrow> lastLogIndex rf' = lastLogIndex rf"
  by (simp add: same_log_def lastLogIndex_def)

lemma ackStep_result:
  assumes "raft_wf rf" and "role rf = Leader" and "p < npeers rf"
    and "lastIncludedIndex rf < nextIndex rf ! p"
  obtains rf' where "ackStep p rf = Some rf'" and "raft_wf rf'" and "same_log rf rf'"
    and "matchIndex rf' = (matchIndex rf)[p := lastLogIndex rf]"
    and "nextIndex rf' = (nextIndex rf)[p := lastLogIndex rf + 1]"
    and "greatest_commit rf' (commitIndex rf + 1) (commitIndex rf) (commitIndex rf')"
proof -
  let ?ni = "nextIndex rf ! p"
  let ?r = "\<lparr>aerTerm = currentTerm rf, Success = True, ConflictTerm = -1, ConflictIndex = 0\<rparr>"
  obtain pt where nile: "?ni \<le> lastLogIndex rf + 1"
    and a: "heartbeatRequest (currentTerm rf) (commitIndex rf) p rf = Some (SendAppend
      \<lparr>aeTerm = currentTerm rf, aeLeaderId = me rf, PrevLogIndex = ?ni - 1, PrevLogTerm = pt,
       Entries = drop (nat (?ni - lastIncludedIndex rf)) (rlog rf), LeaderCommit = commitIndex rf\<rparr>)"
      (is "_ = Some (SendAppend ?args)")
    by (rule heartbeatRequest_append [OF assms])
  have last: "PrevLogIndex ?args + int (length (Entries ?args)) = lastLogIndex rf"
    using assms(4) nile by (auto simp: lastLogIndex_def)
  have "0 \<le> lastLogIndex rf" using raft_wfD(2,7) [OF assms(1)] by linarith
  then have ok: "append_reply_ok ?args ?r rf" using last by (simp add: append_reply_ok_def)
  have "matchIndex rf ! p \<le> lastLogIndex rf"
    using raft_wfD(8) [OF assms(1,2)] assms(3) by (simp add: leader_ok_def)
  then have m: "max (matchIndex rf ! p) (PrevLogIndex ?args + int (length (Entries ?args))) = lastLogIndex rf"
    unfolding last by simp
  let ?rf2 = "rf\<lparr>matchIndex := (matchIndex rf)[p := lastLogIndex rf],
    nextIndex := (nextIndex rf)[p := lastLogIndex rf + 1]\<rparr>"
  obtain c where c: "handleAppendReply (currentTerm rf) p ?args ?r rf = Some (?rf2\<lparr>commitIndex := c\<rparr>)"
    "greatest_commit ?rf2 (commitIndex rf + 1) (commitIndex rf) c" "commitIndex rf \<le> c"
    "raft_wf (?rf2\<lparr>commitIndex := c\<rparr>)"
    using handleAppendReply_success(2) [OF assms(1,2,3), of ?r ?args] ok unfolding m by auto
  show thesis
  proof (rule that)
    show "ackStep p rf = Some (?rf2\<lparr>commitIndex := c\<rparr>)" using a c(1) by (simp add: ackStep_def)
  qed (use c in \<open>simp_all add: same_log_def\<close>)
qed

lemma greatest_commit_top:
  assumes "greatest_commit rf (d + 1) d c" and "committable rf (lastLogIndex rf)" and "d \<le> lastLogIndex rf"
  shows "c = lastLogIndex rf"
proof (cases "d = lastLogIndex rf")
  case True
  with assms(1) show ?thesis by (simp add: greatest_commit_def)
next
  case False
  then have "\<exists>k. d + 1 \<le> k \<and> k \<le> lastLogIndex rf \<and> committable rf k"
    using assms(2,3) by (intro exI [of _ "lastLogIndex rf"]) simp
  then have "c \<le> lastLogIndex rf" "\<not> (\<exists>k. c < k \<and> k \<le> lastLogIndex rf \<and> committable rf k)"
    using assms(1) by (simp_all add: greatest_commit_def)
  with assms(2) show ?thesis by (metis order.order_iff_strict)
qed

lemma logTerm_same_log: "same_log rf rf' \<Longrightarrow> logTerm rf' i = logTerm rf i"
  by (simp add: same_log_def logTerm_def logIndex_def)

lemma ackAll_commits:
  assumes "raft_wf rf" and "role rf = Leader" and "ps \<noteq> []"
    and "\<forall>p \<in> set ps. p < npeers rf \<and> lastIncludedIndex rf < nextIndex rf ! p"
    and "logTerm rf (lastLogIndex rf) = Some (currentTerm rf)"
    and "\<forall>q \<in> S. matchIndex rf ! q = lastLogIndex rf"
    and "peer_quorum (npeers rf) (insert (me rf) (S \<union> set ps))"
  shows "\<exists>rf'. ackAll ps rf = Some rf' \<and> raft_wf rf' \<and> same_log rf rf'
    \<and> commitIndex rf' = lastLogIndex rf
    \<and> (\<forall>q < npeers rf. nextIndex rf' ! q = (if q \<in> set ps then lastLogIndex rf + 1 else nextIndex rf ! q))"
  using assms
proof (induction ps arbitrary: rf S)
  case (Cons p ps)
  let ?L = "lastLogIndex rf"
  obtain r1 where r1: "ackStep p rf = Some r1" "raft_wf r1" "same_log rf r1"
    "matchIndex r1 = (matchIndex rf)[p := ?L]" "nextIndex r1 = (nextIndex rf)[p := ?L + 1]"
    "greatest_commit r1 (commitIndex rf + 1) (commitIndex rf) (commitIndex r1)"
    using ackStep_result [OF Cons.prems(1,2), of p] Cons.prems(4) by auto
  note sl = r1(3) and ll = same_log_last [OF r1(3)]
  have lo: "length (nextIndex rf) = npeers rf" "length (matchIndex rf) = npeers rf"
    using raft_wfD(8) [OF Cons.prems(1,2)] by (simp_all add: leader_ok_def)
  have p: "p < npeers rf" "lastIncludedIndex rf < ?L + 1"
    using Cons.prems(4) raft_wfD(7) [OF Cons.prems(1)] by auto
  have ni: "lastIncludedIndex rf < nextIndex r1 ! q" if "q < npeers rf" "lastIncludedIndex rf < nextIndex rf ! q" for q
    using that p lo by (cases "q = p") (simp_all add: r1(5))
  have matched: "matchIndex r1 ! q = ?L" if "q \<in> insert p S" "q < npeers rf" for q
    using that Cons.prems(6) lo by (cases "q = p") (auto simp: r1(4))
  show ?case
  proof (cases "ps = []")
    case True
    have "insert (me rf) (S \<union> {p}) \<subseteq> {..<npeers rf}"
      using Cons.prems(7) True by (auto simp: peer_quorum_def)
    then have "insert (me rf) (S \<union> {p}) \<subseteq> replicas r1 ?L"
      using matched sl by (auto simp: replicas_def same_log_def)
    moreover have "replicas r1 ?L \<subseteq> {..<npeers rf}" using sl by (auto simp: replicas_def same_log_def)
    ultimately have "peer_quorum (npeers rf) (replicas r1 ?L)"
      using peer_quorum_mono [OF Cons.prems(7)] True by simp
    then have "committable r1 (lastLogIndex r1)"
      using sl ll Cons.prems(5) logTerm_same_log [OF sl] by (simp add: committable_def same_log_def)
    then have "commitIndex r1 = ?L"
      using greatest_commit_top [OF r1(6)] ll raft_wfD(5) [OF Cons.prems(1)] by simp
    with r1 True ni p lo show ?thesis by simp
  next
    case False
    have q: "peer_quorum (npeers r1) (insert (me r1) ((insert p S \<inter> {..<npeers rf}) \<union> set ps))"
    proof -
      have "insert (me rf) (S \<union> set (p # ps)) = insert (me rf) ((insert p S \<inter> {..<npeers rf}) \<union> set ps)"
        using Cons.prems(7) p(1) by (auto simp: peer_quorum_def)
      then show ?thesis using Cons.prems(7) sl by (simp add: same_log_def)
    qed
    obtain r2 where r2: "ackAll ps r1 = Some r2" "raft_wf r2" "same_log r1 r2" "commitIndex r2 = lastLogIndex r1"
      "\<forall>q < npeers r1. nextIndex r2 ! q = (if q \<in> set ps then lastLogIndex r1 + 1 else nextIndex r1 ! q)"
      using Cons.IH [OF r1(2) _ False _ _ _ q] Cons.prems sl ll ni matched logTerm_same_log [OF sl]
      by (auto simp: same_log_def)
    have "ackAll (p # ps) rf = Some r2" using r1(1) r2(1) by simp
    moreover have "nextIndex r2 ! q = (if q \<in> set (p # ps) then ?L + 1 else nextIndex rf ! q)"
      if "q < npeers rf" for q
      using r2(5) that sl ll lo by (cases "q = p") (simp_all add: r1(5) same_log_def)
    ultimately show ?thesis using r2 same_log_trans [OF sl r2(3)] ll by auto
  qed
qed simp

section \<open>The store below the waiters\<close>

lemma applyCommand_frame:
  "applyCommand now c (s\<lparr>waiters := w, closed := cl\<rparr>) = (applyCommand now c s)\<lparr>waiters := w, closed := cl\<rparr>"
  "waiters (applyCommand now c s) = waiters s" "closed (applyCommand now c s) = closed s"
  "applyCount (applyCommand now c s) = applyCount s"
  by (simp_all add: applyCommand_def put_job_def Let_def drop_job_def upsertRun_def updateJobRunFields_def
      split: option.splits)

lemma store_ok_frame [simp]:
  "store_ok (s\<lparr>waiters := w\<rparr>) = store_ok s" "store_ok (s\<lparr>closed := cl\<rparr>) = store_ok s"
  "store_ok (s\<lparr>applyCount := n\<rparr>) = store_ok s"
  by (simp_all add: store_ok_def)

lemma encodeSnapshot_frame [simp]:
  "encodeSnapshot (s\<lparr>waiters := w\<rparr>) = encodeSnapshot s" "encodeSnapshot (s\<lparr>closed := cl\<rparr>) = encodeSnapshot s"
  "encodeSnapshot (s\<lparr>applyCount := n\<rparr>) = encodeSnapshot s"
  by (simp_all add: encodeSnapshot_def)

text \<open>The message of a committed command, at a peer that has applied it and not yet a later snapshot.\<close>

lemma applyMsg_command:
  assumes "\<not> SnapshotValid msg" and "CommandValid msg" and "amCommand msg = Some c" and "decodeCommand c = Some cmd"
    and "store_ok (applyCommand now cmd s)" and "0 \<le> applyCount s" and "raft_wf rf"
    and "CommandIndex msg \<le> lastApplied rf" and "lastIncludedIndex rf < CommandIndex msg"
    and "fmlookup (waiters s) (CommandIndex msg) = Some ch"
  shows "\<exists>rf' snap. encodeSnapshot (applyCommand now cmd s) = Some snap
    \<and> Snapshot (CommandIndex msg) (Some snap) rf = Some rf'
    \<and> applyMsg now msg (Some rf, s) = Some (Some rf', (applyCommand now cmd s)
        \<lparr>waiters := fmdrop (CommandIndex msg) (waiters s), closed := ch # closed s, applyCount := 0\<rparr>)"
proof -
  obtain snap where snap: "encodeSnapshot (applyCommand now cmd s) = Some snap"
    using encodeSnapshot_ok [OF assms(5)] by blast
  obtain rf' where "Snapshot (CommandIndex msg) (Some snap) rf = Some rf'"
    using Snapshot_step [OF assms(7,8)] by blast
  with snap assms show ?thesis
    by (simp add: applyMsg_def Let_def notifyWaiter_def applyCommand_frame)
qed

section \<open>Submit returns success and the command is applied and durable\<close>

lemma Start_settled:
  assumes "settled rf"
  obtains rf1 where "Start c rf = (rf1, lastLogIndex rf + 1, currentTerm rf, True)" and "raft_wf rf1"
    and "lastLogIndex rf1 = lastLogIndex rf + 1" and "logTerm rf1 (lastLogIndex rf + 1) = Some (currentTerm rf)"
    and "leCommand (rlog rf1 ! nat (logIndex rf1 (lastLogIndex rf + 1))) = Some c"
    and "rf1 = persist (rf\<lparr>rlog := rlog rf @ [\<lparr>leTerm = currentTerm rf, leCommand = Some c\<rparr>]\<rparr>)"
proof -
  let ?e = "\<lparr>leTerm = currentTerm rf, leCommand = Some c\<rparr>"
  let ?rf1 = "persist (rf\<lparr>rlog := rlog rf @ [?e]\<rparr>)"
  have wf: "raft_wf rf" and ld: "role rf = Leader" using assms by (simp_all add: settled_def)
  have st: "Start c rf = (?rf1, lastLogIndex rf + 1, currentTerm rf, True)"
    using ld by (simp add: Start_def Let_def lastLogIndex_def)
  moreover have "raft_wf ?rf1" using Start_wf [OF wf, of c] st by simp
  moreover have "rlog rf \<noteq> []" using raft_wfD(7) [OF wf] by (auto simp: lastLogIndex_def)
  ultimately show thesis
    by (intro that [of ?rf1])
      (simp_all add: raft_defs lastLogIndex_def logTerm_def logIndex_def go_nth_def nth_append)
qed

lemma apply_run_one:
  assumes "raft_wf rf" and "commitIndex rf = lastApplied rf + 1"
  obtains m where "apply_run (nat (commitIndex rf - lastApplied rf)) rf = Some (rf\<lparr>lastApplied := commitIndex rf\<rparr>, [m])"
    and "CommandIndex m = commitIndex rf" and "CommandValid m" and "\<not> SnapshotValid m"
    and "amCommand m = leCommand (rlog rf ! nat (logIndex rf (commitIndex rf)))"
    and "raft_wf (rf\<lparr>lastApplied := commitIndex rf\<rparr>)"
proof -
  let ?c = "commitIndex rf"
  obtain ms where ms: "apply_run (nat (?c - lastApplied rf)) rf = Some (rf\<lparr>lastApplied := ?c\<rparr>, ms)"
    "map CommandIndex ms = [?c..?c]"
    "map amCommand ms = map (\<lambda>i. leCommand (rlog rf ! nat (logIndex rf i))) [?c..?c]"
    "\<forall>m \<in> set ms. CommandValid m \<and> \<not> SnapshotValid m"
    using apply_run_indices [OF assms(1) refl] assms(2) by auto
  from ms(2) obtain m where m: "ms = [m]" by (auto simp: map_eq_Cons_conv)
  have "raft_wf (rf\<lparr>lastApplied := ?c\<rparr>)"
    using assms by (auto simp: raft_wf_def leader_ok_def lastLogIndex_def)
  with ms m show thesis by (intro that [of m]) simp_all
qed

lemma Snapshot_frame:
  assumes "raft_wf rf" and "lastIncludedIndex rf < index" and "index \<le> lastLogIndex rf"
    and "Snapshot index snap rf = Some rf'"
  shows "role rf' = role rf \<and> npeers rf' = npeers rf \<and> me rf' = me rf \<and> nextIndex rf' = nextIndex rf
    \<and> lastApplied rf' = lastApplied rf \<and> pendingSnapshot rf' = pendingSnapshot rf"
  by (rule Snapshot_result [OF assms(1-3), of snap]) (use assms(4) in \<open>auto simp: raft_defs\<close>)

text \<open>The part of the state that commands change.\<close>

definition same_data :: "Store \<Rightarrow> Store \<Rightarrow> bool" where
  "same_data s t \<longleftrightarrow> st_jobs s = st_jobs t \<and> st_runs s = st_runs t"

text \<open>From \<open>Start\<close> to the message on the apply channel.\<close>

lemma commit_command:
  assumes st: "settled rf" and ak: "acks_ok ps rf"
  defines "L \<equiv> lastLogIndex rf + 1"
  obtains rf1 rf2 m where "Start c rf = (rf1, L, currentTerm rf, True)" and "ackAll ps rf1 = Some rf2"
    and "apply_run (nat (commitIndex rf2 - lastApplied rf2)) rf2 = Some (rf2\<lparr>lastApplied := L\<rparr>, [m])"
    and "raft_wf (rf2\<lparr>lastApplied := L\<rparr>)" and "lastLogIndex rf2 = L" and "lastIncludedIndex rf2 < L"
    and "role rf2 = Leader" and "npeers rf2 = npeers rf" and "me rf2 = me rf" and "pendingSnapshot rf2 = None"
    and "\<forall>p \<in> set ps. p < npeers rf \<and> nextIndex rf2 ! p = L + 1"
    and "CommandIndex m = L" and "CommandValid m" and "\<not> SnapshotValid m" and "amCommand m = Some c"
proof -
  obtain rf1 where r1: "Start c rf = (rf1, L, currentTerm rf, True)" "raft_wf rf1" "lastLogIndex rf1 = L"
    "logTerm rf1 L = Some (currentTerm rf)" "leCommand (rlog rf1 ! nat (logIndex rf1 L)) = Some c"
    "rf1 = persist (rf\<lparr>rlog := rlog rf @ [\<lparr>leTerm = currentTerm rf, leCommand = Some c\<rparr>]\<rparr>)"
    by (rule Start_settled [OF st, folded L_def])
  have f1: "role rf1 = Leader" "npeers rf1 = npeers rf" "me rf1 = me rf" "nextIndex rf1 = nextIndex rf"
    "lastIncludedIndex rf1 = lastIncludedIndex rf" "currentTerm rf1 = currentTerm rf"
    "lastApplied rf1 + 1 = L" "pendingSnapshot rf1 = None"
    using st by (simp_all add: r1(6) raft_defs settled_def L_def)
  obtain rf2 where r2: "ackAll ps rf1 = Some rf2" "raft_wf rf2" "same_log rf1 rf2" "commitIndex rf2 = L"
    "\<forall>q < npeers rf1. nextIndex rf2 ! q = (if q \<in> set ps then L + 1 else nextIndex rf1 ! q)"
    using ackAll_commits [OF r1(2) f1(1), of ps "{}"] ak r1(3,4) f1 by (auto simp: acks_ok_def)
  have f2: "role rf2 = Leader" "npeers rf2 = npeers rf" "me rf2 = me rf" "lastLogIndex rf2 = L"
    "lastIncludedIndex rf2 = lastIncludedIndex rf1" "commitIndex rf2 = lastApplied rf2 + 1" "pendingSnapshot rf2 = None"
    "rlog rf2 = rlog rf1"
    using r2(3,4) f1 same_log_last [OF r2(3)] r1(3) by (simp_all add: same_log_def)
  have li: "lastIncludedIndex rf2 < L" using raft_wfD(7) [of rf] st f1(5) f2(5) by (simp add: settled_def L_def)
  obtain m where m: "apply_run (nat (commitIndex rf2 - lastApplied rf2)) rf2 = Some (rf2\<lparr>lastApplied := L\<rparr>, [m])"
    "CommandIndex m = L" "CommandValid m" "\<not> SnapshotValid m" "amCommand m = Some c"
    "raft_wf (rf2\<lparr>lastApplied := L\<rparr>)"
    using apply_run_one [OF r2(2) f2(6)] f2(5,8) r2(4) r1(5) by (auto simp: logIndex_def)
  show thesis
    by (rule that [OF r1(1) r2(1) m(1,6) f2(4) li f2(1-3,7) _ m(2-5)])
      (use r2(5) f1(2) ak in \<open>auto simp: acks_ok_def\<close>)
qed

lemma nodeSubmit_total:
  assumes ok: "node_ok nd" and d: "json_ok d"
  shows "\<exists>nd'. nodeSubmit op (Some d) nd = Some (None, nd') \<and> node_ok nd'
    \<and> nNow nd' = nNow nd \<and> nAcks nd' = nAcks nd
    \<and> same_data (nStore nd') (applyCommand (nNow nd) \<lparr>cmdOp = op, cmdData = Some d\<rparr> (nStore nd))
    \<and> lastLogIndex (nRaft nd') = lastLogIndex (nRaft nd) + 1
    \<and> lastIncludedIndex (nRaft nd') = lastLogIndex (nRaft nd) + 1
    \<and> ReadSnapshot (persister (nRaft nd')) = encodeSnapshot (nStore nd')
    \<and> raftstate (persister (nRaft nd')) = encode_state (nRaft nd')"
proof -
  let ?rf = "nRaft nd" and ?s = "nStore nd" and ?cmd = "\<lparr>cmdOp = op, cmdData = Some d\<rparr>"
  let ?L = "lastLogIndex (nRaft nd) + 1"
  have st: "settled ?rf" and ak: "acks_ok (nAcks nd) ?rf" and so: "store_ok ?s" and tm: "time_ok (nNow nd)"
    and ac: "applyCount ?s = 0" using ok by (simp_all add: node_ok_def)
  obtain rf1 rf2 m where r: "Start (RawBytes (command_json ?cmd)) ?rf = (rf1, ?L, currentTerm ?rf, True)"
    "ackAll (nAcks nd) rf1 = Some rf2"
    "apply_run (nat (commitIndex rf2 - lastApplied rf2)) rf2 = Some (rf2\<lparr>lastApplied := ?L\<rparr>, [m])"
    and wf3: "raft_wf (rf2\<lparr>lastApplied := ?L\<rparr>)" and l2: "lastLogIndex rf2 = ?L" "lastIncludedIndex rf2 < ?L"
    and f2: "role rf2 = Leader" "npeers rf2 = npeers ?rf" "me rf2 = me ?rf" "pendingSnapshot rf2 = None"
    and ni: "\<forall>p \<in> set (nAcks nd). p < npeers ?rf \<and> nextIndex rf2 ! p = ?L + 1"
    and m: "CommandIndex m = ?L" "CommandValid m" "\<not> SnapshotValid m" "amCommand m = Some (RawBytes (command_json ?cmd))"
    by (rule commit_command [OF st ak])
  let ?s' = "applyCommand (nNow nd) ?cmd ?s"
  have so': "store_ok ?s'" using applyCommand_ok [OF so tm, of ?cmd] d by simp
  define fin where "fin = ?s'\<lparr>waiters := fmdrop ?L (fmupd ?L 0 (waiters ?s)), closed := [0], applyCount := 0\<rparr>"
  obtain rf4 snap where r4: "encodeSnapshot ?s' = Some snap" "Snapshot ?L (Some snap) (rf2\<lparr>lastApplied := ?L\<rparr>) = Some rf4"
    "applyMsg (nNow nd) m (Some (rf2\<lparr>lastApplied := ?L\<rparr>), (registerWaiter ?L 0 ?s)\<lparr>closed := []\<rparr>) = Some (Some rf4, fin)"
    using applyMsg_command [OF m(3,2,4) _ _ _ wf3, of ?cmd "nNow nd" "(registerWaiter ?L 0 ?s)\<lparr>closed := []\<rparr>" 0] so' ac m(1) l2
    by (auto simp: registerWaiter_def applyCommand_frame command_json_get fin_def)
  have sub: "nodeSubmit op (Some d) nd = Some (None, nd\<lparr>nRaft := rf4, nStore := fin\<rparr>)"
    using r r4(3) by (simp add: nodeSubmit_def submitStart_def submitEnd_def fin_def)
  have w4: "raft_wf rf4" "lastLogIndex rf4 = ?L" "lastIncludedIndex rf4 = ?L" "ReadSnapshot (persister rf4) = Some snap"
    "raftstate (persister rf4) = encode_state rf4"
    using Snapshot_step [OF wf3, of ?L "Some snap"] r4(2) l2 by (auto simp: lastLogIndex_def)
  have f4: "role rf4 = Leader" "npeers rf4 = npeers ?rf" "me rf4 = me ?rf" "nextIndex rf4 = nextIndex rf2"
    "lastApplied rf4 = ?L" "pendingSnapshot rf4 = None"
    using Snapshot_frame [OF wf3 _ _ r4(2)] l2 f2 by (simp_all add: lastLogIndex_def)
  have "settled rf4" "acks_ok (nAcks nd) rf4"
    using w4 f4 ak ni by (auto simp: settled_def acks_ok_def)
  then have "node_ok (nd\<lparr>nRaft := rf4, nStore := fin\<rparr>)" using so' tm by (simp add: node_ok_def fin_def)
  with sub w4 r4(1) show ?thesis by (auto simp: same_data_def fin_def)
qed

text \<open>A leader of three peers with an empty store, of which peer 1 answers.\<close>

definition demo_node :: node where
  "demo_node = \<lparr>nRaft = demo_job_leader, nStore = empty_store, nNow = demo_time, nAcks = [1]\<rparr>"

lemma demo_node_ok: "node_ok demo_node"
proof -
  have "raft_wf demo_job_leader" unfolding demo_job_leader_def by (intro becomeLeader_wf Make_fresh_wf) simp
  then have "settled demo_job_leader"
    by (simp add: settled_def demo_job_leader_def becomeLeader_def demo_defs lastLogIndex_def)
  moreover have "acks_ok [1] demo_job_leader"
    by (simp add: acks_ok_def demo_job_leader_def becomeLeader_def demo_defs lastLogIndex_def peer_quorum_def
        majority_def)
  ultimately show ?thesis
    using empty_store_ok demo_run_ok(2) by (simp add: node_ok_def demo_node_def empty_store_def)
qed



text \<open>
  C30. The errors of \<open>Submit\<close>: data that cannot be encoded and a call on a follower leave the node
  as it was; without answers the call times out, the store is as before and nobody waits any
  longer, but the command stays in the log, where a later commit will apply it.
\<close>

theorem submit_errors:
  "nodeSubmit op None nd = Some (Some MarshalError, nd)
   \<and> (role (nRaft nd) \<noteq> Leader \<longrightarrow> nodeSubmit op (Some d) nd = Some (Some ErrNotLeader, nd))
   \<and> (settled (nRaft nd) \<and> nAcks nd = [] \<longrightarrow>
        (\<exists>nd'. nodeSubmit op (Some d) nd = Some (Some ErrTimeout, nd') \<and> same_data (nStore nd') (nStore nd)
           \<and> fmlookup (waiters (nStore nd')) (lastLogIndex (nRaft nd) + 1) = None
           \<and> raft_wf (nRaft nd') \<and> lastLogIndex (nRaft nd') = lastLogIndex (nRaft nd) + 1
           \<and> Option.bind (leCommand (last (rlog (nRaft nd')))) decodeCommand = Some \<lparr>cmdOp = op, cmdData = Some d\<rparr>))"
proof (intro conjI impI)
  show "nodeSubmit op None nd = Some (Some MarshalError, nd)"
    by (simp add: nodeSubmit_def submitStart_def)
next
  assume "role (nRaft nd) \<noteq> Leader"
  then show "nodeSubmit op (Some d) nd = Some (Some ErrNotLeader, nd)"
    by (simp add: nodeSubmit_def submitStart_def Start_def)
next
  assume a: "settled (nRaft nd) \<and> nAcks nd = []"
  let ?c = "RawBytes (command_json \<lparr>cmdOp = op, cmdData = Some d\<rparr>)" and ?L = "lastLogIndex (nRaft nd) + 1"
  obtain rf1 where r1: "Start ?c (nRaft nd) = (rf1, ?L, currentTerm (nRaft nd), True)" "raft_wf rf1"
    "lastLogIndex rf1 = ?L" "rf1 = persist ((nRaft nd)\<lparr>rlog := rlog (nRaft nd)
       @ [\<lparr>leTerm = currentTerm (nRaft nd), leCommand = Some ?c\<rparr>]\<rparr>)"
    by (rule Start_settled [of "nRaft nd" ?c]) (use a in auto)
  have "commitIndex rf1 = lastApplied rf1"
    using a raft_wfD(4,5) [of "nRaft nd"] by (simp add: r1(4) raft_defs settled_def)
  then have "nodeSubmit op (Some d) nd
      = Some (Some ErrTimeout, nd\<lparr>nRaft := rf1, nStore := removeWaiter ?L ((registerWaiter ?L 0 (nStore nd))\<lparr>closed := []\<rparr>)\<rparr>)"
    using r1(1) a by (simp add: nodeSubmit_def submitStart_def submitEnd_def)
  moreover have "leCommand (last (rlog rf1)) = Some ?c" by (simp add: r1(4) raft_defs)
  ultimately show "\<exists>nd'. nodeSubmit op (Some d) nd = Some (Some ErrTimeout, nd') \<and> same_data (nStore nd') (nStore nd)
      \<and> fmlookup (waiters (nStore nd')) ?L = None
      \<and> raft_wf (nRaft nd') \<and> lastLogIndex (nRaft nd') = ?L
      \<and> Option.bind (leCommand (last (rlog (nRaft nd')))) decodeCommand = Some \<lparr>cmdOp = op, cmdData = Some d\<rparr>"
    using r1(2,3) by (simp add: same_data_def removeWaiter_def registerWaiter_def command_json_get)
qed

theorem submit_errors_witness:
  "nodeSubmit OpDeleteJob None demo_node = Some (Some MarshalError, demo_node)
   \<and> (\<exists>nd'. nodeSubmit OpDeleteJob (Some JNull) (demo_node\<lparr>nAcks := []\<rparr>) = Some (Some ErrTimeout, nd')
        \<and> same_data (nStore nd') empty_store \<and> lastLogIndex (nRaft nd') = 1)"
proof -
  have "lastLogIndex (nRaft demo_node) = 0" by code_simp
  moreover have "settled (nRaft demo_node)" using demo_node_ok by (simp add: node_ok_def)
  ultimately show ?thesis
    using submit_errors [of OpDeleteJob demo_node] submit_errors [of OpDeleteJob "demo_node\<lparr>nAcks := []\<rparr>" JNull]
    by (auto simp: demo_node_def)
qed

end
