(* ===== verification/Executors.thy ===== *)
theory Executors
  imports Job_Types
begin

text \<open>
  The executors, \<open>internal/executor\<close>: the dispatcher and the shell, HTTP and Kafka executors. What
  lies outside of the program is a parameter \<open>outside\<close>: the shell, the network and the Kafka client.
  \<open>Execute\<close> gives the error, if any, and the calls to the outside that it made, in order.
\<close>

section \<open>The outside\<close>

datatype shell_failure = ExitFailure int | OtherFailure string

text \<open>What \<open>CombinedOutput\<close> returned, and whether the context was past its deadline by then.\<close>

record shell_result =
  shErr :: "shell_failure option"
  deadlineExceeded :: bool
  combinedOutput :: string

record writer =
  wAddr :: "string list"
  wTopic :: string
  wRequiredAcks :: int

record kafka_message =
  kmKey :: string
  kmValue :: string
  kmTime :: time

record outside =
  runShell :: "int \<Rightarrow> string \<Rightarrow> shell_result"
  httpPost :: "int \<Rightarrow> string \<Rightarrow> string \<Rightarrow> json \<Rightarrow> string + int"
  writeMessages :: "int \<Rightarrow> writer \<Rightarrow> kafka_message \<Rightarrow> string option"
  wallClock :: time

datatype call =
    ShellCall int string
  | PostCall int string string json
  | PublishCall int "string list" string string string

section \<open>Errors\<close>

datatype exec_error =
    UnknownExecutor string
  | ShellTimeout int string
  | ShellExit int string
  | ShellFailed string string
  | EnvelopeError
  | PostFailed string
  | HTTPStatus int
  | PayloadNotTopicMessage
  | EmptyTopic
  | EmptyMessage
  | PublishFailed string string

text \<open>\<open>Duration.String\<close>: hours, minutes and seconds, or the largest unit below a second.\<close>

definition fmt_frac :: "nat \<Rightarrow> nat \<Rightarrow> string" where
  "fmt_frac prec u =
     (let ds = rev (dropWhile (\<lambda>c. c = CHR ''0'') (rev (pad_nat prec (u mod 10 ^ prec))))
      in if prec = 0 \<or> ds = [] then [] else CHR ''.'' # ds)"

definition duration_nat :: "nat \<Rightarrow> string" where
  "duration_nat u =
     (if u = 0 then ''0s''
      else if u < 1000 then show_nat u @ ''ns''
      else if u < 1000000 then show_nat (u div 1000) @ fmt_frac 3 u @ [CHR 0xC2, CHR 0xB5, CHR ''s'']
      else if u < 1000000000 then show_nat (u div 1000000) @ fmt_frac 6 u @ ''ms''
      else
        (let s = u div 1000000000; secs = show_nat (s mod 60) @ fmt_frac 9 u @ ''s''; m = s div 60 in
         if m = 0 then secs
         else
           (let mins = show_nat (m mod 60) @ CHR ''m'' # secs; h = m div 60 in
            if h = 0 then mins else show_nat h @ CHR ''h'' # mins)))"

definition duration_string :: "int \<Rightarrow> string" where
  "duration_string d = (if d < 0 then CHR ''-'' # duration_nat (nat (- d)) else duration_nat (nat d))"

fun Error :: "exec_error \<Rightarrow> string" where
  "Error (UnknownExecutor e) = ''unknown executor type: '' @ e"
| "Error (ShellTimeout t out) = ''shell timeout after '' @ duration_string t @ '': '' @ out"
| "Error (ShellExit c out) = ''shell exit '' @ show_int c @ '': '' @ out"
| "Error (ShellFailed m out) = ''shell: '' @ m @ '': '' @ out"
| "Error EnvelopeError =
     ''json: error calling MarshalJSON for type time.Time: Time.MarshalJSON: year outside of range [0,9999]''"
| "Error (PostFailed m) = m"
| "Error (HTTPStatus c) = ''HTTP '' @ show_int c"
| "Error PayloadNotTopicMessage = ''kafka executor payload must be \"topic:message\"''"
| "Error EmptyTopic = ''kafka executor topic cannot be empty''"
| "Error EmptyMessage = ''kafka executor message cannot be empty''"
| "Error (PublishFailed topic m) = ''publish kafka message topic='' @ topic @ '': '' @ m"

section \<open>The executors\<close>

type_synonym producer = "int \<Rightarrow> string list \<Rightarrow> string \<Rightarrow> string \<Rightarrow> string \<Rightarrow> string option"

datatype Executor =
    ShellExecutor int
  | HTTPExecutor "int option"
  | KafkaExecutor "string list" int "producer option"

abbreviation (input) defaultShellTimeout :: int where "defaultShellTimeout \<equiv> 10 * nsMinute"

definition ShellExecute :: "outside \<Rightarrow> int \<Rightarrow> Job \<Rightarrow> exec_error option \<times> call list" where
  "ShellExecute ext timeout job =
     (let timeout = (if timeout = 0 then defaultShellTimeout else timeout);
          res = runShell ext timeout (Payload job);
          out = combinedOutput res
      in (case shErr res of
            None \<Rightarrow> None
          | Some err \<Rightarrow>
              Some (if deadlineExceeded res then ShellTimeout timeout out
                    else (case err of
                            ExitFailure code \<Rightarrow> ShellExit code out
                          | OtherFailure msg \<Rightarrow> ShellFailed msg out)),
          [ShellCall timeout (Payload job)]))"

definition httpEnvelope :: "Job \<Rightarrow> time \<Rightarrow> json option" where
  "httpEnvelope job triggered =
     do {
       t \<leftarrow> time_json triggered;
       Some (JObj [(''job_id'', JStr (ID job)), (''job_name'', JStr (Name job)), (''triggered_at'', t)])
     }"

definition HTTPExecute :: "outside \<Rightarrow> int option \<Rightarrow> Job \<Rightarrow> exec_error option \<times> call list" where
  "HTTPExecute ext client job =
     (let timeout = (case client of None \<Rightarrow> 30 * nsSecond | Some t \<Rightarrow> t) in
      case httpEnvelope job (UTC (wallClock ext)) of
        None \<Rightarrow> (Some EnvelopeError, [])
      | Some body \<Rightarrow>
          (case httpPost ext timeout (Payload job) ''application/json'' body of
             Inl err \<Rightarrow> Some (PostFailed err)
           | Inr status \<Rightarrow> if status < 200 \<or> status \<ge> 300 then Some (HTTPStatus status) else None,
           [PostCall timeout (Payload job) ''application/json'' body]))"

definition kafkaGoProducer :: "outside \<Rightarrow> producer" where
  "kafkaGoProducer ext timeout brokers topic key val =
     writeMessages ext timeout \<lparr>wAddr = brokers, wTopic = topic, wRequiredAcks = 1\<rparr>
       \<lparr>kmKey = key, kmValue = val, kmTime = UTC (wallClock ext)\<rparr>"

definition KafkaExecute ::
  "outside \<Rightarrow> string list \<Rightarrow> int \<Rightarrow> producer option \<Rightarrow> Job \<Rightarrow> exec_error option \<times> call list" where
  "KafkaExecute ext brokers timeout producer job =
     (case str_splitn2 CHR '':'' (Payload job) of
        Inl _ \<Rightarrow> (Some PayloadNotTopicMessage, [])
      | Inr (p, message) \<Rightarrow>
          (let topic = trim_space p in
           if topic = [] then (Some EmptyTopic, [])
           else if message = [] then (Some EmptyMessage, [])
           else if brokers = [] then (None, [])
           else
             (let timeout = (if timeout = 0 then 10 * nsSecond else timeout);
                  publish = (case producer of None \<Rightarrow> kafkaGoProducer ext | Some p \<Rightarrow> p)
              in (map_option (PublishFailed topic) (publish timeout brokers topic (ID job) message),
                  [PublishCall timeout brokers topic (ID job) message]))))"

fun Execute :: "outside \<Rightarrow> Executor \<Rightarrow> Job \<Rightarrow> exec_error option \<times> call list" where
  "Execute ext (ShellExecutor timeout) = ShellExecute ext timeout"
| "Execute ext (HTTPExecutor client) = HTTPExecute ext client"
| "Execute ext (KafkaExecutor brokers timeout producer) = KafkaExecute ext brokers timeout producer"

section \<open>The dispatcher\<close>

definition splitCSV :: "string \<Rightarrow> string list" where
  "splitCSV v =
     (if v = [] then []
      else filter (\<lambda>p. p \<noteq> []) (map trim_space (str_split CHR '','' v)))"

type_synonym Dispatcher = "(string, Executor) fmap"

definition NewDispatcher :: "string \<Rightarrow> Dispatcher" where
  "NewDispatcher kafkaBrokers =
     fmap_of_list [(''shell'', ShellExecutor 0), (''http'', HTTPExecutor None),
       (''kafka'', KafkaExecutor (splitCSV kafkaBrokers) 0 None)]"

definition Dispatch :: "outside \<Rightarrow> Dispatcher \<Rightarrow> Job \<Rightarrow> exec_error option \<times> call list" where
  "Dispatch ext d job =
     (case fmlookup d (Executor job) of
        None \<Rightarrow> (Some (UnknownExecutor (Executor job)), [])
      | Some exec \<Rightarrow> Execute ext exec job)"

section \<open>Reading a list\<close>

fun join_csv :: "string list \<Rightarrow> string" where
  "join_csv [] = []"
| "join_csv [x] = x"
| "join_csv (x # xs) = x @ '','' @ join_csv xs"

lemma str_split_join:
  assumes "xs \<noteq> []" and "\<forall>x \<in> set xs. CHR '','' \<notin> set x"
  shows "str_split CHR '','' (join_csv xs) = xs"
  using assms by (induction xs rule: join_csv.induct) (simp_all add: str_split_single str_split_append)

lemma dropWhile_suffix: "\<exists>as. xs = as @ dropWhile P xs"
  by (metis takeWhile_dropWhile_id)

lemma set_trim_space: "set (trim_space s) \<subseteq> set s"
  by (auto simp: trim_space_def dest!: set_dropWhileD)

lemma trim_space_idem: "trim_space (trim_space s) = trim_space s"
proof -
  let ?d = "dropWhile is_space s" and ?t = "trim_space s"
  obtain as where d: "?d = ?t @ as"
    using dropWhile_suffix [of "rev ?d" is_space] by (metis rev_append rev_rev_ident trim_space_def)
  have "\<not> is_space (hd ?t)" if "?t \<noteq> []"
  proof -
    have "?d \<noteq> []" using d that by simp
    then have "\<not> is_space (hd ?d)" by (rule hd_dropWhile)
    then show ?thesis using d that by simp
  qed
  then have "dropWhile is_space ?t = ?t" by (auto simp: dropWhile_eq_self_iff)
  moreover have "dropWhile is_space (rev ?t) = rev ?t" by (simp add: trim_space_def)
  ultimately show ?thesis by (simp add: trim_space_def [of ?t])
qed

text \<open>
  The broker list: whatever \<open>KAFKA_BROKERS\<close> holds, the parsed addresses are non-empty, trimmed
  and free of commas, and every list of such addresses is read back from its text.
\<close>

theorem splitCSV_roundtrip:
  "(\<forall>p \<in> set (splitCSV v). p \<noteq> [] \<and> trim_space p = p \<and> CHR '','' \<notin> set p)
   \<and> ((\<forall>x \<in> set xs. x \<noteq> [] \<and> trim_space x = x \<and> CHR '','' \<notin> set x) \<longrightarrow> splitCSV (join_csv xs) = xs)"
proof (intro conjI ballI impI)
  fix p
  assume "p \<in> set (splitCSV v)"
  then obtain q where "q \<in> set (str_split CHR '','' v)" "p = trim_space q" "p \<noteq> []"
    by (auto simp: splitCSV_def split: if_splits)
  then show "p \<noteq> []" "trim_space p = p" "CHR '','' \<notin> set p"
    using str_split_no_sep set_trim_space trim_space_idem by blast+
next
  assume a: "\<forall>x \<in> set xs. x \<noteq> [] \<and> trim_space x = x \<and> CHR '','' \<notin> set x"
  show "splitCSV (join_csv xs) = xs"
  proof (cases "xs = []")
    case False
    then have "join_csv xs \<noteq> []" using a by (cases xs rule: join_csv.cases) auto
    moreover have "map trim_space xs = xs" "filter (\<lambda>p. p \<noteq> []) xs = xs"
      using a by (auto intro: map_idI simp: filter_id_conv)
    ultimately show ?thesis using a False by (simp add: splitCSV_def str_split_join)
  qed (simp add: splitCSV_def)
qed

theorem splitCSV_roundtrip_witness:
  "splitCSV (join_csv [''kafka1:9092'', ''kafka2:9092'']) = [''kafka1:9092'', ''kafka2:9092'']
   \<and> splitCSV '' a,, b '' = [''a'', ''b'']"
proof -
  have "splitCSV '' a,, b '' = [''a'', ''b'']" by code_simp
  moreover have "trim_space ''kafka1:9092'' = ''kafka1:9092''" "trim_space ''kafka2:9092'' = ''kafka2:9092''"
    by code_simp+
  ultimately show ?thesis using splitCSV_roundtrip [of "[]" "[''kafka1:9092'', ''kafka2:9092'']"] by simp
qed

section \<open>What a dispatch does\<close>

lemma str_splitn2_None: "c \<notin> set s \<Longrightarrow> str_splitn2 c s = Inl s"
  by (simp add: str_splitn2_def flip: str_index_None)

lemma NewDispatcher_lookup:
  "fmlookup (NewDispatcher bs) e =
     (if e = ''shell'' then Some (ShellExecutor 0)
      else if e = ''http'' then Some (HTTPExecutor None)
      else if e = ''kafka'' then Some (KafkaExecutor (splitCSV bs) 0 None)
      else None)"
  by (simp add: NewDispatcher_def fmlookup_of_list)

text \<open>
  C31. \<open>Dispatch\<close> makes at most one call to the outside. A shell job succeeds exactly when the command
  does, an HTTP job exactly on a 2xx answer to the one POST of its envelope, and any other
  executor name fails without a call.
\<close>

theorem dispatch_correct:
  fixes ext :: outside and bs :: string and j :: Job
  defines "D \<equiv> Dispatch ext (NewDispatcher bs) j"
  shows "length (snd D) \<le> 1
    \<and> (Executor j = ''shell'' \<longrightarrow> snd D = [ShellCall defaultShellTimeout (Payload j)]
        \<and> (fst D = None \<longleftrightarrow> shErr (runShell ext defaultShellTimeout (Payload j)) = None))
    \<and> (Executor j = ''http'' \<longrightarrow>
        (fst D = None \<longleftrightarrow>
           (\<exists>body status. httpEnvelope j (UTC (wallClock ext)) = Some body
              \<and> snd D = [PostCall (30 * nsSecond) (Payload j) ''application/json'' body]
              \<and> httpPost ext (30 * nsSecond) (Payload j) ''application/json'' body = Inr status
              \<and> 200 \<le> status \<and> status < 300)))
    \<and> (Executor j \<notin> {''shell'', ''http'', ''kafka''} \<longrightarrow> D = (Some (UnknownExecutor (Executor j)), []))"
proof -
  have "length (snd D) \<le> 1"
    by (auto simp: D_def Dispatch_def NewDispatcher_lookup ShellExecute_def HTTPExecute_def KafkaExecute_def Let_def
        split: option.splits sum.splits)
  moreover have "Executor j = ''shell'' \<longrightarrow> snd D = [ShellCall defaultShellTimeout (Payload j)]
        \<and> (fst D = None \<longleftrightarrow> shErr (runShell ext defaultShellTimeout (Payload j)) = None)"
    by (auto simp: D_def Dispatch_def NewDispatcher_lookup ShellExecute_def Let_def split: option.splits)
  moreover have "Executor j = ''http'' \<longrightarrow>
        (fst D = None \<longleftrightarrow>
           (\<exists>body status. httpEnvelope j (UTC (wallClock ext)) = Some body
              \<and> snd D = [PostCall (30 * nsSecond) (Payload j) ''application/json'' body]
              \<and> httpPost ext (30 * nsSecond) (Payload j) ''application/json'' body = Inr status
              \<and> 200 \<le> status \<and> status < 300))"
    by (auto simp: D_def Dispatch_def NewDispatcher_lookup HTTPExecute_def Let_def
        split: option.splits sum.splits)
  moreover have "Executor j \<notin> {''shell'', ''http'', ''kafka''} \<longrightarrow> D = (Some (UnknownExecutor (Executor j)), [])"
    by (simp add: D_def Dispatch_def NewDispatcher_lookup)
  ultimately show ?thesis by blast
qed

text \<open>An outside in which every command succeeds, every endpoint answers 204 and Kafka is down.\<close>

definition demo_outside :: outside where
  "demo_outside =
     \<lparr>runShell = (\<lambda>t c. \<lparr>shErr = None, deadlineExceeded = False, combinedOutput = []\<rparr>),
      httpPost = (\<lambda>t url ct body. Inr 204), writeMessages = (\<lambda>t w m. Some ''broker down''), wallClock = zero_time\<rparr>"

theorem dispatch_correct_witness:
  "fst (Dispatch demo_outside (NewDispatcher []) (zero_job\<lparr>Executor := ''shell''\<rparr>)) = None
   \<and> Dispatch demo_outside (NewDispatcher []) (zero_job\<lparr>Executor := ''grpc''\<rparr>) = (Some (UnknownExecutor ''grpc''), [])"
  using dispatch_correct [of demo_outside "[]" "zero_job\<lparr>Executor := ''shell''\<rparr>"]
    dispatch_correct [of demo_outside "[]" "zero_job\<lparr>Executor := ''grpc''\<rparr>"]
  by (simp add: demo_outside_def)

text \<open>
  The Kafka contract: a payload \<open>topic:message\<close> is published once, to the trimmed topic, under
  the job id, with everything after the first colon as the message; without brokers it succeeds
  without publishing; a missing colon, a blank topic or an empty message is an error.
\<close>

theorem kafka_contract:
  assumes "Executor j = ''kafka''"
  shows "(CHR '':'' \<notin> set (Payload j) \<longrightarrow>
      Dispatch ext (NewDispatcher bs) j = (Some PayloadNotTopicMessage, []))
    \<and> (Payload j = topic @ CHR '':'' # message \<and> CHR '':'' \<notin> set topic \<longrightarrow>
        Dispatch ext (NewDispatcher bs) j =
          (if trim_space topic = [] then (Some EmptyTopic, [])
           else if message = [] then (Some EmptyMessage, [])
           else if splitCSV bs = [] then (None, [])
           else
             (map_option (PublishFailed (trim_space topic))
                (kafkaGoProducer ext (10 * nsSecond) (splitCSV bs) (trim_space topic) (ID j) message),
              [PublishCall (10 * nsSecond) (splitCSV bs) (trim_space topic) (ID j) message])))"
  using assms
  by (auto simp: Dispatch_def NewDispatcher_lookup KafkaExecute_def str_splitn2_append str_splitn2_None Let_def)

definition demo_kafka_job :: Job where
  "demo_kafka_job = zero_job\<lparr>ID := ''k3'', Executor := ''kafka'', Payload := '' jobs.ml:a:b''\<rparr>"

theorem kafka_contract_witness:
  "Dispatch demo_outside (NewDispatcher ''localhost:9092'') demo_kafka_job
   = (Some (PublishFailed ''jobs.ml'' ''broker down''),
      [PublishCall (10 * nsSecond) [''localhost:9092''] ''jobs.ml'' ''k3'' ''a:b''])"
proof -
  have "splitCSV ''localhost:9092'' = [''localhost:9092'']" "trim_space '' jobs.ml'' = ''jobs.ml''" by code_simp+
  then show ?thesis
    using kafka_contract [of demo_kafka_job demo_outside "''localhost:9092''" "'' jobs.ml''" "''a:b''"]
    by (simp add: demo_kafka_job_def demo_outside_def kafkaGoProducer_def)
qed

end
