(* ===== verification/Scheduler_Laws.thy ===== *)
theory Scheduler_Laws
  imports Scheduler Job_Node Executors
begin

text \<open>
  The laws of the scheduler: what it needs of \<open>Submit\<close> and of the dispatcher, as locales, their
  interpretation by a leader with its store and by the dispatcher of the program, and what a
  firing, a tick and the reconciliation do.
\<close>

section \<open>What a firing changes in the store\<close>

lemma same_data_queries:
  assumes "same_data s t"
  shows "GetJob i s = GetJob i t" "AlreadyFired k s = AlreadyFired k t" "st_runs s = st_runs t"
  using assms by (simp_all add: same_data_def GetJob_def AlreadyFired_def)

lemma put_job_stored:
  "\<exists>j'. GetJob (ID j) (put_job now j s) = Some j' \<and> NextRun j' = NextRun j \<and> Executor j' = Executor j
     \<and> st_runs (put_job now j s) = st_runs s"
  by (auto simp: GetJob_def put_job_def Let_def normalizeJob_eq split: option.splits)

lemma upsertRun_NextRun:
  "map_option NextRun (GetJob i (upsertRun now r s)) = map_option NextRun (GetJob i s)"
  by (auto simp: GetJob_def upsertRun_def updateJobRunFields_def split: option.splits)

lemma upsertRun_record:
  assumes "IdempotencyKey r \<noteq> []"
  shows "\<exists>m \<in> set (st_runs (upsertRun now r s)). IdempotencyKey m = IdempotencyKey r \<and> JobID m = JobID r
    \<and> (Status r \<noteq> [] \<longrightarrow> Status m = Status r) \<and> (FinishedAt r \<noteq> None \<longrightarrow> FinishedAt m = FinishedAt r)"
proof (cases "merge_existing r (st_runs s)")
  case None
  obtain rs' where "trim_runs (st_runs s @ [r]) = rs' @ [r]" using trim_runs_snoc by blast
  with None show ?thesis by (simp add: upsertRun_def)
next
  case (Some mr)
  obtain m rs' where mr: "mr = (m, rs')" by (cases mr)
  from merge_existing_Some [OF Some [unfolded mr]] obtain as e bs where
    "rs' = as @ m # bs" "m = mergeRun e r" by blast
  with Some mr assms show ?thesis by (simp add: upsertRun_def)
qed

lemma finalRun_simps [simp]:
  "runID (finalRun run err ck) = runID run" "JobID (finalRun run err ck) = JobID run"
  "StartedAt (finalRun run err ck) = StartedAt run" "FinishedAt (finalRun run err ck) = Some (finishedAt ck)"
  "IdempotencyKey (finalRun run err ck) = IdempotencyKey run" "ExitCode (finalRun run err ck) = ExitCode run"
  "DurationMs (finalRun run err ck) = Milliseconds (Sub (finishedAt ck) (StartedAt run))"
  "Status (finalRun run err ck) = (if err = None then ''success'' else ''failed'')"
  by (simp_all add: finalRun_def Let_def split: option.splits)

definition fire_clock_ok :: "fire_clock \<Rightarrow> bool" where
  "fire_clock_ok ck \<longleftrightarrow> time_ok (updatedAt ck) \<and> time_ok (startedAt ck) \<and> time_ok (finishedAt ck)"

lemma Milliseconds_range: "- (2 ^ 63) \<le> Milliseconds (Sub t u) \<and> Milliseconds (Sub t u) < 2 ^ 63"
proof -
  have le: "0 \<le> x div 1000000 \<and> x div 1000000 \<le> x" if "0 \<le> x" for x :: int using that by linarith
  have s: "- (2 ^ 63) \<le> Sub t u" "Sub t u < 2 ^ 63" by (simp_all add: Sub_def)
  show ?thesis
  proof (cases "0 \<le> Sub t u")
    case True
    with le [OF True] s show ?thesis unfolding Milliseconds_def by simp
  next
    case False
    with le [of "- Sub t u"] s show ?thesis unfolding Milliseconds_def by simp
  qed
qed

lemma runs_ok:
  assumes "fire_clock_ok ck"
  shows "run_ok (runningRun j key ck)" "run_ok (finalRun (runningRun j key ck) err ck)"
  using assms Milliseconds_range
  by (auto simp: run_ok_def run_ints_ok_def fire_clock_ok_def runningRun_def zero_run_def)

lemma keys_ok_filter_one:
  assumes "keys_ok rs" and "r \<in> set rs" and "IdempotencyKey r = key" and "key \<noteq> []"
  shows "filter (\<lambda>r. IdempotencyKey r = key) rs = [r]"
proof -
  obtain as bs where rs: "rs = as @ r # bs" using split_list [OF assms(2)] by blast
  with keys_ok_unique [of as r bs] assms show ?thesis by (auto simp: filter_empty_conv)
qed

section \<open>The contract of Submit\<close>

text \<open>
  A service whose \<open>submit\<close> accepts every encodable command and returns once the local store has
  applied it; \<open>ok\<close> is the state in which it does so.
\<close>

locale job_service =
  fixes store_of :: "'w \<Rightarrow> Store"
    and submit :: "string \<Rightarrow> json option \<Rightarrow> 'w \<Rightarrow> (submit_error option \<times> 'w) option"
    and clock :: "'w \<Rightarrow> time" and ok :: "'w \<Rightarrow> bool"
  assumes submit_ok: "ok w \<Longrightarrow> json_ok d \<Longrightarrow>
      \<exists>w'. submit op (Some d) w = Some (None, w') \<and> ok w'
        \<and> same_data (store_of w') (applyCommand (clock w) \<lparr>cmdOp = op, cmdData = Some d\<rparr> (store_of w))"
    and ok_store: "ok w \<Longrightarrow> store_ok (store_of w)"
begin

lemma submit_job:
  assumes "ok w" and "job_times_ok j" and "op = OpCreateJob \<or> op = OpUpdateJob"
  obtains w' where "submit op (job_json j) w = Some (None, w')" and "ok w'"
    and "same_data (store_of w') (put_job (clock w) (rfc_job j) (store_of w))"
proof -
  obtain d where d: "job_json j = Some d" "json_ok d" "get_job d zero_job = Some (rfc_job j)"
    by (rule job_json_ok [OF assms(2)])
  from submit_ok [OF assms(1) d(2), of op] d assms(3) show thesis
    by (auto simp: applyCommand_def decode_data_def intro: that)
qed

lemma submit_delete:
  assumes "ok w"
  obtains w' where "submit OpDeleteJob (job_json (zero_job\<lparr>ID := i\<rparr>)) w = Some (None, w')" and "ok w'"
    and "same_data (store_of w') (drop_job i (store_of w))"
proof -
  have "job_times_ok (zero_job\<lparr>ID := i\<rparr>)" using zero_time_ok by (simp add: job_times_ok_def zero_job_def)
  then obtain d where d: "job_json (zero_job\<lparr>ID := i\<rparr>) = Some d" "json_ok d"
    "get_job d zero_job = Some (rfc_job (zero_job\<lparr>ID := i\<rparr>))"
    by (rule job_json_ok)
  from submit_ok [OF assms(1) d(2), of OpDeleteJob] d show thesis
    by (auto simp: applyCommand_def decode_data_def rfc_job_def intro: that)
qed

lemma submit_run:
  assumes "ok w" and "run_ok r"
  obtains w' where "submit OpRecordRun (run_json r) w = Some (None, w')" and "ok w'"
    and "same_data (store_of w') (upsertRun (clock w) (rfc_run r) (store_of w))"
proof -
  obtain d where d: "run_json r = Some d" "json_ok d" "get_run d zero_run = Some (rfc_run r)"
    by (rule run_json_ok [OF assms(2)])
  from submit_ok [OF assms(1) d(2), of OpRecordRun] d show thesis
    by (auto simp: applyCommand_def decode_data_def intro: that)
qed

text \<open>Moving the schedule of a job forward records no run.\<close>

lemma advance:
  assumes "ok w" and "job_times_ok j" and "nextRun (CronExpr j) now = Some (Some next)"
    and "time_ok next" and "time_ok updated"
  shows "\<exists>w' j'. advanceNextRun submit updated j now w = Some w' \<and> ok w'
    \<and> GetJob (ID j) (store_of w') = Some j' \<and> NextRun j' = rfc3339 next
    \<and> st_runs (store_of w') = st_runs (store_of w)"
proof -
  let ?j = "j\<lparr>NextRun := next, UpdatedAt := updated\<rparr>"
  have "job_times_ok ?j" using assms by (simp add: job_times_ok_def)
  then obtain w' where w': "submit OpUpdateJob (job_json ?j) w = Some (None, w')" "ok w'"
    "same_data (store_of w') (put_job (clock w) (rfc_job ?j) (store_of w))"
    by (rule submit_job [OF assms(1) _ disjI2 [OF refl]])
  with put_job_stored [of "rfc_job ?j" "clock w" "store_of w"] assms(3) show ?thesis
    by (auto simp: advanceNextRun_def same_data_queries [OF w'(3)] rfc_job_def)
qed

end

section \<open>The contract of the dispatcher\<close>

text \<open>
  A dispatcher of such a service: it does not touch the store, its outcome is a function of the
  job, and \<open>fired\<close> lists the jobs that were dispatched.
\<close>

locale job_runner = job_service store_of submit clock ok
  for store_of :: "'w \<Rightarrow> Store" and submit and clock and ok +
  fixes dispatch :: "Job \<Rightarrow> 'w \<Rightarrow> string option \<times> 'w" and outcome :: "Job \<Rightarrow> string option"
    and fired :: "'w \<Rightarrow> Job list"
  assumes submit_fired: "submit op d w = Some (err, w') \<Longrightarrow> fired w' = fired w"
    and dispatch_ok: "ok w \<Longrightarrow> dispatch j w = (msg, w') \<Longrightarrow>
      msg = outcome j \<and> ok w' \<and> store_of w' = store_of w \<and> fired w' = fired w @ [j]"
begin

lemma fireRest_runs:
  assumes "ok w" and "job_times_ok j" and "fire_clock_ok ck" and "key \<noteq> []"
  shows "\<exists>w'. fireRest submit dispatch ck j key w = Some w' \<and> ok w' \<and> fired w' = fired w @ [j]
    \<and> map_option NextRun (GetJob (ID j) (store_of w')) = Some (rfc3339 (NextRun j))
    \<and> (\<exists>r \<in> set (st_runs (store_of w')). IdempotencyKey r = key \<and> JobID r = ID j \<and> FinishedAt r \<noteq> None
         \<and> Status r = (if outcome j = None then ''success'' else ''failed''))"
proof -
  let ?run = "runningRun j key ck"
  let ?fin = "finalRun ?run (outcome j) ck"
  obtain w1 where w1: "submit OpUpdateJob (job_json j) w = Some (None, w1)" "ok w1"
    "same_data (store_of w1) (put_job (clock w) (rfc_job j) (store_of w))"
    by (rule submit_job [OF assms(1,2) disjI2 [OF refl]])
  obtain w2 where w2: "submit OpRecordRun (run_json ?run) w1 = Some (None, w2)" "ok w2"
    "same_data (store_of w2) (upsertRun (clock w1) (rfc_run ?run) (store_of w1))"
    by (rule submit_run [OF w1(2) runs_ok(1) [OF assms(3)]])
  obtain err w3 where dw: "dispatch j w2 = (err, w3)" by (cases "dispatch j w2")
  note w3 = dispatch_ok [OF w2(2) dw]
  obtain w4 where w4: "submit OpRecordRun (run_json ?fin) w3 = Some (None, w4)" "ok w4"
    "same_data (store_of w4) (upsertRun (clock w3) (rfc_run ?fin) (store_of w3))"
    by (rule submit_run [OF _ runs_ok(2) [OF assms(3)]]) (use w3 in auto)
  have "fireRest submit dispatch ck j key w = Some w4"
    using w1(1) w2(1) dw w3 w4(1) by (simp add: fireRest_def)
  moreover have "fired w4 = fired w @ [j]"
    using submit_fired [OF w1(1)] submit_fired [OF w2(1)] w3 submit_fired [OF w4(1)] by simp
  moreover have "map_option NextRun (GetJob (ID j) (store_of w4)) = Some (rfc3339 (NextRun j))"
    using put_job_stored [of "rfc_job j" "clock w" "store_of w"] w3
    by (auto simp: same_data_queries [OF w1(3)] same_data_queries [OF w2(3)] same_data_queries [OF w4(3)]
        upsertRun_NextRun rfc_job_def)
  moreover have "\<exists>r \<in> set (st_runs (store_of w4)). IdempotencyKey r = key \<and> JobID r = ID j \<and> FinishedAt r \<noteq> None
      \<and> Status r = (if outcome j = None then ''success'' else ''failed'')"
    using upsertRun_record [of "rfc_run ?fin" "clock w3" "store_of w3"] assms(4)
    by (auto simp: same_data_queries(3) [OF w4(3)] rfc_run_def runningRun_def)
  ultimately show ?thesis using w4(2) by blast
qed

lemma advance_fired: "advanceNextRun submit updated j now w = Some w' \<Longrightarrow> fired w' = fired w"
  by (auto simp: advanceNextRun_def bind_eq_Some_conv dest: submit_fired split: option.splits)

text \<open>Once a firing is recorded, every later call for the same minute does nothing.\<close>

lemma fireJob_again:
  assumes "r \<in> set (st_runs (store_of w))" and "IdempotencyKey r = RunIdempotencyKey (ID j) scheduled"
    and "ID j' = ID j" and "tns scheduled' div nsMinute = tns scheduled div nsMinute"
  shows "fireJob store_of submit dispatch ck j' scheduled' now w = Some w"
proof -
  have "AlreadyFired (RunIdempotencyKey (ID j') scheduled') (store_of w)"
    using assms RunIdempotencyKey_cong [OF assms(4)] by (auto simp: AlreadyFired_def)
  then show ?thesis by (simp add: fireJob_def fireCheck_def Let_def)
qed

end

section \<open>The program provides both\<close>

record world =
  wNode :: node
  wCalls :: "call list"
  wFired :: "Job list"

definition worldSubmit :: "string \<Rightarrow> json option \<Rightarrow> world \<Rightarrow> (submit_error option \<times> world) option" where
  "worldSubmit op data w = map_option (\<lambda>(err, nd). (err, w\<lparr>wNode := nd\<rparr>)) (nodeSubmit op data (wNode w))"

definition worldStore :: "world \<Rightarrow> Store" where
  "worldStore w = nStore (wNode w)"

definition worldDispatch :: "outside \<Rightarrow> string \<Rightarrow> Job \<Rightarrow> world \<Rightarrow> string option \<times> world" where
  "worldDispatch ext brokers j w =
     (case Dispatch ext (NewDispatcher brokers) j of
        (err, calls) \<Rightarrow>
          (map_option Error err, w\<lparr>wCalls := wCalls w @ calls, wFired := wFired w @ [j]\<rparr>))"

definition worldOutcome :: "outside \<Rightarrow> string \<Rightarrow> Job \<Rightarrow> string option" where
  "worldOutcome ext brokers j = map_option Error (fst (Dispatch ext (NewDispatcher brokers) j))"

interpretation leader: job_service worldStore worldSubmit "nNow \<circ> wNode" "node_ok \<circ> wNode"
proof unfold_locales
  fix w :: world and d op
  assume "(node_ok \<circ> wNode) w" "json_ok d"
  with nodeSubmit_total [of "wNode w" d op] show "\<exists>w'. worldSubmit op (Some d) w = Some (None, w') \<and> (node_ok \<circ> wNode) w'
      \<and> same_data (worldStore w') (applyCommand ((nNow \<circ> wNode) w) \<lparr>cmdOp = op, cmdData = Some d\<rparr> (worldStore w))"
    by (auto simp: worldSubmit_def worldStore_def)
qed (simp add: node_ok_def worldStore_def)

interpretation runner: job_runner worldStore worldSubmit "nNow \<circ> wNode" "node_ok \<circ> wNode"
    "worldDispatch ext brokers" "worldOutcome ext brokers" wFired for ext brokers
  by unfold_locales
    (auto simp: worldSubmit_def worldDispatch_def worldOutcome_def worldStore_def split: prod.splits)

section \<open>Firing a job\<close>

abbreviation (input) worldFire ::
  "outside \<Rightarrow> string \<Rightarrow> fire_clock \<Rightarrow> Job \<Rightarrow> time \<Rightarrow> time \<Rightarrow> world \<Rightarrow> world option" where
  "worldFire ext brokers \<equiv> fireJob worldStore worldSubmit (worldDispatch ext brokers)"

lemma fireCheck_passes:
  assumes "fireCheck j scheduled now ck s = Some (Some (j', key))"
  obtains nxt where "key = RunIdempotencyKey (ID j) scheduled" and "\<not> AlreadyFired key s"
    and "nextRun (CronExpr j) now = Some (Some nxt)" and "j' = j\<lparr>NextRun := nxt, UpdatedAt := updatedAt ck\<rparr>"
  using assms by (auto simp: fireCheck_def Let_def split: if_splits option.splits)

lemma whole_hours_rfc3339: "whole_hours (toff t) \<Longrightarrow> rfc3339 t = t"
  by (rule rfc3339_id) (auto simp: whole_hours_def whole_minutes_def)


text \<open>A tick of a leader whose one job is a shell command.\<close>

definition demo_clock :: fire_clock where
  "demo_clock = \<lparr>updatedAt = demo_time, startedAt = demo_time, finishedAt = demo_time, freshID = ''r1''\<rparr>"

definition demo_world :: world where
  "demo_world = \<lparr>wNode = demo_node, wCalls = [], wFired = []\<rparr>"

definition demo_next :: time where
  "demo_next = Date 2024 1 2 9 0 0 0 0"

lemma demo_nextRun: "nextRun (CronExpr demo_job) demo_time = Some (Some demo_next)"
  by code_simp

lemma demo_fireCheck:
  "fireCheck demo_job demo_time demo_time demo_clock (worldStore demo_world)
   = Some (Some (demo_job\<lparr>NextRun := demo_next, UpdatedAt := demo_time\<rparr>, RunIdempotencyKey ''a'' demo_time))"
  using demo_nextRun
  by (simp add: fireCheck_def worldStore_def demo_world_def demo_node_def empty_store_def AlreadyFired_def Let_def
      demo_clock_def demo_job_def)

lemma demo_fire_ok: "node_ok (wNode demo_world)" "whole_hours (toff demo_time)" "fire_clock_ok demo_clock" "time_ok demo_next"
proof -
  show "node_ok (wNode demo_world)" using demo_node_ok by (simp add: demo_world_def)
  show "fire_clock_ok demo_clock" using demo_run_ok(2) by (simp add: fire_clock_ok_def demo_clock_def)
qed code_simp+


text \<open>
  C23. The order of a firing, for any \<open>submit\<close> and any dispatcher: either the dispatcher plays no role
  in the result, or the job was dispatched after both the moved schedule and the running record
  were accepted, and its outcome was submitted next.
\<close>

theorem fire_order:
  assumes "fireJob store_of submit dispatch ck j scheduled now w = Some w'"
  shows "(\<forall>dispatch'. fireJob store_of submit dispatch' ck j scheduled now w = Some w')
    \<or> (\<exists>j' key w1 w2 msg w3 err. fireCheck j scheduled now ck (store_of w) = Some (Some (j', key))
         \<and> submit OpUpdateJob (job_json j') w = Some (None, w1)
         \<and> submit OpRecordRun (run_json (runningRun j' key ck)) w1 = Some (None, w2)
         \<and> dispatch j' w2 = (msg, w3)
         \<and> submit OpRecordRun (run_json (finalRun (runningRun j' key ck) msg ck)) w3 = Some (err, w'))"
proof (cases "fireCheck j scheduled now ck (store_of w)")
  case (Some check)
  show ?thesis
  proof (cases check)
    case None
    with Some assms show ?thesis by (simp add: fireJob_def)
  next
    case (Some p)
    obtain j' key where p: "p = (j', key)" by (cases p)
    note c = \<open>fireCheck j scheduled now ck (store_of w) = Some check\<close> [unfolded Some p]
    obtain e1 w1 where s1: "submit OpUpdateJob (job_json j') w = Some (e1, w1)"
      using assms c by (auto simp: fireJob_def fireRest_def bind_eq_Some_conv)
    show ?thesis
    proof (cases "e1 = None")
      case False
      with assms c s1 show ?thesis by (simp add: fireJob_def fireRest_def)
    next
      case True
      then obtain e2 w2 where s2: "submit OpRecordRun (run_json (runningRun j' key ck)) w1 = Some (e2, w2)"
        using assms c s1 by (auto simp: fireJob_def fireRest_def Let_def bind_eq_Some_conv)
      show ?thesis
      proof (cases "e2 = None")
        case False
        with assms c s1 s2 True show ?thesis by (simp add: fireJob_def fireRest_def)
      next
        case True
        obtain msg w3 where d: "dispatch j' w2 = (msg, w3)" by (cases "dispatch j' w2")
        with assms c s1 s2 True \<open>e1 = None\<close> show ?thesis
          by (auto simp: fireJob_def fireRest_def Let_def bind_eq_Some_conv)
      qed
    qed
  qed
qed (use assms in \<open>simp add: fireJob_def\<close>)

text \<open>A service that refuses everything: the dispatcher is never reached.\<close>

theorem fire_order_witness:
  "fireJob worldStore (\<lambda>op d w. Some (Some ErrNotLeader, w)) (worldDispatch demo_outside []) demo_clock
     demo_job demo_time demo_time demo_world = Some demo_world
   \<and> fireJob worldStore (\<lambda>op d w. Some (Some ErrNotLeader, w)) (\<lambda>j w. (None, w\<lparr>wFired := [j]\<rparr>)) demo_clock
     demo_job demo_time demo_time demo_world = Some demo_world"
proof -
  let ?s = "\<lambda>op d w. Some (Some ErrNotLeader, w)"
  have a: "fireJob worldStore ?s (worldDispatch demo_outside []) demo_clock demo_job demo_time demo_time demo_world
      = Some demo_world"
    using demo_fireCheck by (simp add: fireJob_def fireRest_def)
  with fire_order [OF a] show ?thesis by auto
qed

text \<open>
  C35. The check and the record are not one step: when two calls for the same firing both pass the
  check on the same store before either records its run, the job is dispatched twice, although
  the store afterwards holds one record of it.
\<close>

theorem double_fire:
  assumes "node_ok (wNode w)" and "fire_clock_ok ck" and "fire_clock_ok ck'" and "job_times_ok j1" and "job_times_ok j2"
    and "fireCheck j scheduled now ck (worldStore w) = Some (Some (j1, key))"
    and "fireCheck j scheduled now' ck' (worldStore w) = Some (Some (j2, key))"
  shows "\<exists>w1 w2. fireRest worldSubmit (worldDispatch ext brokers) ck j1 key w = Some w1
    \<and> fireRest worldSubmit (worldDispatch ext brokers) ck' j2 key w1 = Some w2
    \<and> wFired w2 = wFired w @ [j1, j2]
    \<and> length (filter (\<lambda>r. IdempotencyKey r = key) (st_runs (worldStore w2))) = 1"
proof -
  have "key \<noteq> []"
    by (rule fireCheck_passes [OF assms(6)]) (use length_RunIdempotencyKey [of "ID j" scheduled] in auto)
  note run = runner.fireRest_runs [OF _ _ _ this, of _ _ _ ext brokers]
  obtain w1 where w1: "fireRest worldSubmit (worldDispatch ext brokers) ck j1 key w = Some w1" "node_ok (wNode w1)"
    "wFired w1 = wFired w @ [j1]"
    using run [of w j1 ck] assms by auto
  obtain w2 r where w2: "fireRest worldSubmit (worldDispatch ext brokers) ck' j2 key w1 = Some w2" "node_ok (wNode w2)"
    "wFired w2 = wFired w1 @ [j2]" "r \<in> set (st_runs (worldStore w2))" "IdempotencyKey r = key"
    using run [of w1 j2 ck'] w1(2) assms by auto
  have "filter (\<lambda>r. IdempotencyKey r = key) (st_runs (worldStore w2)) = [r]"
    by (rule keys_ok_filter_one) (use w2 \<open>key \<noteq> []\<close> in \<open>auto simp: node_ok_def store_ok_def worldStore_def\<close>)
  with w1 w2 show ?thesis by auto
qed

theorem double_fire_witness:
  "\<exists>w1 w2. fireRest worldSubmit (worldDispatch demo_outside []) demo_clock (demo_job\<lparr>NextRun := demo_next, UpdatedAt := demo_time\<rparr>)
      (RunIdempotencyKey ''a'' demo_time) demo_world = Some w1
    \<and> fireRest worldSubmit (worldDispatch demo_outside []) demo_clock (demo_job\<lparr>NextRun := demo_next, UpdatedAt := demo_time\<rparr>)
      (RunIdempotencyKey ''a'' demo_time) w1 = Some w2
    \<and> length (wFired w2) = 2"
proof -
  have "job_times_ok (demo_job\<lparr>NextRun := demo_next, UpdatedAt := demo_time\<rparr>)"
    using demo_job_ok demo_fire_ok(4) demo_run_ok(2) by (simp add: job_times_ok_def)
  from double_fire [OF demo_fire_ok(1,3,3) this this demo_fireCheck demo_fireCheck, of demo_outside "[]"]
  show ?thesis by (auto simp: demo_world_def)
qed

section \<open>Ticks\<close>

lemma GetJobs_set: "j \<in> set (GetJobs s) \<longleftrightarrow> (\<exists>i. GetJob i s = Some j)"
  by (force simp: GetJobs_def GetJob_def sorted_list_of_fmap_def fmlookup_dom_iff)

lemma GetJobs_ids:
  assumes "store_ok s"
  shows "distinct (map ID (GetJobs s))"
proof -
  have "map ID (GetJobs s) = sorted_list_of_fset (fmdom (st_jobs s))"
    unfolding GetJobs_def sorted_list_of_fmap_def map_map
    by (rule map_idI) (use assms in \<open>auto simp: store_ok_def job_ok_def fmlookup_dom_iff\<close>)
  then show ?thesis by (simp add: sorted_list_of_fset.rep_eq)
qed

text \<open>
  C24. A tick of the leader starts one firing for each enabled job whose next firing time has come,
  with that time as the scheduled time, and nothing else; a follower starts none.
\<close>

theorem tick_correct:
  assumes "store_ok s"
  shows "set (tickRound rf now s) =
      (if role rf = Leader
       then {(j, NextRun j, now) | j i. GetJob i s = Some j \<and> Enabled j \<and> \<not> IsZero (NextRun j) \<and> tns (NextRun j) \<le> tns now}
       else {})
    \<and> distinct (map (ID \<circ> fst) (tickRound rf now s))"
proof -
  have "set (tick now s) =
      {(j, NextRun j, now) | j i. GetJob i s = Some j \<and> Enabled j \<and> \<not> IsZero (NextRun j) \<and> tns (NextRun j) \<le> tns now}"
    by (auto simp: tick_def due_def After_def GetJobs_set)
  moreover have "map (ID \<circ> fst) (tick now s) = map ID (filter (due now) (GetJobs s))"
    by (simp add: tick_def)
  ultimately show ?thesis
    using distinct_map_filter [OF GetJobs_ids [OF assms]] by (simp add: tickRound_def GetState_def)
qed

theorem tick_correct_witness:
  "store_ok (put_job demo_time (demo_job\<lparr>Enabled := True\<rparr>) empty_store)
   \<and> map (ID \<circ> fst) (tickRound demo_job_leader demo_time (put_job demo_time (demo_job\<lparr>Enabled := True\<rparr>) empty_store)) = [''a'']
   \<and> distinct (map (ID \<circ> fst) (tickRound demo_job_leader demo_time (put_job demo_time (demo_job\<lparr>Enabled := True\<rparr>) empty_store)))"
proof -
  have ok: "store_ok (put_job demo_time (demo_job\<lparr>Enabled := True\<rparr>) empty_store)"
    by (rule put_job_ok [OF empty_store_ok demo_run_ok(2)]) (use demo_job_ok in \<open>simp add: job_times_ok_def\<close>)
  have "map (ID \<circ> fst) (tickRound demo_job_leader demo_time (put_job demo_time (demo_job\<lparr>Enabled := True\<rparr>) empty_store)) = [''a'']"
    by code_simp
  with ok tick_correct [OF ok, of demo_job_leader demo_time] show ?thesis by blast
qed

section \<open>Reconciliation\<close>

text \<open>
  A missed job with the policy \<open>skip\<close> is moved forward and not run: its next firing time is past
  \<open>now\<close>, no run is recorded, nothing is dispatched, and neither a tick nor another reconciliation at
  \<open>now\<close> has anything left to do for it.
\<close>

theorem reconcile_skip:
  assumes "node_ok (wNode w)" and "whole_hours (toff now)" and "GetJob i (worldStore w) = Some j"
    and "reconcileJob now j = Some (Advance j)" and "nextRun (CronExpr j) now = Some (Some nxt)"
    and "time_ok nxt" and "time_ok updated"
  shows "\<exists>w' j'. advanceNextRun worldSubmit updated j now w = Some w' \<and> node_ok (wNode w')
    \<and> wFired w' = wFired w \<and> st_runs (worldStore w') = st_runs (worldStore w)
    \<and> GetJob i (worldStore w') = Some j' \<and> NextRun j' = nxt \<and> \<not> due now j' \<and> reconcileJob now j' = None"
proof -
  have j: "ID j = i" "job_times_ok j"
    using assms(1,3) by (auto simp: node_ok_def store_ok_def job_ok_def worldStore_def GetJob_def)
  have nx: "tns now < tns nxt" "rfc3339 nxt = nxt"
    using nextRun_future [OF assms(2), of "CronExpr j"] assms(2,5) whole_hours_rfc3339 by auto
  obtain w' j' where w': "advanceNextRun worldSubmit updated j now w = Some w'" "node_ok (wNode w')"
    "GetJob i (worldStore w') = Some j'" "NextRun j' = nxt" "st_runs (worldStore w') = st_runs (worldStore w)"
    using leader.advance [OF _ j(2) assms(5-7), of w] assms(1) j(1) nx(2) by auto
  then show ?thesis
    using runner.advance_fired [OF w'(1)] nx(1) by (auto simp: due_def After_def reconcileJob_def Before_def)
qed

definition demo_later :: time where
  "demo_later = Add demo_time nsHour"

lemma demo_later_ok: "whole_hours (toff demo_later)" "nextRun (CronExpr demo_job) demo_later = Some (Some demo_next)"
  by code_simp+

definition demo_missed_world :: world where
  "demo_missed_world =
     demo_world\<lparr>wNode := demo_node\<lparr>nStore := put_job demo_time demo_job empty_store\<rparr>\<rparr>"

lemma demo_missed_world_ok: "node_ok (wNode demo_missed_world)"
  using demo_node_ok put_job_ok [OF empty_store_ok demo_run_ok(2) demo_job_ok]
  by (simp add: node_ok_def demo_missed_world_def demo_node_def put_job_def Let_def empty_store_def)

lemma demo_missed_job:
  obtains j where "GetJob ''a'' (worldStore demo_missed_world) = Some j" and "reconcileJob demo_later j = Some (Advance j)"
    and "CronExpr j = CronExpr demo_job"
proof -
  have "map_option (\<lambda>j. (CronExpr j, CatchupPolicy j, tns (NextRun j))) (GetJob ''a'' (worldStore demo_missed_world))
      = Some (CronExpr demo_job, ''skip'', tns demo_time)" by code_simp
  moreover have "0 < tns demo_time" "tns demo_time < tns demo_later" by code_simp+
  ultimately show thesis by (auto simp: reconcileJob_def IsZero_def Before_def intro: that)
qed

theorem reconcile_skip_witness:
  "\<exists>j w' j'. GetJob ''a'' (worldStore demo_missed_world) = Some j
     \<and> advanceNextRun worldSubmit demo_time j demo_later demo_missed_world = Some w'
     \<and> GetJob ''a'' (worldStore w') = Some j' \<and> NextRun j' = demo_next \<and> wFired w' = []"
proof -
  obtain j where j: "GetJob ''a'' (worldStore demo_missed_world) = Some j" "reconcileJob demo_later j = Some (Advance j)"
    "CronExpr j = CronExpr demo_job"
    by (rule demo_missed_job)
  have "wFired demo_missed_world = []" by (simp add: demo_missed_world_def demo_world_def)
  with reconcile_skip [OF demo_missed_world_ok demo_later_ok(1) j(1,2) _ demo_fire_ok(4) demo_run_ok(2)] j
    demo_later_ok(2) show ?thesis by auto
qed

lemma ReconcileMissedJobs_set:
  "a \<in> set (ReconcileMissedJobs now s) \<longleftrightarrow> (\<exists>j \<in> set (GetJobs s). reconcileJob now j = Some a)"
proof -
  have "set (List.map_filter f xs) = {y. \<exists>x \<in> set xs. f x = Some y}" for f :: "Job \<Rightarrow> reconcile_action option" and xs
    by (induction xs) (auto simp: List.map_filter_def)
  then show ?thesis by (simp add: ReconcileMissedJobs_def)
qed

text \<open>
  The reconciliation does not look at \<open>Enabled\<close>: it fires a missed job that is disabled, which no
  tick at that time does.
\<close>

theorem reconcile_fires_disabled:
  assumes "GetJob i s = Some j" and "\<not> Enabled j" and "CatchupPolicy j = ''run_once''"
    and "\<not> IsZero (NextRun j)" and "tns (NextRun j) < tns now"
  shows "Fire (j, NextRun j, now) \<in> set (ReconcileMissedJobs now s) \<and> (j, NextRun j, now) \<notin> set (tick now s)"
proof -
  have "j \<in> set (GetJobs s)" using assms(1) GetJobs_set by blast
  moreover have "reconcileJob now j = Some (Fire (j, NextRun j, now))"
    using assms(3-) by (simp add: reconcileJob_def Before_def)
  ultimately show ?thesis
    using assms(2) by (auto simp: ReconcileMissedJobs_set tick_def due_def)
qed

theorem reconcile_fires_disabled_witness:
  "\<exists>j. GetJob ''a'' (put_job demo_time (demo_job\<lparr>CatchupPolicy := ''run_once''\<rparr>) empty_store) = Some j \<and> \<not> Enabled j
     \<and> Fire (j, NextRun j, demo_later)
       \<in> set (ReconcileMissedJobs demo_later (put_job demo_time (demo_job\<lparr>CatchupPolicy := ''run_once''\<rparr>) empty_store))"
proof -
  let ?s = "put_job demo_time (demo_job\<lparr>CatchupPolicy := ''run_once''\<rparr>) empty_store"
  have "map_option (\<lambda>j. (Enabled j, CatchupPolicy j, tns (NextRun j))) (GetJob ''a'' ?s)
      = Some (False, ''run_once'', tns demo_time)" by code_simp
  then obtain j where "GetJob ''a'' ?s = Some j" "\<not> Enabled j" "CatchupPolicy j = ''run_once''" "tns (NextRun j) = tns demo_time"
    by auto
  moreover have "0 < tns demo_time" "tns demo_time < tns demo_later" by code_simp+
  ultimately show ?thesis
    using reconcile_fires_disabled [of "''a''" ?s j demo_later] by (auto simp: IsZero_def)
qed

section \<open>A deletion during a firing\<close>

text \<open>
  A firing brings a deleted job back: when the job is deleted after the check of \<open>fireJob\<close>, the
  update of the schedule writes it again, and it is dispatched.
\<close>

theorem fire_revives_deleted:
  assumes "node_ok (wNode w)" and "fire_clock_ok ck" and "job_times_ok j'"
    and "fireCheck j scheduled now ck (worldStore w) = Some (Some (j', key))"
  shows "\<exists>w1 w2. worldSubmit OpDeleteJob (job_json (zero_job\<lparr>ID := ID j'\<rparr>)) w = Some (None, w1)
    \<and> GetJob (ID j') (worldStore w1) = None
    \<and> fireRest worldSubmit (worldDispatch ext brokers) ck j' key w1 = Some w2
    \<and> GetJob (ID j') (worldStore w2) \<noteq> None \<and> wFired w2 = wFired w @ [j']"
proof -
  have key: "key \<noteq> []"
    by (rule fireCheck_passes [OF assms(4)]) (use length_RunIdempotencyKey [of "ID j" scheduled] in auto)
  obtain w1 where w1: "worldSubmit OpDeleteJob (job_json (zero_job\<lparr>ID := ID j'\<rparr>)) w = Some (None, w1)"
    "node_ok (wNode w1)" "same_data (worldStore w1) (drop_job (ID j') (worldStore w))"
    by (rule leader.submit_delete [of w "ID j'"]) (use assms(1) in auto)
  obtain w2 where "fireRest worldSubmit (worldDispatch ext brokers) ck j' key w1 = Some w2"
    "map_option NextRun (GetJob (ID j') (worldStore w2)) = Some (rfc3339 (NextRun j'))" "wFired w2 = wFired w1 @ [j']"
    using runner.fireRest_runs [OF _ assms(3,2) key, of w1 ext brokers] w1(2) by auto
  moreover have "wFired w1 = wFired w" using runner.submit_fired [OF w1(1)] .
  moreover have "GetJob (ID j') (worldStore w1) = None"
    unfolding same_data_queries(1) [OF w1(3)] by (simp add: GetJob_def drop_job_def)
  ultimately show ?thesis using w1(1) by auto
qed

theorem fire_revives_deleted_witness:
  "\<exists>w1 w2. worldSubmit OpDeleteJob (job_json (zero_job\<lparr>ID := ''a''\<rparr>)) demo_world = Some (None, w1)
    \<and> GetJob ''a'' (worldStore w1) = None \<and> GetJob ''a'' (worldStore w2) \<noteq> None"
proof -
  let ?j = "demo_job\<lparr>NextRun := demo_next, UpdatedAt := demo_time\<rparr>"
  have "job_times_ok ?j" using demo_job_ok demo_fire_ok(4) demo_run_ok(2) by (simp add: job_times_ok_def)
  moreover have "ID ?j = ''a''" by (simp add: demo_job_def)
  ultimately show ?thesis
    using fire_revives_deleted [OF demo_fire_ok(1,3) _ demo_fireCheck, of demo_outside "[]"] by auto
qed

end
