(* ===== verification/Api_Server.thy ===== *)
theory Api_Server
  imports Scheduler_Laws
begin

text \<open>
  The REST API, \<open>internal/api\<close>: the routes and the six handlers. The store, the scheduler and the
  Raft peer behind the interfaces of \<open>server.go\<close> are arguments of the handlers. A body that holds
  no JSON value is \<open>None\<close>; the texts of errors are the constructors of \<open>api_error\<close>.
\<close>

section \<open>Responses\<close>

datatype api_error =
    InvalidJSON
  | InvalidCron cron_error
  | NotTheLeader
  | SubmitFailed submit_error
  | NoSuchJob string
  | TriggerFailed fire_error

text \<open>\<open>JsonBody None\<close> is a value that cannot be encoded: the status is sent, the body is not.\<close>

datatype body = NoBody | ErrorBody api_error | JsonBody "json option"

record response =
  respCode :: int
  respBody :: body

definition writeJSON :: "int \<Rightarrow> json option \<Rightarrow> response" where
  "writeJSON code v = \<lparr>respCode = code, respBody = JsonBody v\<rparr>"

definition writeError :: "int \<Rightarrow> api_error \<Rightarrow> response" where
  "writeError code err = \<lparr>respCode = code, respBody = ErrorBody err\<rparr>"

section \<open>Creating a job\<close>

record createJobReq =
  reqID :: string
  reqName :: string
  reqCronExpr :: string
  reqExecutor :: string
  reqPayload :: string
  reqCatchupPolicy :: string
  reqPartitionKey :: string
  reqEnabled :: "bool option"

definition zero_req :: createJobReq where
  "zero_req = \<lparr>reqID = [], reqName = [], reqCronExpr = [], reqExecutor = [], reqPayload = [],
     reqCatchupPolicy = [], reqPartitionKey = [], reqEnabled = None\<rparr>"

definition set_req_field :: "string \<Rightarrow> json \<Rightarrow> createJobReq \<Rightarrow> createJobReq option" where
  "set_req_field k d r =
     (if k = ''id'' then map_option (\<lambda>v. r\<lparr>reqID := v\<rparr>) (get_string d (reqID r))
      else if k = ''name'' then map_option (\<lambda>v. r\<lparr>reqName := v\<rparr>) (get_string d (reqName r))
      else if k = ''cron_expr'' then map_option (\<lambda>v. r\<lparr>reqCronExpr := v\<rparr>) (get_string d (reqCronExpr r))
      else if k = ''executor'' then map_option (\<lambda>v. r\<lparr>reqExecutor := v\<rparr>) (get_string d (reqExecutor r))
      else if k = ''payload'' then map_option (\<lambda>v. r\<lparr>reqPayload := v\<rparr>) (get_string d (reqPayload r))
      else if k = ''catchup_policy''
        then map_option (\<lambda>v. r\<lparr>reqCatchupPolicy := v\<rparr>) (get_string d (reqCatchupPolicy r))
      else if k = ''partition_key''
        then map_option (\<lambda>v. r\<lparr>reqPartitionKey := v\<rparr>) (get_string d (reqPartitionKey r))
      else if k = ''enabled''
        then map_option (\<lambda>v. r\<lparr>reqEnabled := v\<rparr>) (get_pointer get_bool False d (reqEnabled r))
      else Some r)"

definition decode_req :: "json option \<Rightarrow> createJobReq option" where
  "decode_req body = decode_data (get_struct set_req_field) zero_req body"

definition jobOfReq :: "string \<Rightarrow> time \<Rightarrow> time \<Rightarrow> createJobReq \<Rightarrow> Job" where
  "jobOfReq fresh now nxt req =
     \<lparr>ID = (if reqID req = [] then fresh else reqID req), Name = reqName req, CronExpr = reqCronExpr req,
      Executor = reqExecutor req, Payload = reqPayload req,
      Enabled = (case reqEnabled req of None \<Rightarrow> True | Some b \<Rightarrow> b),
      CatchupPolicy = (if reqCatchupPolicy req = [] then ''skip'' else reqCatchupPolicy req),
      PartitionKey = (if reqPartitionKey req = [] then ''default'' else reqPartitionKey req),
      CreatedAt = now, UpdatedAt = now, Metadata = Some fmempty,
      NextRun = nxt, LastRun = zero_time, LastStatus = []\<rparr>"

text \<open>\<open>now\<close> and \<open>now2\<close> are the two readings of the clock, \<open>fresh\<close> the generated id.\<close>

definition createJob ::
  "(Job \<Rightarrow> 'w \<Rightarrow> (submit_error option \<times> 'w) option) \<Rightarrow> string \<Rightarrow> time \<Rightarrow> time \<Rightarrow> json option \<Rightarrow>
   'w \<Rightarrow> ('w \<times> response) option" where
  "createJob create fresh now now2 body w =
     (case decode_req body of
        None \<Rightarrow> Some (w, writeError 400 InvalidJSON)
      | Some req \<Rightarrow>
          do {
            p \<leftarrow> Parse (reqCronExpr req);
            case p of
              Inl err \<Rightarrow> Some (w, writeError 400 (InvalidCron err))
            | Inr expr \<Rightarrow>
                do {
                  nxt \<leftarrow> Next expr now2;
                  let job = jobOfReq fresh now nxt req;
                  (err, w) \<leftarrow> create job w;
                  Some (w, case err of
                      None \<Rightarrow> writeJSON 201 (job_json job)
                    | Some err \<Rightarrow>
                        if err = ErrNotLeader then writeError 409 NotTheLeader
                        else writeError 500 (SubmitFailed err))
                }
          })"

section \<open>The other handlers\<close>

definition listJobs :: "Store \<Rightarrow> response" where
  "listJobs s =
     writeJSON 200 (map_option (\<lambda>d. JObj [(''jobs'', d)]) (slice_json job_json (Some (GetJobs s))))"

definition getJob :: "string \<Rightarrow> Store \<Rightarrow> response" where
  "getJob i s =
     (case GetJob i s of
        None \<Rightarrow> writeError 404 (NoSuchJob i)
      | Some j \<Rightarrow>
          writeJSON 200
            (do {
               job \<leftarrow> job_json j;
               runs \<leftarrow> slice_json run_json (Some (GetRuns i s));
               Some (JObj [(''job'', job), (''runs'', runs)])
             }))"

definition deleteJob ::
  "('w \<Rightarrow> Store) \<Rightarrow> (string \<Rightarrow> 'w \<Rightarrow> (submit_error option \<times> 'w) option) \<Rightarrow> string \<Rightarrow> 'w \<Rightarrow>
   ('w \<times> response) option" where
  "deleteJob store_of delete i w =
     (if GetJob i (store_of w) = None then Some (w, writeError 404 (NoSuchJob i))
      else
        do {
          (err, w) \<leftarrow> delete i w;
          Some (w, case err of
              None \<Rightarrow> \<lparr>respCode = 204, respBody = NoBody\<rparr>
            | Some err \<Rightarrow>
                if err = ErrNotLeader then writeError 409 NotTheLeader
                else writeError 500 (SubmitFailed err))
        })"

text \<open>\<open>triggerJob\<close> with the firing that it leaves to a goroutine.\<close>

definition triggerJob :: "string \<Rightarrow> time \<Rightarrow> time \<Rightarrow> Store \<Rightarrow> firing option \<times> response" where
  "triggerJob i t1 t2 s =
     (case FireNow i t1 t2 s of
        Inl err \<Rightarrow> (None, writeError 404 (TriggerFailed err))
      | Inr f \<Rightarrow>
          (Some f, writeJSON 202 (Some (JObj [(''status'', JStr ''triggered''), (''job_id'', JStr i)]))))"

definition clusterStatus :: "('c, 's) raft \<Rightarrow> response" where
  "clusterStatus rf =
     (case GetState rf of
        (t, isLeader) \<Rightarrow> writeJSON 200 (Some (JObj [(''term'', JNum t), (''is_leader'', JBool isLeader)])))"

section \<open>Routes\<close>

datatype endpoint =
    CreateJobEP
  | ListJobsEP
  | GetJobEP string
  | DeleteJobEP string
  | TriggerJobEP string
  | ClusterStatusEP
  | MethodNotAllowed
  | NotFound

text \<open>The mux of \<open>New\<close> on the segments of a clean path; a GET pattern also takes HEAD.\<close>

definition routes :: "string \<Rightarrow> string list \<Rightarrow> endpoint" where
  "routes method path =
     (let get = (method = ''GET'' \<or> method = ''HEAD'') in
      case path of
        [a] \<Rightarrow>
          if a = ''jobs'' then (if method = ''POST'' then CreateJobEP else if get then ListJobsEP else MethodNotAllowed)
          else if a = ''cluster'' then (if get then ClusterStatusEP else MethodNotAllowed)
          else NotFound
      | [a, i] \<Rightarrow>
          if a = ''jobs''
          then (if get then GetJobEP i else if method = ''DELETE'' then DeleteJobEP i else MethodNotAllowed)
          else NotFound
      | [a, i, t] \<Rightarrow>
          if a = ''jobs'' \<and> t = ''trigger''
          then (if method = ''POST'' then TriggerJobEP i else MethodNotAllowed)
          else NotFound
      | _ \<Rightarrow> NotFound)"

section \<open>The handlers on a node\<close>

definition worldCreate :: "time \<Rightarrow> Job \<Rightarrow> world \<Rightarrow> (submit_error option \<times> world) option" where
  "worldCreate now job w = worldSubmit OpCreateJob (job_json (createArgs now job)) w"

definition worldDelete :: "string \<Rightarrow> world \<Rightarrow> (submit_error option \<times> world) option" where
  "worldDelete i w = worldSubmit OpDeleteJob (job_json (zero_job\<lparr>ID := i\<rparr>)) w"

lemma created_job_ok:
  assumes "time_ok now" and "time_ok nxt" and "time_ok now3"
  shows "job_times_ok (createArgs now3 (jobOfReq fresh now nxt req))"
  using assms zero_time_ok by (simp add: job_times_ok_def createArgs_def jobOfReq_def Let_def normalizeJob_eq)

definition normal_job :: "Job \<Rightarrow> bool" where
  "normal_job j \<longleftrightarrow> \<not> IsZero (CreatedAt j) \<and> CatchupPolicy j \<noteq> [] \<and> PartitionKey j \<noteq> [] \<and> Metadata j \<noteq> None"

lemma normalizeJob_id: "normal_job j \<Longrightarrow> normalizeJob j = j"
  by (simp add: normalizeJob_eq normal_job_def)

lemma createArgs_normal: "normal_job j \<Longrightarrow> createArgs now j = j\<lparr>UpdatedAt := now\<rparr>"
  using normalizeJob_id [of "j\<lparr>UpdatedAt := now\<rparr>"] by (simp add: createArgs_def Let_def normal_job_def)

lemma put_job_normal:
  assumes "normal_job j"
  shows "\<exists>u. GetJob (ID j) (put_job t j s) = Some (j\<lparr>UpdatedAt := u\<rparr>)"
proof -
  have "GetJob (ID j) (put_job t j s) = Some (if IsZero (UpdatedAt j) then j\<lparr>UpdatedAt := t\<rparr> else j)"
    using assms by (simp add: GetJob_def put_job_def normalizeJob_id normal_job_def Let_def split: option.splits)
  moreover have "j = j\<lparr>UpdatedAt := UpdatedAt j\<rparr>" by simp
  ultimately show ?thesis by metis
qed

lemma created_job_stored:
  fixes req :: createJobReq and fresh :: string
  assumes "\<not> IsZero now" and "whole_hours (toff now)" and "whole_hours (toff nxt)"
  defines "j \<equiv> jobOfReq fresh now nxt req"
  shows "\<exists>j'. GetJob (ID j) (put_job t (rfc_job (createArgs now3 j)) s) = Some j' \<and> j'\<lparr>UpdatedAt := now\<rparr> = j"
proof -
  have n: "normal_job j" "UpdatedAt j = now" using assms(1) by (simp_all add: normal_job_def j_def jobOfReq_def)
  have "rfc3339 (CreatedAt j) = CreatedAt j" "rfc3339 (NextRun j) = NextRun j" "rfc3339 (LastRun j) = LastRun j"
    using assms(2,3) whole_hours_rfc3339 by (simp_all add: j_def jobOfReq_def whole_hours_def zero_time_def)
  then have r: "rfc_job (createArgs now3 j) = j\<lparr>UpdatedAt := rfc3339 now3\<rparr>"
    unfolding createArgs_normal [OF n(1)] by (cases j) (simp add: rfc_job_def)
  have "normal_job (j\<lparr>UpdatedAt := rfc3339 now3\<rparr>)" using n(1) by (simp add: normal_job_def)
  from put_job_normal [OF this, of t s] n(2) r show ?thesis by auto
qed


definition demo_body :: json where
  "demo_body = JObj [(''id'', JStr ''a''), (''name'', JStr ''quotes''), (''cron_expr'', JStr ''0 9 * * 1''),
     (''executor'', JStr ''shell''), (''payload'', JStr ''echo hi''), (''enabled'', JBool False)]"

definition demo_req :: createJobReq where
  "demo_req = zero_req\<lparr>reqID := ''a'', reqName := ''quotes'', reqCronExpr := ''0 9 * * 1'', reqExecutor := ''shell'',
     reqPayload := ''echo hi'', reqEnabled := Some False\<rparr>"

definition demo_expr :: Expression where
  "demo_expr = \<lparr>second = 0, minute = 1, hour = 512, dayOfMonth = 4294967294, month = 8190, dayOfWeek = 2\<rparr>"

lemma demo_body_request:
  "decode_req (Some demo_body) = Some demo_req" "Parse (reqCronExpr demo_req) = Some (Inr demo_expr)"
  "Next demo_expr demo_time = Some demo_next" "whole_hours (toff demo_next)" "\<not> IsZero demo_time"
  by code_simp+


section \<open>Errors\<close>

lemma worldSubmit_follower:
  assumes "role (nRaft (wNode w)) \<noteq> Leader" and "data \<noteq> None"
  shows "worldSubmit op data w = Some (Some ErrNotLeader, w)"
  using assms by (auto simp: worldSubmit_def nodeSubmit_def submitStart_def Start_def)

text \<open>
  C29. The errors of the API change nothing: a body without a request and a bad cron expression
  answer 400, an unknown job answers 404 to a GET, a DELETE and a trigger, and a follower answers
  409 to a valid POST and to the DELETE of a known job.
\<close>

theorem api_errors:
  "(decode_req body = None \<longrightarrow>
      createJob (worldCreate now3) fresh now now2 body w = Some (w, writeError 400 InvalidJSON))
   \<and> (decode_req body = Some req \<and> Parse (reqCronExpr req) = Some (Inl err) \<longrightarrow>
      createJob (worldCreate now3) fresh now now2 body w = Some (w, writeError 400 (InvalidCron err)))
   \<and> (decode_req body = Some req \<and> Parse (reqCronExpr req) = Some (Inr e) \<and> Next e now2 = Some nxt
        \<and> time_ok now \<and> time_ok nxt \<and> time_ok now3 \<and> role (nRaft (wNode w)) \<noteq> Leader \<longrightarrow>
      createJob (worldCreate now3) fresh now now2 body w = Some (w, writeError 409 NotTheLeader))
   \<and> (GetJob i (worldStore w) = None \<longrightarrow>
      respCode (getJob i (worldStore w)) = 404
      \<and> deleteJob worldStore worldDelete i w = Some (w, writeError 404 (NoSuchJob i))
      \<and> triggerJob i now now2 (worldStore w) = (None, writeError 404 (TriggerFailed (JobNotFound i))))
   \<and> (GetJob i (worldStore w) \<noteq> None \<and> role (nRaft (wNode w)) \<noteq> Leader \<longrightarrow>
      deleteJob worldStore worldDelete i w = Some (w, writeError 409 NotTheLeader))"
proof (intro conjI impI)
  assume a: "decode_req body = Some req \<and> Parse (reqCronExpr req) = Some (Inr e) \<and> Next e now2 = Some nxt
      \<and> time_ok now \<and> time_ok nxt \<and> time_ok now3 \<and> role (nRaft (wNode w)) \<noteq> Leader"
  then have "job_json (createArgs now3 (jobOfReq fresh now nxt req)) \<noteq> None"
    using job_json_total [OF created_job_ok] by fastforce
  with a show "createJob (worldCreate now3) fresh now now2 body w = Some (w, writeError 409 NotTheLeader)"
    using worldSubmit_follower [of w] by (simp add: createJob_def worldCreate_def)
next
  assume a: "GetJob i (worldStore w) \<noteq> None \<and> role (nRaft (wNode w)) \<noteq> Leader"
  have "job_json (zero_job\<lparr>ID := i\<rparr>) \<noteq> None"
    using job_json_total [of "zero_job\<lparr>ID := i\<rparr>"] zero_time_ok by (auto simp: job_times_ok_def zero_job_def)
  with a show "deleteJob worldStore worldDelete i w = Some (w, writeError 409 NotTheLeader)"
    using worldSubmit_follower [of w] by (auto simp: deleteJob_def worldDelete_def)
qed (simp_all add: createJob_def getJob_def deleteJob_def triggerJob_def FireNow_def writeError_def)

theorem api_errors_witness:
  "decode_req None = None
   \<and> createJob (worldCreate demo_time) ''f'' demo_time demo_time None demo_world
     = Some (demo_world, writeError 400 InvalidJSON)
   \<and> deleteJob worldStore worldDelete ''ghost'' demo_world = Some (demo_world, writeError 404 (NoSuchJob ''ghost''))"
proof -
  have "decode_req None = None" by (simp add: decode_req_def decode_data_def)
  moreover have "GetJob ''ghost'' (worldStore demo_world) = None"
    by (simp add: GetJob_def worldStore_def demo_world_def demo_node_def empty_store_def)
  ultimately show ?thesis
    using api_errors [of None demo_time "''f''" demo_time demo_time demo_world] by auto
qed

text \<open>
  \<open>POST /jobs/{id}/trigger\<close> promises more than it does: it answers 202 for every known job, but when
  a run of the job is on record for the current minute, the firing that it starts does nothing.
\<close>

theorem trigger_accepts_without_running:
  assumes "GetJob i (worldStore w) = Some j" and "ID j = i"
    and "r \<in> set (st_runs (worldStore w))" and "IdempotencyKey r = RunIdempotencyKey i t0"
    and "tns t1 div nsMinute = tns t0 div nsMinute"
  shows "\<exists>resp. triggerJob i t1 t2 (worldStore w) = (Some (j, t1, t2), resp) \<and> respCode resp = 202
    \<and> worldFire ext brokers ck j t1 t2 w = Some w"
  using assms runner.fireJob_again [OF assms(3), of j t0 j t1 ext brokers ck t2]
  by (simp add: triggerJob_def FireNow_def writeJSON_def)

definition demo_ran_world :: world where
  "demo_ran_world =
     demo_missed_world\<lparr>wNode := (wNode demo_missed_world)\<lparr>nStore :=
       upsertRun demo_time (demo_run\<lparr>IdempotencyKey := RunIdempotencyKey ''a'' demo_time\<rparr>) (worldStore demo_missed_world)\<rparr>\<rparr>"

theorem trigger_accepts_without_running_witness:
  "\<exists>j resp. triggerJob ''a'' demo_time demo_time (worldStore demo_ran_world) = (Some (j, demo_time, demo_time), resp)
     \<and> respCode resp = 202
     \<and> worldFire demo_outside [] demo_clock j demo_time demo_time demo_ran_world = Some demo_ran_world"
proof -
  let ?r = "demo_run\<lparr>IdempotencyKey := RunIdempotencyKey ''a'' demo_time\<rparr>"
  have s: "worldStore demo_ran_world = upsertRun demo_time ?r (worldStore demo_missed_world)"
    by (simp add: demo_ran_world_def worldStore_def)
  have "IdempotencyKey ?r \<noteq> []" using length_RunIdempotencyKey [of "''a''" demo_time] by auto
  from upsertRun_record [OF this, of demo_time "worldStore demo_missed_world"] obtain m where
    m: "m \<in> set (st_runs (worldStore demo_ran_world))" "IdempotencyKey m = RunIdempotencyKey ''a'' demo_time"
    by (auto simp: s)
  have ok: "store_ok (worldStore demo_ran_world)"
    unfolding s using demo_missed_world_ok demo_run_ok
    by (intro upsertRun_ok) (auto simp: node_ok_def worldStore_def run_ok_def run_ints_ok_def)
  obtain j where j: "GetJob ''a'' (worldStore demo_ran_world) = Some j"
    using upsertRun_NextRun [of "''a''" demo_time ?r "worldStore demo_missed_world"] demo_missed_job s
    by (metis map_option_eq_Some)
  have "ID j = ''a''" using ok j by (auto simp: store_ok_def job_ok_def GetJob_def)
  from trigger_accepts_without_running [OF j this m refl, of demo_time demo_outside "[]" demo_clock] show ?thesis by blast
qed

end
