(* ===== verification/Api_Http.thy ===== *)
theory Api_Http
  imports Api_Server
begin

text \<open>
  The HTTP server around the handlers, \<open>internal/api/server.go\<close> and \<open>middleware.go\<close>: the mux that picks
  the handler of a request, the ids that \<open>generateID\<close> makes, and the middleware that writes a line
  per request. A request is its method, the segments of its clean path, and its body.
\<close>

record request =
  rqMethod :: string
  rqPath :: "string list"
  rqBody :: "json option"

text \<open>What one request reads from outside: eight random bytes, and the clock at each of its readings.\<close>

record request_env =
  reRandom :: "int list"
  reNow :: time
  reNow2 :: time
  reNow3 :: time

definition generateID :: "int list \<Rightarrow> string" where
  "generateID b = EncodeToString b"

text \<open>The handler of the mux; the second component is the firing that a trigger leaves to a goroutine.\<close>

definition serveMux :: "request_env \<Rightarrow> request \<Rightarrow> world \<Rightarrow> (world \<times> firing option \<times> response) option" where
  "serveMux en r w =
     (case routes (rqMethod r) (rqPath r) of
        CreateJobEP \<Rightarrow>
          map_option (\<lambda>(w, resp). (w, None, resp))
            (createJob (worldCreate (reNow3 en)) (generateID (reRandom en)) (reNow en) (reNow2 en) (rqBody r) w)
      | ListJobsEP \<Rightarrow> Some (w, None, listJobs (worldStore w))
      | GetJobEP i \<Rightarrow> Some (w, None, getJob i (worldStore w))
      | DeleteJobEP i \<Rightarrow> map_option (\<lambda>(w, resp). (w, None, resp)) (deleteJob worldStore worldDelete i w)
      | TriggerJobEP i \<Rightarrow> (case triggerJob i (reNow en) (reNow2 en) (worldStore w) of (f, resp) \<Rightarrow> Some (w, f, resp))
      | ClusterStatusEP \<Rightarrow> Some (w, None, clusterStatus (nRaft (wNode w)))
      | MethodNotAllowed \<Rightarrow> Some (w, None, \<lparr>respCode = 405, respBody = NoBody\<rparr>)
      | NotFound \<Rightarrow> Some (w, None, \<lparr>respCode = 404, respBody = NoBody\<rparr>))"

text \<open>\<open>logging\<close>: the handler, and a line with the method, the path and the time since its start.\<close>

definition logging ::
  "(request \<Rightarrow> 'w \<Rightarrow> 'r option) \<Rightarrow> int \<Rightarrow> int \<Rightarrow> request \<Rightarrow> 'w \<Rightarrow> ('r \<times> (string \<times> string list \<times> int)) option" where
  "logging next start finish r w = map_option (\<lambda>res. (res, rqMethod r, rqPath r, finish - start)) (next r w)"

record http_server =
  srvAddr :: string
  srvHandler :: "request_env \<Rightarrow> int \<Rightarrow> int \<Rightarrow> request \<Rightarrow> world
    \<Rightarrow> ((world \<times> firing option \<times> response) \<times> (string \<times> string list \<times> int)) option"
  ReadTimeout :: int
  WriteTimeout :: int

definition New :: "string \<Rightarrow> http_server" where
  "New a = \<lparr>srvAddr = a, srvHandler = (\<lambda>en. logging (serveMux en)), ReadTimeout = 10 * 1000000000, WriteTimeout = 10 * 1000000000\<rparr>"

section \<open>What a request may change\<close>

definition writes :: "request \<Rightarrow> bool" where
  "writes r \<longleftrightarrow> rqMethod r = ''POST'' \<and> rqPath r = [''jobs''] \<or> rqMethod r = ''DELETE'' \<and> (\<exists>i. rqPath r = [''jobs'', i])"

lemma routes_writes:
  "routes m p = CreateJobEP \<longleftrightarrow> m = ''POST'' \<and> p = [''jobs'']"
  "routes m p = DeleteJobEP i \<longleftrightarrow> m = ''DELETE'' \<and> p = [''jobs'', i]"
  "routes m p = TriggerJobEP i \<longleftrightarrow> m = ''POST'' \<and> p = [''jobs'', i, ''trigger'']"
  by (auto simp: routes_def Let_def split: list.splits if_splits)

text \<open>
  C22. The served API: a request other than a POST to the jobs or a DELETE of a job never panics and
  leaves the node as it is; only the POST of a trigger for a stored job starts a firing, of that
  job and no other; and the middleware changes no answer.
\<close>

theorem http_read_only:
  shows "(\<not> writes r \<longrightarrow> (\<exists>f resp. serveMux en r w = Some (w, f, resp)))
    \<and> (serveMux en r w = Some (w', Some f, resp) \<longrightarrow>
         (\<exists>i. rqMethod r = ''POST'' \<and> rqPath r = [''jobs'', i, ''trigger''] \<and> GetJob i (worldStore w) = Some (fst f)
            \<and> w' = w \<and> respCode resp = 202))
    \<and> map_option fst (srvHandler (New a) en start finish r w) = serveMux en r w"
proof (intro conjI impI)
  assume "\<not> writes r"
  then show "\<exists>f resp. serveMux en r w = Some (w, f, resp)"
    by (auto simp: writes_def serveMux_def routes_writes split: endpoint.split prod.split)
next
  assume a: "serveMux en r w = Some (w', Some f, resp)"
  then obtain i where "routes (rqMethod r) (rqPath r) = TriggerJobEP i"
    by (auto simp: serveMux_def split: endpoint.splits)
  with a show "\<exists>i. rqMethod r = ''POST'' \<and> rqPath r = [''jobs'', i, ''trigger''] \<and> GetJob i (worldStore w) = Some (fst f)
      \<and> w' = w \<and> respCode resp = 202"
    by (auto simp: serveMux_def triggerJob_def FireNow_def writeJSON_def routes_writes split: option.splits)
next
  show "map_option fst (srvHandler (New a) en start finish r w) = serveMux en r w"
    by (cases "serveMux en r w") (simp_all add: New_def logging_def)
qed

definition demo_request_env :: request_env where
  "demo_request_env = \<lparr>reRandom = [1, 2, 3, 4, 5, 6, 7, 8], reNow = demo_time, reNow2 = demo_time, reNow3 = demo_time\<rparr>"

theorem http_read_only_witness:
  "\<exists>resp. serveMux demo_request_env \<lparr>rqMethod = ''GET'', rqPath = [''cluster''], rqBody = None\<rparr> demo_world = Some (demo_world, None, resp)
     \<and> respCode resp = 200"
proof -
  let ?r = "\<lparr>rqMethod = ''GET'', rqPath = [''cluster''], rqBody = None\<rparr>"
  have "\<not> writes ?r" by (simp add: writes_def)
  then obtain f resp where s: "serveMux demo_request_env ?r demo_world = Some (demo_world, f, resp)" using http_read_only by blast
  have "routes ''GET'' [''cluster''] = ClusterStatusEP" by code_simp
  with s show ?thesis by (auto simp: serveMux_def clusterStatus_def writeJSON_def split: prod.splits)
qed

end
