(* ===== verification/Raft_Rpc.thy ===== *)
theory Raft_Rpc
  imports Raft_Cluster
begin

text \<open>
  The transport, \<open>internal/raft/rpc.go\<close>: \<open>Peer.Call\<close> over \<open>net/rpc\<close>, the adapter that the daemon
  registers under the name \<open>Raft\<close>, the goroutines around the calls, and the heartbeat loop. What a
  TCP connection does to one call is a value of \<open>fate\<close>. The theorem shows that the transport does
  nothing that \<open>cluster_step\<close> has no step for.
\<close>

section \<open>The adapter and the server\<close>

datatype rpc_error = UnknownMethod string | WrongArguments string

datatype ('c, 's) rpc_args =
    VoteArgs RequestVoteArgs
  | AppendArgs "'c AppendEntriesArgs"
  | SnapshotArgs "'s InstallSnapshotArgs"

datatype rpc_reply =
    VoteResult RequestVoteReply
  | AppendResult AppendEntriesReply
  | SnapshotResult InstallSnapshotReply

text \<open>The three methods of the adapter never return an error: the last component is \<open>nil\<close>.\<close>

definition adapterRequestVote ::
  "RequestVoteArgs \<Rightarrow> int \<Rightarrow> ('c, 's) raft \<Rightarrow> (('c, 's) raft \<times> RequestVoteReply \<times> rpc_error option) option" where
  "adapterRequestVote args now rf = map_option (\<lambda>(rf', reply). (rf', reply, None)) (RequestVote args now rf)"

definition adapterAppendEntries ::
  "'c AppendEntriesArgs \<Rightarrow> int \<Rightarrow> ('c, 's) raft \<Rightarrow> (('c, 's) raft \<times> AppendEntriesReply \<times> rpc_error option) option" where
  "adapterAppendEntries args now rf = map_option (\<lambda>(rf', reply). (rf', reply, None)) (AppendEntries args now rf)"

definition adapterInstallSnapshot ::
  "'s InstallSnapshotArgs \<Rightarrow> int \<Rightarrow> ('c, 's) raft \<Rightarrow> (('c, 's) raft \<times> InstallSnapshotReply \<times> rpc_error option) option" where
  "adapterInstallSnapshot args now rf = map_option (\<lambda>(rf', reply). (rf', reply, None)) (InstallSnapshot args now rf)"

text \<open>
  The server of \<open>net/rpc\<close> with the adapter registered under \<open>Raft\<close>: it finds the method by its name.
  \<open>None\<close> is a panic of the handler, which ends the process that serves it.
\<close>

fun answer_call :: "('r \<Rightarrow> rpc_reply) \<Rightarrow> ('c, 's) raft \<times> 'r \<times> rpc_error option \<Rightarrow> ('c, 's) raft \<times> (rpc_error + rpc_reply)" where
  "answer_call res (rf, reply, None) = (rf, Inr (res reply))"
| "answer_call res (rf, reply, Some err) = (rf, Inl err)"

definition serve ::
  "string \<Rightarrow> ('c, 's) rpc_args \<Rightarrow> int \<Rightarrow> ('c, 's) raft \<Rightarrow> (('c, 's) raft \<times> (rpc_error + rpc_reply)) option" where
  "serve method args now rf =
     (if method = ''Raft.RequestVote'' then
        (case args of VoteArgs a \<Rightarrow> map_option (answer_call VoteResult) (adapterRequestVote a now rf)
         | _ \<Rightarrow> Some (rf, Inl (WrongArguments method)))
      else if method = ''Raft.AppendEntries'' then
        (case args of AppendArgs a \<Rightarrow> map_option (answer_call AppendResult) (adapterAppendEntries a now rf)
         | _ \<Rightarrow> Some (rf, Inl (WrongArguments method)))
      else if method = ''Raft.InstallSnapshot'' then
        (case args of SnapshotArgs a \<Rightarrow> map_option (answer_call SnapshotResult) (adapterInstallSnapshot a now rf)
         | _ \<Rightarrow> Some (rf, Inl (WrongArguments method)))
      else Some (rf, Inl (UnknownMethod method)))"

section \<open>Calls\<close>

record Peer =
  addr :: string

definition NewPeer :: "string \<Rightarrow> Peer" where
  "NewPeer a = \<lparr>addr = a\<rparr>"

text \<open>What happens to one call on its way. \<open>listening\<close> says which process listens at an address.\<close>

datatype fate = DialFails | RequestLost | ReplyLost | Answered

definition Call ::
  "(string \<rightharpoonup> nat) \<Rightarrow> fate \<Rightarrow> int \<Rightarrow> Peer \<Rightarrow> string \<Rightarrow> ('c, 's) rpc_args \<Rightarrow> (nat \<Rightarrow> ('c, 's) raft)
   \<Rightarrow> ((nat \<Rightarrow> ('c, 's) raft) \<times> rpc_reply option \<times> bool) option" where
  "Call listening f now p method args ns =
     (case listening (addr p) of
        None \<Rightarrow> Some (ns, None, False)
      | Some v \<Rightarrow>
          if f = DialFails \<or> f = RequestLost then Some (ns, None, False)
          else do {
            (rf, result) \<leftarrow> serve method args now (ns v);
            Some (case result of
                Inl err \<Rightarrow> (ns(v := rf), None, False)
              | Inr reply \<Rightarrow> if f = ReplyLost then (ns(v := rf), None, False) else (ns(v := rf), Some reply, True))
          })"

definition sendRequestVote ::
  "(string \<rightharpoonup> nat) \<Rightarrow> fate \<Rightarrow> int \<Rightarrow> Peer list \<Rightarrow> nat \<Rightarrow> RequestVoteArgs \<Rightarrow> (nat \<Rightarrow> ('c, 's) raft)
   \<Rightarrow> ((nat \<Rightarrow> ('c, 's) raft) \<times> rpc_reply option \<times> bool) option" where
  "sendRequestVote listening f now peers server args ns =
     do {
       p \<leftarrow> go_nth peers (int server);
       Call listening f now p ''Raft.RequestVote'' (VoteArgs args) ns
     }"

text \<open>
  The heartbeat loop: each element is one iteration, with the result of \<open>killed\<close>, the peer when the
  loop looks at its role, and the peer when \<open>sendHeartbeats\<close> takes the lock again.
\<close>

fun heartbeatLoop :: "(bool \<times> ('c, 's) raft \<times> ('c, 's) raft) list \<Rightarrow> (int \<times> int) list" where
  "heartbeatLoop [] = []"
| "heartbeatLoop ((killed, rf, rf') # later) =
     (if killed then [] else if role rf \<noteq> Leader then [] else sendHeartbeats rf' # heartbeatLoop later)"

lemma heartbeatLoop_stops:
  assumes "killed \<or> role rf \<noteq> Leader"
  shows "heartbeatLoop (before @ (killed, rf, rf') # later) = heartbeatLoop before"
  using assms by (induction before) auto

section \<open>The transport and the network of the cluster\<close>

text \<open>The call that carries a request of the cluster, and the message of the cluster for its answer.\<close>

fun call_of :: "('c, 's) message \<Rightarrow> (nat \<times> string \<times> ('c, 's) rpc_args) option" where
  "call_of (VoteRequest i p args) = Some (p, ''Raft.RequestVote'', VoteArgs args)"
| "call_of (AppendRequest i p t args) = Some (p, ''Raft.AppendEntries'', AppendArgs args)"
| "call_of (SnapshotRequest i p args) = Some (p, ''Raft.InstallSnapshot'', SnapshotArgs args)"
| "call_of _ = None"

fun answer_of :: "('c, 's) message \<Rightarrow> rpc_reply \<Rightarrow> ('c, 's) message option" where
  "answer_of (VoteRequest i p args) (VoteResult r) = Some (VoteReply p i (rvTerm args) r)"
| "answer_of (AppendRequest i p t args) (AppendResult r) = Some (AppendReply p i t args r)"
| "answer_of (SnapshotRequest i p args) (SnapshotResult r) = Some (SnapshotReply p i args r)"
| "answer_of _ _ = None"

text \<open>Serving a request under way is one step of the cluster, which sends the answer.\<close>

lemma serve_step:
  assumes "m \<in> net cl" and "call_of m = Some (p, method, args)" and "serve method args now (nodes cl p) = Some (rf, result)"
  shows "\<exists>reply a. result = Inr reply \<and> answer_of m reply = Some a
    \<and> cluster_step n cl (transmit {a} (update_node p rf cl))"
  using assms
  by (cases m)
    (auto simp: serve_def adapterRequestVote_def adapterAppendEntries_def adapterInstallSnapshot_def,
      (metis cluster_step.vote cluster_step.append cluster_step.install)+)

text \<open>
  C17. The transport refines the network of the cluster: a call for a request under way, with every
  peer listening at the address that the configuration gives it, returns true exactly when it is
  answered, runs the handler at most once, at the addressed peer, and what it does to the peers is
  no step or one step of the cluster; a reply that the caller gets is the answer to its request.
\<close>

theorem transport_refines_network:
  assumes "\<forall>q < n. listening (addr (peers ! q)) = Some q" and "m \<in> net cl"
    and "call_of m = Some (p, method, args)" and "p < n"
    and "Call listening f now (peers ! p) method args (nodes cl) = Some (ns, reply, ok)"
  shows "(ok \<longleftrightarrow> f = Answered) \<and> (ok \<longleftrightarrow> reply \<noteq> None)
    \<and> (\<exists>cl'. nodes cl' = ns \<and> elections cl' = elections cl \<and> rounds cl' = rounds cl \<and> net cl \<subseteq> net cl'
         \<and> (if f = DialFails \<or> f = RequestLost then cl' = cl else cluster_step n cl cl')
         \<and> (\<forall>r. reply = Some r \<longrightarrow> (\<exists>a \<in> net cl'. answer_of m r = Some a)))"
proof (cases "f = DialFails \<or> f = RequestLost")
  case True
  then show ?thesis using assms(1,4,5) by (auto simp: Call_def intro: exI [of _ cl])
next
  case False
  then obtain rf result where r: "serve method args now (nodes cl p) = Some (rf, result)"
    "(ns, reply, ok) = (case result of Inl err \<Rightarrow> ((nodes cl)(p := rf), None, False)
      | Inr reply \<Rightarrow> if f = ReplyLost then ((nodes cl)(p := rf), None, False) else ((nodes cl)(p := rf), Some reply, True))"
    using assms(1,4,5) by (auto simp: Call_def bind_eq_Some_conv)
  obtain rep a where a: "result = Inr rep" "answer_of m rep = Some a"
    "cluster_step n cl (transmit {a} (update_node p rf cl))"
    using serve_step [OF assms(2,3) r(1)] by blast
  then have "ns = (nodes cl)(p := rf)" "ok \<longleftrightarrow> f \<noteq> ReplyLost" "reply = (if f = ReplyLost then None else Some rep)"
    using r(2) by (auto split: if_splits)
  with False a show ?thesis
    by (cases f) (auto intro!: exI [of _ "transmit {a} (update_node p rf cl)"])
qed

text \<open>The calls of a cluster of three peers, one of which has just become a candidate.\<close>

definition demo_peers :: "Peer list" where
  "demo_peers = map NewPeer [''h1:8001'', ''h2:8001'', ''h3:8001'']"

definition demo_listening :: "string \<rightharpoonup> nat" where
  "demo_listening = [''h1:8001'' \<mapsto> 0, ''h2:8001'' \<mapsto> 1, ''h3:8001'' \<mapsto> 2]"

definition demo_ask :: RequestVoteArgs where
  "demo_ask = \<lparr>rvTerm = 1, CandidateId = 0, LastLogIndex = 0, LastLogTerm = 0\<rparr>"

definition demo_asking :: "(nat, nat) cluster" where
  "demo_asking = transmit {VoteRequest 0 1 demo_ask} (initial 3 0)"

theorem transport_refines_network_witness:
  "\<exists>ns cl'. Call demo_listening Answered 5 (demo_peers ! 1) ''Raft.RequestVote'' (VoteArgs demo_ask) (nodes demo_asking)
      = Some (ns, Some (VoteResult \<lparr>rvrTerm = 0, VoteGranted = True\<rparr>), True)
    \<and> nodes cl' = ns \<and> cluster_step 3 demo_asking cl'
    \<and> VoteReply 1 0 1 \<lparr>rvrTerm = 0, VoteGranted = True\<rparr> \<in> net cl'"
proof -
  have "map_option snd (serve ''Raft.RequestVote'' (VoteArgs demo_ask) 5 (Make 3 1 MakePersister 0 :: (nat, nat) raft))
      = Some (Inr (VoteResult \<lparr>rvrTerm = 0, VoteGranted = True\<rparr>))" by code_simp
  then obtain rf where "serve ''Raft.RequestVote'' (VoteArgs demo_ask) 5 (Make 3 1 MakePersister 0 :: (nat, nat) raft)
      = Some (rf, Inr (VoteResult \<lparr>rvrTerm = 0, VoteGranted = True\<rparr>))" by auto
  then obtain ns where c: "Call demo_listening Answered 5 (demo_peers ! 1) ''Raft.RequestVote'' (VoteArgs demo_ask) (nodes demo_asking)
      = Some (ns, Some (VoteResult \<lparr>rvrTerm = 0, VoteGranted = True\<rparr>), True)"
    by (simp add: Call_def demo_listening_def demo_peers_def NewPeer_def demo_asking_def initial_def)
  have "\<forall>q < 3. demo_listening (addr (demo_peers ! q)) = Some q"
    by (auto simp: demo_listening_def demo_peers_def NewPeer_def less_Suc_eq numeral_3_eq_3)
  from transport_refines_network [OF this, of "VoteRequest 0 1 demo_ask" demo_asking, OF _ _ _ c] c
  show ?thesis by (auto simp: demo_asking_def demo_ask_def)
qed

end
