(* ===== verification/Crond.thy ===== *)
theory Crond
  imports Api_Http Raft_Rpc
begin

text \<open>
  The daemon, \<open>cmd/crond/main.go\<close>: its configuration from the environment, the construction of the
  persister, the Raft peer and the store, and the wait for leadership before the reconciliation.
  \<open>log.Fatalf\<close> is an error value. The listener and the signals are outside: whether listening fails is an
  argument, and a signal is the call of \<open>shutdown\<close>.
\<close>

section \<open>Configuration\<close>

datatype config_error =
    EnvRequired string
  | MENotInteger string
  | MEOutOfRange int nat

record config =
  cBindAddr :: string
  cPeers :: "string list"
  cMe :: nat
  cApiAddr :: string
  cDataDir :: string

definition mustEnv :: "(string \<Rightarrow> string) \<Rightarrow> string \<Rightarrow> config_error + string" where
  "mustEnv env key = (if env key = [] then Inl (EnvRequired key) else Inr (env key))"

definition parseConfig :: "(string \<Rightarrow> string) \<Rightarrow> config_error + config" where
  "parseConfig env =
     (case mustEnv env ''BIND_ADDR'' of Inl err \<Rightarrow> Inl err | Inr bindAddr \<Rightarrow>
      case mustEnv env ''PEERS'' of Inl err \<Rightarrow> Inl err | Inr peersEnv \<Rightarrow>
      case mustEnv env ''ME'' of Inl err \<Rightarrow> Inl err | Inr meStr \<Rightarrow>
      case atoi meStr of
        None \<Rightarrow> Inl (MENotInteger meStr)
      | Some self \<Rightarrow>
          (let peers = map trim_space (str_split CHR '','' peersEnv) in
           if self < 0 \<or> self \<ge> int (length peers) then Inl (MEOutOfRange self (length peers))
           else Inr \<lparr>cBindAddr = bindAddr, cPeers = peers, cMe = nat self,
                     cApiAddr = env ''API_ADDR'', cDataDir = env ''RAFT_DATA_DIR''\<rparr>))"

section \<open>Start\<close>

text \<open>\<open>mkdirFails\<close>, \<open>readFails\<close> and \<open>d\<close> describe the data directory; \<open>None\<close> is the exit of \<open>log.Fatalf\<close>.\<close>

definition boot ::
  "config \<Rightarrow> bool \<Rightarrow> bool \<Rightarrow> (raw, json) dir \<Rightarrow> int \<Rightarrow> (job_raft \<times> Store) option" where
  "boot c mkdirFails readFails d now =
     do {
       ps \<leftarrow> (if cDataDir c \<noteq> [] then MakeFilePersister mkdirFails readFails d else Some MakePersister);
       Some (Make (length (cPeers c)) (cMe c) ps now, NewStore (Some ps))
     }"

text \<open>
  The goroutine that waits for leadership: each element is what one round of its loop sees. It
  reconciles at the first round in which the peer leads, and ends.
\<close>

fun reconcileOnLeader :: "(job_raft \<times> time \<times> Store) list \<Rightarrow> reconcile_action list" where
  "reconcileOnLeader [] = []"
| "reconcileOnLeader ((rf, now, s) # later) =
     (if snd (GetState rf) then ReconcileMissedJobs now s else reconcileOnLeader later)"

text \<open>
  \<open>main\<close> up to the wait for a signal: the daemon that runs then. The registration of the adapter on a
  new server cannot fail.
\<close>

datatype fatal =
    BadConfig config_error
  | ListenFailed string
  | DataDirFailed string

record daemon =
  dPeers :: "Peer list"
  dRaft :: job_raft
  dStore :: Store
  dScheduler :: scheduler
  dExec :: Dispatcher
  dApi :: "http_server option"

definition main :: "(string \<Rightarrow> string) \<Rightarrow> bool \<Rightarrow> bool \<Rightarrow> bool \<Rightarrow> (raw, json) dir \<Rightarrow> int \<Rightarrow> fatal + daemon" where
  "main env listenFails mkdirFails readFails d now =
     (case parseConfig env of
        Inl err \<Rightarrow> Inl (BadConfig err)
      | Inr c \<Rightarrow>
          if listenFails then Inl (ListenFailed (cBindAddr c))
          else (case boot c mkdirFails readFails d now of
              None \<Rightarrow> Inl (DataDirFailed (cDataDir c))
            | Some (rf, st) \<Rightarrow>
                Inr \<lparr>dPeers = map NewPeer (cPeers c), dRaft = rf, dStore = st, dScheduler = MakeScheduler,
                     dExec = NewDispatcher (env ''KAFKA_BROKERS''),
                     dApi = (if cApiAddr c \<noteq> [] then Some (New (cApiAddr c)) else None)\<rparr>))"

definition shutdown :: "daemon \<Rightarrow> daemon option" where
  "shutdown d =
     do {
       sc \<leftarrow> KillScheduler (dScheduler d);
       Some (d\<lparr>dScheduler := sc, dRaft := Kill (dRaft d)\<rparr>)
     }"

section \<open>What is started\<close>

lemma parseConfig_iff:
  "(\<exists>c. parseConfig env = Inr c) \<longleftrightarrow>
     env ''BIND_ADDR'' \<noteq> [] \<and> env ''PEERS'' \<noteq> []
     \<and> (\<exists>n. atoi (env ''ME'') = Some n \<and> env ''ME'' \<noteq> [] \<and> 0 \<le> n \<and> n < int (length (str_split CHR '','' (env ''PEERS''))))"
  by (auto simp: parseConfig_def mustEnv_def Let_def split: option.splits)

lemma parseConfig_fields:
  assumes "parseConfig env = Inr c"
  shows "cMe c < length (cPeers c)" "atoi (env ''ME'') = Some (int (cMe c))" "cApiAddr c = env ''API_ADDR''"
    "cPeers c = map trim_space (str_split CHR '','' (env ''PEERS''))" "cDataDir c = env ''RAFT_DATA_DIR''"
  using assms by (auto simp: parseConfig_def mustEnv_def Let_def split: option.splits if_splits)

lemma boot_empty_dir:
  "boot c False False \<lparr>tmpFile = None, stateFile = None\<rparr> now
    = Some (Make (length (cPeers c)) (cMe c) MakePersister now, empty_store)"
  by (simp add: boot_def MakeFilePersister_def load_def NewStore_def ReadSnapshot_def MakePersister_def applySnapshot_def)


definition demo_env :: "string \<Rightarrow> string" where
  "demo_env k =
     (if k = ''BIND_ADDR'' then '':8001'' else if k = ''PEERS'' then ''h1:8001, h2:8001,h3:8001''
      else if k = ''ME'' then ''2'' else [])"


text \<open>The reconciliation happens at most once, at the first round in which the peer leads.\<close>

lemma reconcileOnLeader_first:
  assumes "\<forall>(rf, now, s) \<in> set before. role rf \<noteq> Leader" and "role rf = Leader"
  shows "reconcileOnLeader (before @ (rf, now, s) # later) = ReconcileMissedJobs now s"
  using assms by (induction before) (auto simp: GetState_def)

section \<open>A restart after a crash\<close>


definition demo_config :: config where
  "demo_config = \<lparr>cBindAddr = '':8001'', cPeers = [''h1:8001'', ''h2:8001'', ''h3:8001''], cMe = 0, cApiAddr = [],
     cDataDir = ''/data''\<rparr>"


end
