(* ===== verification/Spec2Isabelle.thy ===== *)
theory Spec2Isabelle
  imports Raft_Total Router Crond
begin

text \<open>
  Verification of the market-intel job scheduler: a daemon (\<open>cmd/crond\<close>) that keeps cron jobs in a
  store replicated by Raft, fires them on the leader, and takes requests over a REST API.

  \<^bold>\<open>The program.\<close> \<open>main.go\<close> reads the environment and builds a persister, a Raft peer, the job store, the
  scheduler and the API. A write (\<open>store.Submit\<close>) is encoded as JSON and appended to the log of the
  leader (\<open>raft.Start\<close>); heartbeats replicate it, the commit rule commits it, the apply loop of Raft
  hands it to the apply loop of the store, which applies it, saves a snapshot and releases the caller.
  The scheduler's tick asks the local store for due jobs and fires each: it checks the idempotency
  key, moves the schedule, records the run, dispatches the job to an executor and records the outcome.

  \<^bold>\<open>Theories, from the bottom.\<close>
  \<^item> \<open>Go_Prelude\<close>, \<open>Go_Strings\<close>, \<open>Go_Time\<close>, \<open>Go_Format\<close>, \<open>Go_Json\<close>, \<open>Go_Sha256\<close>: what the sources use of Go and its
    standard library. A panic (index out of range) is \<open>None\<close>; \<open>int\<close> wraps where the sources can reach
    it; a time is nanoseconds since year 1 with an offset; JSON is a tree.
  \<^item> \<open>Cron\<close>: \<open>pkg/cron/parser.go\<close>, the parser and \<open>Expression.Next\<close> on 64-bit masks.
  \<^item> \<open>Raft_Persister\<close>, \<open>Raft_Node\<close>: \<open>internal/raft/persister.go\<close> and \<open>raft.go\<close>, one definition per critical
    section (handlers, reply closures, loop bodies). \<open>Raft_Log\<close>, \<open>Raft_Ops\<close>, \<open>Raft_Replication\<close>, \<open>Raft_Apply\<close>
    hold the well-formedness \<open>raft_wf\<close>, that every operation keeps it without a panic, and what each
    does. \<open>Raft_Cluster\<close> is the cluster as a step relation with lost, repeated, reordered messages and
    crashes, and its invariant. The invariant of its logs has a full log per peer, a log per term and the
    acknowledgements as ghosts: \<open>Raft_Logs\<close> (logs as values, what a peer has cut off, stale ends after a
    snapshot), \<open>Raft_Invariants\<close> (what is chosen, committed and sent), \<open>Raft_Keep\<close>, \<open>Raft_Elections\<close>, \<open>Raft_Changes\<close>,
    \<open>Raft_Snapshots\<close>, \<open>Raft_Steps\<close> (every step keeps it), \<open>Raft_Safety\<close> (log matching, leader completeness,
    state machine safety) and \<open>Raft_Total\<close> (nothing panics).
    \<open>Raft_Rpc\<close> is \<open>rpc.go\<close>: calls over \<open>net/rpc\<close> with the fates of a connection, and the heartbeat loop.
  \<^item> \<open>Job_Types\<close>, \<open>Job_Store\<close>: \<open>internal/store\<close>, the records with their JSON encodings, the commands,
    snapshots, queries, waiters, \<open>Submit\<close> and the apply loop. \<open>Job_Store_Laws\<close> has the invariant \<open>store_ok\<close>;
    \<open>Job_Replicas\<close> the locale \<open>replicated_machine\<close> and its interpretation, an abstract store without clocks
    and the refinement, and the snapshots. \<open>Router\<close>: \<open>router.go\<close> with FNV-1a.
  \<^item> \<open>Job_Node\<close>: a leader with its store; \<open>nodeSubmit\<close> is \<open>Submit\<close> from the call to the result.
  \<^item> \<open>Scheduler\<close>: \<open>internal/scheduler\<close>. \<open>Executors\<close>: \<open>internal/executor\<close>. \<open>Scheduler_Laws\<close>: the contracts
    \<open>job_service\<close> and \<open>job_runner\<close> that firing needs, interpreted by \<open>nodeSubmit\<close> and \<open>Dispatch\<close>.
  \<^item> \<open>Api_Server\<close>: the handlers and routes of \<open>internal/api\<close>. \<open>Api_Http\<close>: the served mux and the logging
    middleware. \<open>Crond\<close>: \<open>cmd/crond/main.go\<close>, from the environment to the shutdown. This theory: properties across components.

  \<^bold>\<open>What is shown.\<close> At most one leader per term, durable votes, the replication round, the commit rule and
  the log merge of Raft; log matching, leader completeness, state machine safety and the absence of
  panics in every run of a cluster whose peers compact their logs, send and install snapshots, crash and
  restart, as long as a service takes snapshots only of what its peer has applied, as \<open>store.go\<close> does
  (\<open>served\<close>; \<open>served_step\<close>: nothing else ends such a run); delivery of every committed command once and in order; two peers of
  a cluster at the same position have stores that agree up to \<open>UpdatedAt\<close>; the invariant, idempotence, refinement and
  snapshot round trip of the store; \<open>Submit\<close> end to end, its errors, and that what it acknowledged
  survives a crash and a restart of the daemon; a firing happens once, in the right order, and moves
  the schedule past now; ticks and reconciliation; the life of a job over the API and its errors; the
  parser and \<open>Next\<close> against their specifications; the router against the arithmetic FNV-1a. Several
  theorems show where the code departs from its intent: a snapshot that overtakes a command, a check
  and a record that are not one step, a deleted job that comes back, a waiter that ignores the term, a
  single peer that never leads, day fields that are ignored, a search that does not end.

  \<^bold>\<open>Bounds.\<close> \<open>next_loop\<close> and \<open>fill_loop\<close> are partial functions with \<open>None\<close> for a loop that does not end; that they
  end is proved (\<open>Next\<close> for offsets of whole hours), and so is the case in which \<open>Next\<close> does not.
  \<open>apply_run\<close> runs the apply loop for as many steps as there are unapplied commits, which drains it. All
  other loops are total functions. Times stay within the years that RFC 3339 can write (\<open>time_ok\<close>).

  \<^bold>\<open>Not modelled.\<close> Bytes on a connection, the printing of \<open>util.go\<close>, sleeping and random timeouts: the steps
  they lead to may happen at any time.
  Locks: each definition is a critical section. The order of a map iteration is that of the keys;
  theorems about it speak of sets. The shell, HTTP servers and the Kafka client are parameters.
  What a snapshot holds is opaque to Raft: that the store's snapshots hold its state is shown for one node.
\<close>

section \<open>Two peers with the same committed commands\<close>

lemma applyMsg_observe:
  assumes "applyMsg now m (r, s) = Some (r', s')" and "CommandValid m" and "\<not> SnapshotValid m"
  shows "observe s' =
    (case Option.bind (amCommand m) decodeCommand of None \<Rightarrow> observe s | Some c \<Rightarrow> obs_step c (observe s))"
proof -
  have frame: "observe (s\<lparr>applyCount := k\<rparr>) = observe s" "observe (notifyWaiter i s) = observe s" for s k i
    by (simp_all add: observe_def notifyWaiter_def split: option.splits)
  show ?thesis
    using assms
    by (auto simp: applyMsg_def Let_def frame applyCommand_observe split: option.splits if_splits)
qed

lemma deliver_observe:
  assumes "deliver now ms (r, s) = Some (r', s')" and "\<forall>m \<in> set ms. CommandValid m \<and> \<not> SnapshotValid m"
  shows "observe s' =
    foldl (\<lambda>ob c. case Option.bind c decodeCommand of None \<Rightarrow> ob | Some c \<Rightarrow> obs_step c ob) (observe s) (map amCommand ms)"
  using assms
proof (induction ms arbitrary: r s)
  case (Cons m ms)
  obtain r1 s1 where s1: "applyMsg now m (r, s) = Some (r1, s1)" "deliver now ms (r1, s1) = Some (r', s')"
    using Cons.prems(1) by (auto simp: bind_eq_Some_conv)
  from Cons.IH [OF s1(2)] Cons.prems(2) applyMsg_observe [OF s1(1)] show ?case by simp
qed simp

lemma deliver_total: "\<exists>s'. deliver now ms (None, s) = Some (None, s')"
proof (induction ms arbitrary: s)
  case (Cons m ms)
  have "\<exists>s1. applyMsg now m (None, s) = Some (None, s1)"
    by (simp add: applyMsg_def Let_def split: option.splits)
  with Cons.IH show ?case by auto
qed simp

text \<open>
  Two peers that are at the same position and whose logs hold the same commands up to the same commit
  index deliver to their stores messages after which the stores agree.
\<close>

lemma same_log_same_store:
  assumes "raft_wf rf1" and "raft_wf rf2" and "lastApplied rf1 = lastApplied rf2" and "commitIndex rf1 = commitIndex rf2"
    and "\<forall>i. lastApplied rf1 < i \<and> i \<le> commitIndex rf1 \<longrightarrow>
      leCommand (rlog rf1 ! nat (logIndex rf1 i)) = leCommand (rlog rf2 ! nat (logIndex rf2 i))"
    and "observe s1 = observe s2"
  defines "n \<equiv> nat (commitIndex rf1 - lastApplied rf1)"
  shows "\<exists>ms1 ms2. apply_run n rf1 = Some (rf1\<lparr>lastApplied := commitIndex rf1\<rparr>, ms1)
    \<and> apply_run n rf2 = Some (rf2\<lparr>lastApplied := commitIndex rf2\<rparr>, ms2)
    \<and> (\<forall>now1 now2 r1 r2 r1' r2' s1' s2'.
         deliver now1 ms1 (r1, s1) = Some (r1', s1') \<and> deliver now2 ms2 (r2, s2) = Some (r2', s2') \<longrightarrow> observe s1' = observe s2')
    \<and> (\<forall>now1 now2. \<exists>s1' s2'. deliver now1 ms1 (None, s1) = Some (None, s1') \<and> deliver now2 ms2 (None, s2) = Some (None, s2'))"
proof -
  obtain ms1 where m1: "apply_run n rf1 = Some (rf1\<lparr>lastApplied := commitIndex rf1\<rparr>, ms1)"
    "map amCommand ms1 = map (\<lambda>i. leCommand (rlog rf1 ! nat (logIndex rf1 i))) [lastApplied rf1 + 1..commitIndex rf1]"
    "\<forall>m \<in> set ms1. CommandValid m \<and> \<not> SnapshotValid m"
    using apply_run_indices [OF assms(1) refl] by (auto simp: n_def)
  obtain ms2 where m2: "apply_run n rf2 = Some (rf2\<lparr>lastApplied := commitIndex rf2\<rparr>, ms2)"
    "map amCommand ms2 = map (\<lambda>i. leCommand (rlog rf2 ! nat (logIndex rf2 i))) [lastApplied rf2 + 1..commitIndex rf2]"
    "\<forall>m \<in> set ms2. CommandValid m \<and> \<not> SnapshotValid m"
    using apply_run_indices [OF assms(2) refl] assms(3,4) by (auto simp: n_def)
  have "map amCommand ms1 = map amCommand ms2"
    unfolding m1(2) m2(2) assms(3,4) [symmetric] by (rule map_cong [OF refl]) (use assms(5) in auto)
  then have "observe s1' = observe s2'"
    if "deliver now1 ms1 (r1, s1) = Some (r1', s1')" "deliver now2 ms2 (r2, s2) = Some (r2', s2')"
    for now1 now2 r1 r2 r1' r2' s1' s2'
    using deliver_observe [OF that(1) m1(3)] deliver_observe [OF that(2) m2(3)] assms(6) by simp
  with m1(1) m2(1) deliver_total show ?thesis by metis
qed

section \<open>The replicas of a cluster\<close>

text \<open>In a run of the cluster two peers have the same commands up to where both have committed.\<close>

lemma same_commands:
  assumes run: "reachable_served n cl" "served_steps n cl cl'" and i: "i < n" and j: "j < n"
    and k: "lastApplied (nodes cl i) < k" "k \<le> commitIndex (nodes cl i)" "lastApplied (nodes cl' j) < k" "k \<le> commitIndex (nodes cl' j)"
  shows "leCommand (rlog (nodes cl i) ! nat (logIndex (nodes cl i) k)) = leCommand (rlog (nodes cl' j) ! nat (logIndex (nodes cl' j) k))"
proof -
  have wf: "raft_wf (nodes c v)" if "reachable_served n c" "v < n" for c :: "('a, 'b) cluster" and v
    using reachable_wf [OF that(1)] wf_invD(1) that(2) by blast
  note w = raft_wfD [OF wf [OF run(1) i]] and w' = raft_wfD [OF wf [OF served_steps_reachable [OF run(2,1)] j]]
  have "log_at (nodes cl i) k = Some (rlog (nodes cl i) ! nat (logIndex (nodes cl i) k))"
    "log_at (nodes cl' j) k = Some (rlog (nodes cl' j) ! nat (logIndex (nodes cl' j) k))"
    using k w(3,5) w'(3,5) by (simp_all add: log_at_def)
  from committed_agree [OF run k(2,4) this] show ?thesis by simp
qed


definition demo_create :: raw where
  "demo_create = RawCommand \<lparr>cmdOp = OpCreateJob, cmdData = job_json demo_job\<rparr>"


section \<open>A snapshot that overtakes a command\<close>

text \<open>A peer that has applied one of three entries and knows of two commits.\<close>

definition demo_create_entry :: "int \<Rightarrow> string \<Rightarrow> raw LogEntry" where
  "demo_create_entry t i = \<lparr>leTerm = t, leCommand = Some (RawCommand \<lparr>cmdOp = OpCreateJob, cmdData = job_json (demo_job\<lparr>ID := i\<rparr>)\<rparr>)\<rparr>"

definition demo_job_peer :: job_raft where
  "demo_job_peer = (Make 3 1 MakePersister 0)
     \<lparr>currentTerm := 2, commitIndex := 2, lastApplied := 1,
      rlog := [\<lparr>leTerm = 0, leCommand = None\<rparr>, demo_create_entry 1 ''a'', demo_create_entry 1 ''b'', demo_create_entry 2 ''c'']\<rparr>"


end
